(* ===== verification/Prelude.thy ===== *)
theory Prelude
  imports Main "HOL-Library.Word" "HOL-Library.AList" "HOL-Library.Char_ord"
    "HOL-Library.List_Lexorder" "HOL-Library.Sublist"
begin

text \<open>
  The shared base of the development.  It holds the collections that the component
  theories extend (\<open>gomap\<close> for Go map laws, \<open>wire_defs\<close> for the constants of the wire
  vocabulary, \<open>step_defs\<close> for the definitions a step proof unfolds), the interface of a
  Go map as the locale \<open>kv_map\<close> with its interpretation on association lists, the
  generic transition-system locales that the invariant and simulation proofs use, and
  a few lemmas on lists and strings.
\<close>

named_theorems gomap \<open>laws of Go maps\<close>
named_theorems wire_defs \<open>constants of the wire vocabulary\<close>
named_theorems step_defs \<open>definitions unfolded by step proofs\<close>

section \<open>Go maps\<close>

text \<open>
  A Go map is read with \<open>m[k]\<close>, written with \<open>m[k] = v\<close> and shrunk with
  \<open>delete(m, k)\<close>.  The contract says how a read sees each write, and that the
  representation invariant (one entry per key) is kept.
\<close>

locale kv_map =
  fixes get :: "'m \<Rightarrow> 'k \<Rightarrow> 'v option"
    and put :: "'k \<Rightarrow> 'v \<Rightarrow> 'm \<Rightarrow> 'm"
    and del :: "'k \<Rightarrow> 'm \<Rightarrow> 'm"
    and inv :: "'m \<Rightarrow> bool"
  assumes get_put: "get (put k v m) = (get m)(k \<mapsto> v)"
    and get_del: "get (del k m) = (get m)(k := None)"
    and inv_put: "inv m \<Longrightarrow> inv (put k v m)"
    and inv_del: "inv m \<Longrightarrow> inv (del k m)"
begin

lemma get_put_same: "get (put k v m) k = Some v"
  by (simp add: get_put)

lemma get_put_other: "j \<noteq> k \<Longrightarrow> get (put k v m) j = get m j"
  by (simp add: get_put)

lemma get_del_same: "get (del k m) k = None"
  by (simp add: get_del)

lemma get_del_other: "j \<noteq> k \<Longrightarrow> get (del k m) j = get m j"
  by (simp add: get_del)

lemma get_put_del: "get (put k v (del k m)) = get (put k v m)"
  by (simp add: get_put get_del fun_eq_iff)

lemma inv_foldr_del: "inv m \<Longrightarrow> inv (foldr del ks m)"
  by (induction ks) (simp_all add: inv_del)

lemma get_foldr_del: "get (foldr del ks m) = (get m) |` (- set ks)"
  by (induction ks) (auto simp: get_del fun_eq_iff restrict_map_def)

end

text \<open>
  The model keeps a Go map as an association list with distinct keys, in any order: the
  order of the list is the order in which one \<open>range\<close> over the map visits it, so a
  theorem about every association list is a theorem about every iteration order.
\<close>

type_synonym 'v gmap = "(string \<times> 'v) list"

definition map_wf :: "'v gmap \<Rightarrow> bool" where
  "map_wf m \<longleftrightarrow> distinct (map fst m)"

definition map_put :: "string \<Rightarrow> 'v \<Rightarrow> 'v gmap \<Rightarrow> 'v gmap" where
  "map_put k v m = AList.update k v m"

definition map_delete :: "string \<Rightarrow> 'v gmap \<Rightarrow> 'v gmap" where
  "map_delete k m = AList.delete k m"

interpretation gmap: kv_map map_of map_put map_delete map_wf
  by unfold_locales
    (auto simp: map_put_def map_delete_def map_wf_def update_conv' delete_conv'
      intro: distinct_update distinct_delete)

lemmas gmap_get [gomap, simp] =
  gmap.get_put_same gmap.get_put_other gmap.get_del_same gmap.get_del_other

lemmas gmap_inv [gomap, simp, intro] = gmap.inv_put gmap.inv_del

lemma map_wf_Nil [simp]: "map_wf []"
  by (simp add: map_wf_def)

lemma map_wf_Cons [simp]: "map_wf ((k, v) # m) \<longleftrightarrow> k \<notin> fst ` set m \<and> map_wf m"
  by (simp add: map_wf_def)

lemma set_map_delete: "set (map_delete k m) = {(j, v) \<in> set m. j \<noteq> k}"
  by (induction m) (auto simp: map_delete_def)

lemma set_map_delete_subset: "set (map_delete k m) \<subseteq> set m"
  by (auto simp: set_map_delete)

lemma set_map_put_subset: "set (map_put k v m) \<subseteq> insert (k, v) (set m)"
  by (induction m) (auto simp: map_put_def)

lemma map_delete_absent: "map_of m k = None \<Longrightarrow> map_delete k m = m"
  by (induction m) (auto simp: map_delete_def split: if_splits)

lemma map_of_mem: "map_wf m \<Longrightarrow> (map_of m k = Some v) = ((k, v) \<in> set m)"
  by (simp add: map_wf_def)

section \<open>Transition systems\<close>

text \<open>
  Safety of a component is an invariant of its step relation: it holds where the
  component starts and every step keeps it.  The locale proves once that it then holds
  in every state a run reaches; each component interprets it on its own steps.
\<close>

inductive run_steps :: "('s \<Rightarrow> 'l \<Rightarrow> 's \<Rightarrow> bool) \<Rightarrow> 's \<Rightarrow> 'l list \<Rightarrow> 's \<Rightarrow> bool"
  for step where
  run_refl: "run_steps step s [] s"
| run_snoc: "run_steps step s ls t \<Longrightarrow> step t l u \<Longrightarrow> run_steps step s (ls @ [l]) u"

inductive_cases run_steps_NilE: "run_steps step s [] t"

lemma run_steps_one: "step s l t \<Longrightarrow> run_steps step s [l] t"
  using run_snoc [OF run_refl, of step s l t] by simp

lemma run_steps_append:
  "run_steps step t ms u \<Longrightarrow> run_steps step s ls t \<Longrightarrow> run_steps step s (ls @ ms) u"
proof (induction rule: run_steps.induct)
  case (run_snoc t ms u l v)
  then have "run_steps step s ((ls @ ms) @ [l]) v"
    by (blast intro: run_steps.run_snoc)
  then show ?case by simp
qed simp

locale invariant_system =
  fixes start :: "'s \<Rightarrow> bool"
    and step :: "'s \<Rightarrow> 'l \<Rightarrow> 's \<Rightarrow> bool"
    and I :: "'s \<Rightarrow> bool"
  assumes inv_start: "start s \<Longrightarrow> I s"
    and inv_step: "I s \<Longrightarrow> step s l t \<Longrightarrow> I t"
begin

lemma inv_run: "run_steps step s ls t \<Longrightarrow> I s \<Longrightarrow> I t"
  by (induction rule: run_steps.induct) (auto intro: inv_step)

lemma inv_reachable: "start s \<Longrightarrow> run_steps step s ls t \<Longrightarrow> I t"
  by (blast intro: inv_run inv_start)

end

text \<open>
  A functional refinement: the concrete step, seen through the simulation relation, is
  the abstract step.  The locale lifts one step to whole input sequences.
\<close>

fun all_ok :: "('i \<Rightarrow> 'c \<Rightarrow> bool) \<Rightarrow> ('i \<Rightarrow> 'c \<Rightarrow> 'c) \<Rightarrow> 'i list \<Rightarrow> 'c \<Rightarrow> bool" where
  "all_ok ok cstep [] c \<longleftrightarrow> True"
| "all_ok ok cstep (i # is) c \<longleftrightarrow> ok i c \<and> all_ok ok cstep is (cstep i c)"

locale simulation =
  fixes cstep :: "'i \<Rightarrow> 'c \<Rightarrow> 'c"
    and astep :: "'i \<Rightarrow> 'a \<Rightarrow> 'a"
    and ok :: "'i \<Rightarrow> 'c \<Rightarrow> bool"
    and R :: "'c \<Rightarrow> 'a \<Rightarrow> bool"
  assumes sim_step: "R c a \<Longrightarrow> ok i c \<Longrightarrow> R (cstep i c) (astep i a)"
begin

lemma sim_run: "R c a \<Longrightarrow> all_ok ok cstep is c \<Longrightarrow> R (fold cstep is c) (fold astep is a)"
  by (induction "is" arbitrary: c a) (auto intro: sim_step)

end

section \<open>Lists and strings\<close>

lemma filter_fst_map_of: "map_of (filter (\<lambda>kv. P (fst kv)) m) k = (if P k then map_of m k else None)"
  by (induction m) auto

lemma distinct_map_sort_key: "distinct (map f (sort_key f xs)) = distinct (map f xs)"
  by (simp add: distinct_map)

lemma sorted_distinct_set_unique_key:
  assumes "distinct (map f xs)" and "distinct (map f ys)"
    and "sorted (map f xs)" and "sorted (map f ys)" and "set xs = set ys"
  shows "xs = ys"
proof -
  have "map f xs = map f ys"
    using assms by (intro sorted_distinct_set_unique) (auto simp: image_iff)
  moreover have "inj_on f (set xs \<union> set ys)"
    using assms(1,5) by (simp add: distinct_map)
  ultimately show ?thesis by (rule map_inj_on)
qed

end
