(* ===== verification/Values.thy ===== *)
theory Values
  imports Prelude
begin

text \<open>
  The decoded JSON values that the gateway carries (Go's \<open>any\<close> after
  \<open>encoding/json\<close> or client-go decoded it) and what the source does with them: type
  assertions on fields, \<open>deepCopyValue\<close>, \<open>KRMObject.UID\<close>, \<open>reflect.DeepEqual\<close>.
  A number is kept as its JSON literal: the gateway copies, compares and prints numbers
  and never computes with them.
\<close>

section \<open>Data\<close>

datatype json =
    JNull
  | JBool bool
  | JNum string
  | JStr string
  | JArr "json list"
  | JObj "json gmap"

text \<open>\<open>type KRMObject map[string]any\<close>\<close>

type_synonym KRMObject = "json gmap"

text \<open>Every map in a value has one entry per key.\<close>

fun wf_json :: "json \<Rightarrow> bool" where
  "wf_json (JObj m) = (map_wf m \<and> list_all (\<lambda>kv. wf_json (snd kv)) m)"
| "wf_json (JArr xs) = list_all wf_json xs"
| "wf_json _ = True"

abbreviation wf_object :: "KRMObject \<Rightarrow> bool" where
  "wf_object o' \<equiv> wf_json (JObj o')"

section \<open>Type assertions on fields\<close>

text \<open>\<open>m, ok := o[k].(map[string]any)\<close>: \<open>None\<close> when \<open>ok\<close> is false.\<close>

definition obj_field :: "KRMObject \<Rightarrow> string \<Rightarrow> KRMObject option" where
  "obj_field o' k = (case map_of o' k of Some (JObj m) \<Rightarrow> Some m | _ \<Rightarrow> None)"

text \<open>\<open>s, _ := m[k].(string)\<close>: the zero value \<open>""\<close> when the assertion fails.\<close>

definition str_field :: "KRMObject \<Rightarrow> string \<Rightarrow> string" where
  "str_field m k = (case map_of m k of Some (JStr s) \<Rightarrow> s | _ \<Rightarrow> [])"

definition UID :: "KRMObject \<Rightarrow> string" where
  "UID o' = (case obj_field o' ''metadata'' of None \<Rightarrow> [] | Some meta \<Rightarrow> str_field meta ''uid'')"

definition resourceVersionOf :: "KRMObject \<Rightarrow> string" where
  "resourceVersionOf o' =
     (case obj_field o' ''metadata'' of
        None \<Rightarrow> []
      | Some meta \<Rightarrow> str_field meta ''resourceVersion'')"

section \<open>Deep copy\<close>

fun deepCopyValue :: "json \<Rightarrow> json" where
  "deepCopyValue (JObj t) = JObj (map (\<lambda>kv. (fst kv, deepCopyValue (snd kv))) t)"
| "deepCopyValue (JArr t) = JArr (map deepCopyValue t)"
| "deepCopyValue v = v"

definition deepCopyObject :: "KRMObject \<Rightarrow> KRMObject" where
  "deepCopyObject o' = (case deepCopyValue (JObj o') of JObj m \<Rightarrow> m | _ \<Rightarrow> [])"

section \<open>Equality of values\<close>

text \<open>
  Two Go maps are equal when they bind the same keys to equal values, in whatever order.
  \<open>canon\<close> lists every map in key order, which is also the order in which
  \<open>encoding/json\<close> writes it.
\<close>

fun canon :: "json \<Rightarrow> json" where
  "canon (JObj m) = JObj (sort_key fst (map (\<lambda>kv. (fst kv, canon (snd kv))) m))"
| "canon (JArr xs) = JArr (map canon xs)"
| "canon v = v"

definition DeepEqual :: "json \<Rightarrow> json \<Rightarrow> bool" where
  "DeepEqual a b \<longleftrightarrow> canon a = canon b"

section \<open>Paths\<close>

text \<open>The value at a path of keys, as an RFC 6901 pointer into nested maps finds it.\<close>

fun value_at :: "json \<Rightarrow> string list \<Rightarrow> json option" where
  "value_at v [] = Some v"
| "value_at (JObj m) (k # ks) = (case map_of m k of None \<Rightarrow> None | Some v \<Rightarrow> value_at v ks)"
| "value_at _ (k # ks) = None"

section \<open>Lemmas\<close>

lemma deepCopyValue_id [simp]: "deepCopyValue v = v"
  by (induction v rule: deepCopyValue.induct) (auto simp: map_idI)

lemma deepCopyObject_id [simp]: "deepCopyObject o' = o'"
  by (simp add: deepCopyObject_def del: deepCopyValue.simps)

lemma obj_field_Some: "obj_field o' k = Some m \<longleftrightarrow> map_of o' k = Some (JObj m)"
  by (auto simp: obj_field_def split: option.splits json.splits)

lemma wf_object_map [simp]: "wf_object m \<Longrightarrow> map_wf m"
  by simp

lemma wf_object_lookup: "wf_object m \<Longrightarrow> map_of m k = Some v \<Longrightarrow> wf_json v"
  by (auto simp: list_all_iff dest!: map_of_SomeD)

lemma wf_obj_field: "wf_object o' \<Longrightarrow> obj_field o' k = Some m \<Longrightarrow> wf_object m"
  using wf_object_lookup [of o' k "JObj m"] by (simp add: obj_field_Some)

lemma wf_object_delete: "wf_object m \<Longrightarrow> wf_object (map_delete k m)"
  using set_map_delete_subset [of k m] by (auto simp: list_all_iff)

lemma wf_object_put: "wf_object m \<Longrightarrow> wf_json v \<Longrightarrow> wf_object (map_put k v m)"
  using set_map_put_subset [of k v m] by (auto simp: list_all_iff)

lemma map_of_canon:
  "map_wf m \<Longrightarrow> canon (JObj m) = JObj m' \<Longrightarrow> map_of m' k = map_option canon (map_of m k)"
proof -
  assume wf: "map_wf m" and eq: "canon (JObj m) = JObj m'"
  let ?l = "map (\<lambda>kv. (fst kv, canon (snd kv))) m"
  have d: "distinct (map fst ?l)" using wf by (simp add: map_wf_def comp_def)
  have m': "m' = sort_key fst ?l" using eq by simp
  have ds: "distinct (map fst m')"
    using d unfolding m' by (simp only: distinct_map_sort_key)
  have "map_of m' = map_of ?l"
    using map_of_inject_set [OF ds d] by (simp add: m')
  then have "map_of m' k = map_of ?l k" by simp
  also have "\<dots> = map_option canon (map_of m k)"
    by (induction m) auto
  finally show ?thesis .
qed

lemma value_at_append: "value_at v (p @ q) = (case value_at v p of None \<Rightarrow> None | Some w \<Rightarrow> value_at w q)"
  by (induction v p rule: value_at.induct) (auto split: option.splits)

text \<open>How a read at a path sees a write or a delete at its first key.\<close>

lemma value_at_Cons: "value_at (JObj m) (k # q) = (case map_of m k of None \<Rightarrow> None | Some v \<Rightarrow> value_at v q)"
  by simp

lemma value_at_delete [simp]:
  "value_at (JObj (map_delete k m)) (j # q) = (if j = k then None else value_at (JObj m) (j # q))"
  by simp

lemma value_at_put [simp]:
  "value_at (JObj (map_put k v m)) (j # q) = (if j = k then value_at v q else value_at (JObj m) (j # q))"
  by simp

end
