(* ===== verification/Encoding.thy ===== *)
theory Encoding
  imports Values
begin

text \<open>
  The bytes \<open>encoding/json\<close> writes for the values of the model.  Strings are byte
  strings in UTF-8, as Go holds them after decoding; the encoder escapes quotes,
  backslashes, control characters, \<open><\<close>, \<open>>\<close>, \<open>&\<close> and the line separators
  U+2028 and U+2029, and passes every other byte through.  A map is written in key
  order (\<open>json_Marshal\<close> on the canonical value), a struct in field order.  The lemmas
  show that the text determines the value, and that it holds no control character.
\<close>

section \<open>Numbers\<close>

definition is_digit :: "char \<Rightarrow> bool" where
  "is_digit c \<longleftrightarrow> CHR ''0'' \<le> c \<and> c \<le> CHR ''9''"

definition digit_char :: "nat \<Rightarrow> char" where
  "digit_char d = char_of (48 + d)"

fun show_nat :: "nat \<Rightarrow> string" where
  "show_nat n = (if n < 10 then [digit_char n] else show_nat (n div 10) @ [digit_char (n mod 10)])"

declare show_nat.simps [simp del]

definition show_int :: "int \<Rightarrow> string" where
  "show_int i = (if i < 0 then CHR ''-'' # show_nat (nat (- i)) else show_nat (nat i))"

section \<open>Strings\<close>

definition hex_digit :: "nat \<Rightarrow> char" where
  "hex_digit d = (if d < 10 then char_of (48 + d) else char_of (87 + d))"

abbreviation backslash :: char where "backslash \<equiv> CHR 0x5C"
abbreviation dquote :: char where "dquote \<equiv> CHR 0x22"

definition escape_char :: "char \<Rightarrow> string" where
  "escape_char c =
     (if c = dquote \<or> c = backslash then [backslash, c]
      else if c = CHR 0x08 then [backslash, CHR ''b'']
      else if c = CHR 0x0C then [backslash, CHR ''f'']
      else if c = CHR 0x0A then [backslash, CHR ''n'']
      else if c = CHR 0x0D then [backslash, CHR ''r'']
      else if c = CHR 0x09 then [backslash, CHR ''t'']
      else if c < CHR 0x20 \<or> c = CHR ''<'' \<or> c = CHR ''>'' \<or> c = CHR ''&''
      then [backslash, CHR ''u'', CHR ''0'', CHR ''0'',
            hex_digit (of_char c div 16), hex_digit (of_char c mod 16)]
      else [c])"

definition is_line_sep :: "char \<Rightarrow> char \<Rightarrow> char \<Rightarrow> bool" where
  "is_line_sep a b c \<longleftrightarrow> a = CHR 0xE2 \<and> b = CHR 0x80 \<and> (c = CHR 0xA8 \<or> c = CHR 0xA9)"

fun escape :: "string \<Rightarrow> string" where
  "escape (a # b # c # s) =
     (if is_line_sep a b c
      then backslash # (if c = CHR 0xA8 then ''u2028'' else ''u2029'') @ escape s
      else escape_char a @ escape (b # c # s))"
| "escape (a # s) = escape_char a @ escape s"
| "escape [] = []"

definition quote :: "string \<Rightarrow> string" where
  "quote s = dquote # escape s @ [dquote]"

section \<open>Values\<close>

fun join_with :: "char \<Rightarrow> string list \<Rightarrow> string" where
  "join_with c [] = []"
| "join_with c [x] = x"
| "join_with c (x # y # xs) = x @ c # join_with c (y # xs)"

fun enc :: "json \<Rightarrow> string" where
  "enc JNull = ''null''"
| "enc (JBool b) = (if b then ''true'' else ''false'')"
| "enc (JNum s) = s"
| "enc (JStr s) = quote s"
| "enc (JArr xs) = CHR ''['' # join_with (CHR '','') (map enc xs) @ '']''"
| "enc (JObj m) =
     CHR ''{'' # join_with (CHR '','') (map (\<lambda>kv. quote (fst kv) @ CHR '':'' # enc (snd kv)) m) @ ''}''"

definition json_Marshal :: "json \<Rightarrow> string" where
  "json_Marshal v = enc (canon v)"

text \<open>A JSON number literal: it starts with a digit or a minus sign and holds number characters.\<close>

definition num_char :: "char \<Rightarrow> bool" where
  "num_char c \<longleftrightarrow> is_digit c \<or> c \<in> {CHR ''+'', CHR ''-'', CHR ''.'', CHR ''e'', CHR ''E''}"

definition num_literal :: "string \<Rightarrow> bool" where
  "num_literal s \<longleftrightarrow> s \<noteq> [] \<and> list_all num_char s \<and> (is_digit (hd s) \<or> hd s = CHR ''-'')"

fun nums_ok :: "json \<Rightarrow> bool" where
  "nums_ok (JNum s) = num_literal s"
| "nums_ok (JArr xs) = list_all nums_ok xs"
| "nums_ok (JObj m) = list_all (\<lambda>kv. nums_ok (snd kv)) m"
| "nums_ok _ = True"

section \<open>A string reader, the inverse of \<open>quote\<close>\<close>

definition hex_val :: "char \<Rightarrow> nat" where
  "hex_val c = (if c < CHR ''a'' then of_char c - 48 else of_char c - 87)"

text \<open>
  Reads the inside of a string literal up to its closing quote; the result is the string
  and the text after the quote.
\<close>

fun unquote :: "string \<Rightarrow> (string \<times> string) option" where
  "unquote [] = None"
| "unquote (c # r) =
     (if c = dquote then Some ([], r)
      else if c \<noteq> backslash
      then map_option (\<lambda>(s, t). (c # s, t)) (unquote r)
      else (case r of
          [] \<Rightarrow> None
        | e # r' \<Rightarrow>
            (if e = CHR ''u'' then
               (case r' of
                  h1 # h2 # h3 # h4 # r'' \<Rightarrow>
                    (if h1 = CHR ''2''
                     then map_option (\<lambda>(s, t).
                       (CHR 0xE2 # CHR 0x80 # (if h4 = CHR ''8'' then CHR 0xA8 else CHR 0xA9) # s, t))
                       (unquote r'')
                     else map_option (\<lambda>(s, t). (char_of (16 * hex_val h3 + hex_val h4) # s, t)) (unquote r''))
                | _ \<Rightarrow> None)
             else map_option (\<lambda>(s, t).
               ((if e = CHR ''b'' then CHR 0x08 else if e = CHR ''f'' then CHR 0x0C
                 else if e = CHR ''n'' then CHR 0x0A else if e = CHR ''r'' then CHR 0x0D
                 else if e = CHR ''t'' then CHR 0x09 else e) # s, t)) (unquote r'))))"

section \<open>Notions the lemmas use\<close>

text \<open>What may follow a value inside a text, and the kind of a value its first byte tells.\<close>

definition delim :: "string \<Rightarrow> bool" where
  "delim r \<longleftrightarrow> r = [] \<or> hd r \<in> {CHR '','', CHR '']'', CHR ''}''}"

fun json_kind :: "json \<Rightarrow> nat" where
  "json_kind JNull = 0"
| "json_kind (JBool True) = 1"
| "json_kind (JBool False) = 2"
| "json_kind (JNum s) = 3"
| "json_kind (JStr s) = 4"
| "json_kind (JArr xs) = 5"
| "json_kind (JObj m) = 6"

definition kind_of_char :: "char \<Rightarrow> nat" where
  "kind_of_char c =
     (if c = CHR ''n'' then 0 else if c = CHR ''t'' then 1 else if c = CHR ''f'' then 2
      else if c = dquote then 4 else if c = CHR ''['' then 5 else if c = CHR ''{'' then 6 else 3)"

text \<open>Text without control characters, so without a line break.\<close>

definition printable :: "string \<Rightarrow> bool" where
  "printable s \<longleftrightarrow> list_all (\<lambda>c. \<not> c < CHR 0x20) s"

fun dec_val :: "string \<Rightarrow> nat" where
  "dec_val s = foldl (\<lambda>n c. 10 * n + (of_char c - 48)) 0 s"

declare dec_val.simps [simp del]

section \<open>Lemmas\<close>

subsection \<open>The text determines the value\<close>

lemma of_char_hex: "char_of (16 * (of_char c div 16) + of_char c mod 16 :: nat) = c"
  by simp

lemma hex_val_digit: "d < 16 \<Longrightarrow> hex_val (hex_digit d) = d"
proof -
  assume "d < 16"
  then have "d = 0 \<or> d = 1 \<or> d = 2 \<or> d = 3 \<or> d = 4 \<or> d = 5 \<or> d = 6 \<or> d = 7 \<or> d = 8 \<or> d = 9 \<or>
      d = 10 \<or> d = 11 \<or> d = 12 \<or> d = 13 \<or> d = 14 \<or> d = 15" by arith
  then show ?thesis by (auto simp: hex_val_def hex_digit_def less_char_def)
qed

lemma unquote_escape_char:
  "unquote (escape_char c @ r) = map_option (\<lambda>(s, t). (c # s, t)) (unquote r)" 
proof -
  have h: "(of_char c :: nat) div 16 < 16" "(of_char c :: nat) mod 16 < 16"
    by (simp_all add: less_mult_imp_div_less)
  show ?thesis
    by (auto simp: escape_char_def hex_val_digit [OF h(1)] hex_val_digit [OF h(2)] of_char_hex)
qed

lemma unquote_escape: "unquote (escape s @ dquote # r) = Some (s, r)"
  by (induction s rule: escape.induct) (auto simp: unquote_escape_char is_line_sep_def)

lemma quote_inj: "quote s @ x = quote t @ y \<Longrightarrow> s = t \<and> x = y"
proof -
  assume "quote s @ x = quote t @ y"
  then have "escape s @ dquote # x = escape t @ dquote # y" by (simp add: quote_def)
  then have "unquote (escape s @ dquote # x) = unquote (escape t @ dquote # y)" by simp
  then show ?thesis by (simp only: unquote_escape) simp
qed

lemma join_with_Cons:
  "join_with c (x # xs) @ e # r = x @ (if xs = [] then e # r else c # join_with c xs @ e # r)"
  by (cases xs) auto

lemma join_with_inj:
  assumes f: "\<And>a b x y. a \<in> set xs \<Longrightarrow> b \<in> set ys \<Longrightarrow> delim x \<Longrightarrow> delim y \<Longrightarrow> f a @ x = f b @ y \<Longrightarrow> a = b \<and> x = y"
    and ne: "\<And>a. a \<in> set xs \<union> set ys \<Longrightarrow> f a \<noteq> [] \<and> hd (f a) \<noteq> e"
    and e: "e = CHR '']'' \<or> e = CHR ''}''"
    and eq: "join_with (CHR '','') (map f xs) @ e # x = join_with (CHR '','') (map f ys) @ e # y"
  shows "xs = ys \<and> x = y"
  using f ne eq
proof (induction xs arbitrary: ys)
  case Nil
  then have "hd (join_with (CHR '','') (map f ys) @ e # y) = e" by (metis append_Nil join_with.simps(1) list.map(1) list.sel(1))
  then show ?case using Nil(2,3) by (cases ys) (auto simp: join_with_Cons)
next
  case (Cons a xs)
  let ?tl = "\<lambda>zs r. if map f zs = [] then e # r else CHR '','' # join_with (CHR '','') (map f zs) @ e # r"
  show ?case
  proof (cases ys)
    case Nil
    then have "hd (join_with (CHR '','') (map f (a # xs)) @ e # x) = e"
      using Cons.prems(3) by simp
    then show ?thesis using Cons.prems(2) by (auto simp: join_with_Cons)
  next
    case ys: (Cons b zs)
    have "f a @ ?tl xs x = f b @ ?tl zs y"
      using Cons.prems(3) ys by (simp only: list.map join_with_Cons)
    moreover have "delim (?tl r s)" for r s using e by (auto simp: delim_def)
    ultimately have ab: "a = b" and tl: "?tl xs x = ?tl zs y"
      using Cons.prems(1) [of a b "?tl xs x" "?tl zs y"] ys by (simp_all del: map_is_Nil_conv)
    have iff: "xs = [] \<longleftrightarrow> zs = []" using tl e by (auto split: if_splits)
    have "xs = zs \<and> x = y"
    proof (cases "xs = []")
      case True then show ?thesis using iff tl by simp
    next
      case False
      with iff tl have "join_with (CHR '','') (map f xs) @ e # x = join_with (CHR '','') (map f zs) @ e # y"
        by simp
      then show ?thesis using Cons.IH [of zs] Cons.prems(1,2) ys by auto
    qed
    then show ?thesis using ab ys by simp
  qed
qed

lemma enc_not_Nil [simp]: "nums_ok v \<Longrightarrow> enc v \<noteq> []"
  by (cases v) (auto simp: num_literal_def quote_def)

lemma enc_kind: "nums_ok v \<Longrightarrow> kind_of_char (hd (enc v)) = json_kind v"
  by (cases v rule: json_kind.cases) (auto simp: kind_of_char_def num_literal_def quote_def is_digit_def less_eq_char_def)

lemma enc_hd: "nums_ok v \<Longrightarrow> hd (enc v) \<noteq> CHR '']'' \<and> hd (enc v) \<noteq> CHR ''}''"
  by (cases v) (auto simp: num_literal_def quote_def is_digit_def less_eq_char_def)

lemma enc_same_kind:
  assumes "nums_ok v" and "nums_ok w" and "enc v @ x = enc w @ y"
  shows "json_kind v = json_kind w"
proof -
  have "hd (enc v) = hd (enc w)"
    using assms enc_not_Nil by (metis hd_append2)
  then show ?thesis using enc_kind assms(1,2) by metis
qed

lemma json_kind_simps [simp]:
  "json_kind w = 3 \<longleftrightarrow> (\<exists>s. w = JNum s)" "json_kind w = 4 \<longleftrightarrow> (\<exists>s. w = JStr s)"
  "json_kind w = 5 \<longleftrightarrow> (\<exists>s. w = JArr s)" "json_kind w = 6 \<longleftrightarrow> (\<exists>s. w = JObj s)"
  "json_kind w = 0 \<longleftrightarrow> w = JNull" "json_kind w = Suc 0 \<longleftrightarrow> w = JBool True" "json_kind w = 2 \<longleftrightarrow> w = JBool False"
  by (cases w rule: json_kind.cases; simp)+

lemma num_literal_inj:
  assumes "num_literal s" "num_literal t" "delim x" "delim y" "s @ x = t @ y"
  shows "s = t \<and> x = y"
proof -
  have tw: "takeWhile num_char (u @ z) = u" if "num_literal u" "delim z" for u z
  proof -
    have "takeWhile num_char z = []" using that(2)
      by (cases z) (auto simp: delim_def num_char_def is_digit_def)
    moreover have "\<forall>c\<in>set u. num_char c" using that(1) by (simp add: num_literal_def list_all_iff)
    ultimately show ?thesis by (simp add: takeWhile_append2)
  qed
  have "s = t" using tw [OF assms(1,3)] tw [OF assms(2,4)] assms(5) by simp
  then show ?thesis using assms(5) by simp
qed

lemma enc_inj:
  "nums_ok v \<Longrightarrow> nums_ok w \<Longrightarrow> delim x \<Longrightarrow> delim y \<Longrightarrow> enc v @ x = enc w @ y \<Longrightarrow> v = w \<and> x = y"
proof (induction v arbitrary: w x y rule: nums_ok.induct [case_names num arr obj null bool str])
  case (num s)
  then obtain t where "w = JNum t" using enc_same_kind [of "JNum s" w x y] by auto
  then show ?case using num_literal_inj [of s t x y] num by simp
next
  case (arr xs)
  then obtain ys where w: "w = JArr ys" using enc_same_kind [of "JArr xs" w x y] by auto
  have "xs = ys \<and> x = y"
    by (rule join_with_inj [where f = enc and e = "CHR '']''"])
      (use arr w enc_hd in \<open>auto simp: list_all_iff\<close>)
  then show ?case using w by simp
next
  case (obj m)
  let ?f = "\<lambda>kv. quote (fst kv) @ CHR '':'' # enc (snd kv)"
  obtain n where w: "w = JObj n" using obj enc_same_kind [of "JObj m" w x y] by auto
  have "m = n \<and> x = y"
  proof (rule join_with_inj [where f = ?f and e = "CHR ''}''"])
    fix a b u v
    assume a: "a \<in> set m" and b: "b \<in> set n" and d: "delim u" "delim v" and eq: "?f a @ u = ?f b @ v"
    then have "fst a = fst b \<and> enc (snd a) @ u = enc (snd b) @ v"
      using quote_inj [of "fst a" "CHR '':'' # enc (snd a) @ u" "fst b" "CHR '':'' # enc (snd b) @ v"] by simp
    moreover have "nums_ok (snd a)" "nums_ok (snd b)" using a b obj w by (auto simp: list_all_iff)
    ultimately show "a = b \<and> u = v" using obj.IH [OF a] d by (auto simp: prod_eq_iff)
  qed (use obj w in \<open>auto simp: quote_def\<close>)
  then show ?case using w by simp
next
  case null
  then show ?case using enc_same_kind [of JNull w x y] by simp
next
  case (bool b)
  have "json_kind (JBool b) = json_kind w" by (rule enc_same_kind) (use bool in simp_all)
  then have "w = JBool b" by (cases b; cases w rule: json_kind.cases) simp_all
  then show ?case using bool by simp
next
  case (str s)
  then obtain t where "w = JStr t" using enc_same_kind [of "JStr s" w x y] by auto
  then show ?case using quote_inj [of s x t y] str by simp
qed

lemma nums_ok_canon: "nums_ok (canon v) = nums_ok v"
  by (induction v rule: canon.induct) (auto simp: list_all_iff)

lemma json_Marshal_inj:
  assumes "nums_ok v" and "nums_ok w" and "json_Marshal v = json_Marshal w"
  shows "DeepEqual v w"
  using enc_inj [of "canon v" "canon w" "[]" "[]"] assms
  by (simp add: json_Marshal_def DeepEqual_def nums_ok_canon delim_def)

subsection \<open>No control characters\<close>

lemma printable_simps [simp]:
  "printable []" "printable (c # s) \<longleftrightarrow> \<not> c < CHR 0x20 \<and> printable s"
  "printable (s @ t) \<longleftrightarrow> printable s \<and> printable t"
  by (simp_all add: printable_def)

lemma printable_hex: "d < 16 \<Longrightarrow> \<not> hex_digit d < CHR 0x20"
  by (auto simp: hex_digit_def less_char_def)

lemma printable_escape_char: "printable (escape_char c)"
  by (auto simp: escape_char_def less_mult_imp_div_less printable_hex)

lemma printable_escape: "printable (escape s)"
  by (induction s rule: escape.induct) (auto simp: printable_escape_char)

lemma printable_quote: "printable (quote s)"
  by (simp add: quote_def printable_escape)

lemma printable_join: "(\<And>x. x \<in> set xs \<Longrightarrow> printable x) \<Longrightarrow> \<not> c < CHR 0x20 \<Longrightarrow> printable (join_with c xs)"
  by (induction c xs rule: join_with.induct) auto

lemma printable_enc: "nums_ok v \<Longrightarrow> printable (enc v)"
proof (induction v rule: nums_ok.induct)
  case (1 s)
  have "num_char c \<Longrightarrow> \<not> c < CHR 0x20" for c
    by (auto simp: num_char_def is_digit_def less_char_def less_eq_char_def)
  then show ?case using 1 by (auto simp: num_literal_def printable_def list_all_iff)
qed (auto simp: list_all_iff printable_quote intro!: printable_join)

lemma printable_json_Marshal: "nums_ok v \<Longrightarrow> printable (json_Marshal v)"
  by (simp add: json_Marshal_def printable_enc nums_ok_canon)

subsection \<open>Decimal numbers\<close>

lemma dec_val_snoc [simp]: "dec_val (s @ [c]) = 10 * dec_val s + (of_char c - 48)"
  by (simp add: dec_val.simps)

lemma dec_val_show_nat: "dec_val (show_nat n) = n"
proof (induction n rule: show_nat.induct)
  case (1 n)
  then show ?case
    by (subst show_nat.simps) (auto simp: digit_char_def dec_val.simps [of "[_]"])
qed

lemma is_digit_digit_char: "d < 10 \<Longrightarrow> is_digit (digit_char d)"
  by (simp add: is_digit_def digit_char_def less_eq_char_def)

lemma show_nat_digits: "c \<in> set (show_nat n) \<Longrightarrow> is_digit c"
proof (induction n rule: show_nat.induct)
  case (1 n)
  then show ?case using is_digit_digit_char [of n] is_digit_digit_char [of "n mod 10"]
    by (cases "n < 10") (auto simp: show_nat.simps [of n])
qed

lemma show_nat_not_Nil [simp]: "show_nat n \<noteq> []"
  by (subst show_nat.simps) simp

lemma num_literal_show_nat [simp]: "num_literal (show_nat n)"
  using show_nat_digits [of _ n] hd_in_set [OF show_nat_not_Nil, of n]
  by (simp add: num_literal_def list_all_iff num_char_def)

lemma num_literal_show_int [simp]: "num_literal (show_int i)"
proof (cases "i < 0")
  case True
  have "list_all num_char (show_nat (nat (- i)))"
    using num_literal_show_nat [of "nat (- i)"] by (simp add: num_literal_def)
  with True show ?thesis by (simp add: show_int_def num_literal_def num_char_def)
qed (simp add: show_int_def)

end
