(* ===== verification/Wire.thy ===== *)
theory Wire
  imports Encoding
begin

text \<open>
  The wire vocabulary and the seams: \<open>gateway/event.go\<close> (event types, error codes,
  projections, the event record, its JSON and SSE forms, the sequence sink),
  \<open>gateway/seams.go\<close> (upstream events, \<open>StreamError\<close> and its constructors, Go's
  error chains as \<open>errors.As\<close> and \<open>errors.Is\<close> walk them) and \<open>gateway/observe.go\<close>
  (observations and diagnostics).  The locale \<open>sink\<close> is the \<open>Sink\<close> interface.
\<close>

section \<open>Event vocabulary\<close>

definition ProtocolVersion :: nat where
  "ProtocolVersion = 1"

datatype EventType = EventReset | EventAdded | EventModified | EventDeleted | EventSynced | EventError

fun EventType_name :: "EventType \<Rightarrow> string" where
  "EventType_name EventReset = ''reset''"
| "EventType_name EventAdded = ''added''"
| "EventType_name EventModified = ''modified''"
| "EventType_name EventDeleted = ''deleted''"
| "EventType_name EventSynced = ''synced''"
| "EventType_name EventError = ''error''"

text \<open>\<open>ErrorCode\<close> is a Go string type: the stable codes, and any other string a host chose.\<close>

datatype ErrorCode =
    CodeForbidden
  | CodeUnauthenticated
  | CodeScopeInvalid
  | CodeUpstreamUnavailable
  | CodeResyncRequired
  | CodeSlowConsumer
  | CodeInternal
  | CodeOther string

fun ErrorCode_name :: "ErrorCode \<Rightarrow> string" where
  "ErrorCode_name CodeForbidden = ''FORBIDDEN''"
| "ErrorCode_name CodeUnauthenticated = ''UNAUTHENTICATED''"
| "ErrorCode_name CodeScopeInvalid = ''SCOPE_INVALID''"
| "ErrorCode_name CodeUpstreamUnavailable = ''UPSTREAM_UNAVAILABLE''"
| "ErrorCode_name CodeResyncRequired = ''RESYNC_REQUIRED''"
| "ErrorCode_name CodeSlowConsumer = ''SLOW_CONSUMER''"
| "ErrorCode_name CodeInternal = ''INTERNAL''"
| "ErrorCode_name (CodeOther s) = s"

text \<open>\<open>Projection\<close> is a Go string type too: a policy may select a name nobody knows.\<close>

type_synonym Projection = string

definition ProjectionRaw :: Projection where [wire_defs]: "ProjectionRaw = ''krm-raw/v1''"
definition ProjectionFull :: Projection where [wire_defs]: "ProjectionFull = ''krm-full/v1''"
definition ProjectionSpec :: Projection where [wire_defs]: "ProjectionSpec = ''krm-spec/v1''"

record Redaction =
  rd_Path :: string
  rd_Rev :: "64 word"

record Identity =
  id_UID :: string
  id_APIVersion :: string
  id_Kind :: string
  id_Namespace :: string
  id_Name :: string

record Scope =
  sc_Target :: string
  sc_Group :: string
  sc_Version :: string
  sc_Resource :: string
  sc_Namespace :: string
  sc_Name :: string
  sc_LabelSelector :: string

text \<open>
  \<open>ev_Redacted\<close> is \<open>None\<close> for a nil slice; \<open>ev_RetryAfterMs\<close> is \<open>None\<close> for a
  nil pointer.  A nil and an empty \<open>KRMObject\<close> read and marshal alike.
\<close>

record Event =
  ev_Seq :: "64 word"
  ev_Type :: EventType
  ev_Target :: string
  ev_Scope :: "Scope option"
  ev_Projection :: Projection
  ev_Object :: KRMObject
  ev_Redacted :: "Redaction list option"
  ev_Identity :: "Identity option"
  ev_Code :: "ErrorCode option"
  ev_Message :: string
  ev_Terminal :: bool
  ev_RetryAfterMs :: "int option"

text \<open>A composite literal \<open>Event{Type: t}\<close>: every other field has its zero value.\<close>

definition event_of :: "EventType \<Rightarrow> Event" where
  "event_of t = \<lparr>ev_Seq = 0, ev_Type = t, ev_Target = [], ev_Scope = None, ev_Projection = [],
     ev_Object = [], ev_Redacted = None, ev_Identity = None, ev_Code = None, ev_Message = [],
     ev_Terminal = False, ev_RetryAfterMs = None\<rparr>"

section \<open>JSON of an event\<close>

text \<open>
  A struct is written in field order; \<open>omitempty\<close> drops a field at its zero value.
  Members that may be dropped are options here.
\<close>

definition omit :: "bool \<Rightarrow> string \<Rightarrow> json \<Rightarrow> (string \<times> json) list" where
  "omit zero k v = (if zero then [] else [(k, v)])"

definition str_member :: "string \<Rightarrow> string \<Rightarrow> (string \<times> json) list" where
  "str_member k s = omit (s = []) k (JStr s)"

definition Redaction_json :: "Redaction \<Rightarrow> json" where
  "Redaction_json r = JObj [(''path'', JStr (rd_Path r)), (''rev'', JNum (show_nat (unat (rd_Rev r))))]"

definition Identity_json :: "Identity \<Rightarrow> json" where
  "Identity_json i = JObj ([(''uid'', JStr (id_UID i)), (''apiVersion'', JStr (id_APIVersion i)),
     (''kind'', JStr (id_Kind i))] @ str_member ''namespace'' (id_Namespace i) @ [(''name'', JStr (id_Name i))])"

definition Scope_json :: "Scope \<Rightarrow> json" where
  "Scope_json s = JObj ([(''target'', JStr (sc_Target s))] @ str_member ''group'' (sc_Group s) @
     [(''version'', JStr (sc_Version s)), (''resource'', JStr (sc_Resource s))] @
     str_member ''namespace'' (sc_Namespace s) @ str_member ''name'' (sc_Name s) @
     str_member ''labelSelector'' (sc_LabelSelector s))"

text \<open>The members of \<open>type base Event\<close>, with its \<open>omitempty\<close> tags.\<close>

definition base_members :: "Event \<Rightarrow> (string \<times> json) list" where
  "base_members e =
     [(''seq'', JNum (show_nat (unat (ev_Seq e)))), (''type'', JStr (EventType_name (ev_Type e)))] @
     str_member ''target'' (ev_Target e) @
     (case ev_Scope e of None \<Rightarrow> [] | Some s \<Rightarrow> [(''scope'', Scope_json s)]) @
     str_member ''projection'' (ev_Projection e) @
     omit (ev_Object e = []) ''object'' (canon (JObj (ev_Object e))) @
     (case ev_Redacted e of None \<Rightarrow> [] | Some rs \<Rightarrow> omit (rs = []) ''redacted'' (JArr (map Redaction_json rs))) @
     (case ev_Identity e of None \<Rightarrow> [] | Some i \<Rightarrow> [(''identity'', Identity_json i)]) @
     (case ev_Code e of None \<Rightarrow> [] | Some c \<Rightarrow> str_member ''code'' (ErrorCode_name c)) @
     str_member ''message'' (ev_Message e) @
     omit (\<not> ev_Terminal e) ''terminal'' (JBool (ev_Terminal e)) @
     (case ev_RetryAfterMs e of None \<Rightarrow> [] | Some n \<Rightarrow> [(''retryAfterMs'', JNum (show_int n))])"

definition Event_MarshalJSON :: "Event \<Rightarrow> json" where
  "Event_MarshalJSON e =
     (case ev_Type e of
        EventAdded \<Rightarrow>
          (let redacted = (case ev_Redacted e of None \<Rightarrow> [] | Some rs \<Rightarrow> rs)
           in JObj (base_members (e\<lparr>ev_Redacted := None\<rparr>) @ [(''redacted'', JArr (map Redaction_json redacted))]))
      | EventModified \<Rightarrow>
          (let redacted = (case ev_Redacted e of None \<Rightarrow> [] | Some rs \<Rightarrow> rs)
           in JObj (base_members (e\<lparr>ev_Redacted := None\<rparr>) @ [(''redacted'', JArr (map Redaction_json redacted))]))
      | EventError \<Rightarrow>
          JObj (base_members (e\<lparr>ev_Terminal := False\<rparr>) @ [(''terminal'', JBool (ev_Terminal e))])
      | _ \<Rightarrow> JObj (base_members e))"

text \<open>One SSE frame: a single \<open>data:\<close> line and a blank line.\<close>

abbreviation newline :: char where "newline \<equiv> CHR 0x0A"

definition Event_MarshalSSE :: "Event \<Rightarrow> string" where
  "Event_MarshalSSE e = ''data: '' @ enc (Event_MarshalJSON e) @ [newline, newline]"

section \<open>Errors\<close>

text \<open>
  A Go error value.  \<open>ErrTypedNil\<close> is a non-nil \<open>error\<close> interface that holds a nil
  \<open>*StreamError\<close>; \<open>ErrSentinel\<close> is a package variable compared by identity;
  \<open>ErrWrap p e\<close> is \<open>fmt.Errorf("p: %w", e)\<close>; \<open>ErrText\<close> is any other error, with
  nothing to unwrap.
\<close>

datatype StreamError =
  StreamError (se_Code: ErrorCode) (se_Message: string) (se_Terminal: bool)
    (se_RetryAfterMs: "int option") (se_Cause: "go_error option")
and go_error =
    ErrStream StreamError
  | ErrTypedNil
  | ErrSentinel string
  | ErrWrap string go_error
  | ErrText string

definition ErrWatchClosed :: go_error where
  [wire_defs]: "ErrWatchClosed = ErrSentinel ''krm-stream: upstream watch closed''"

definition Canceled :: go_error where
  [wire_defs]: "Canceled = ErrSentinel ''context canceled''"

definition DeadlineExceeded :: go_error where
  [wire_defs]: "DeadlineExceeded = ErrSentinel ''context deadline exceeded''"

text \<open>
  \<open>errors.As(err, &se)\<close>: \<open>None\<close> when no \<open>*StreamError\<close> is in the chain,
  \<open>Some None\<close> when the first one found is a nil pointer.
\<close>

fun errors_As :: "go_error \<Rightarrow> StreamError option option" where
  "errors_As (ErrStream se) = Some (Some se)"
| "errors_As ErrTypedNil = Some None"
| "errors_As (ErrSentinel _) = None"
| "errors_As (ErrWrap _ e) = errors_As e"
| "errors_As (ErrText _) = None"

text \<open>\<open>errors.As(err, &se) && se != nil\<close>\<close>

definition as_se :: "go_error \<Rightarrow> StreamError option" where
  "as_se e = (case errors_As e of Some (Some se) \<Rightarrow> Some se | _ \<Rightarrow> None)"

text \<open>
  \<open>errors.Is(err, target)\<close> for a sentinel.  The chain is unwrapped with each value's
  \<open>Unwrap\<close>; \<open>StreamError.Unwrap\<close> reads \<open>e.Cause\<close>, so on a nil \<open>*StreamError\<close>
  it dereferences nil: the result is then \<open>None\<close>, a panic.
\<close>

fun errors_Is :: "go_error \<Rightarrow> go_error \<Rightarrow> bool option" where
  "errors_Is (ErrStream (StreamError _ _ _ _ None)) t = Some False"
| "errors_Is (ErrStream (StreamError _ _ _ _ (Some cause))) t = errors_Is cause t"
| "errors_Is ErrTypedNil t = None"
| "errors_Is (ErrSentinel s) t = Some (ErrSentinel s = t)"
| "errors_Is (ErrWrap _ e) t = errors_Is e t"
| "errors_Is (ErrText _) t = Some False"

definition Forbidden :: "string \<Rightarrow> StreamError" where
  "Forbidden msg = StreamError CodeForbidden msg True None None"

definition ScopeInvalid :: "string \<Rightarrow> StreamError" where
  "ScopeInvalid msg = StreamError CodeScopeInvalid msg True None None"

definition Unauthenticated :: "string \<Rightarrow> StreamError" where
  "Unauthenticated msg = StreamError CodeUnauthenticated msg True None None"

text \<open>Durations are nanoseconds; \<open>Milliseconds()\<close> truncates.\<close>

definition UpstreamUnavailable :: "string \<Rightarrow> int \<Rightarrow> StreamError" where
  "UpstreamUnavailable msg retryAfter =
     StreamError CodeUpstreamUnavailable msg False
       (if retryAfter > 0 then Some (retryAfter div 1000000) else None) None"

definition ResyncRequired :: "string \<Rightarrow> StreamError" where
  "ResyncRequired msg = StreamError CodeResyncRequired msg False None None"

definition with_cause :: "StreamError \<Rightarrow> go_error \<Rightarrow> StreamError" where
  "with_cause se c = StreamError (se_Code se) (se_Message se) (se_Terminal se) (se_RetryAfterMs se) (Some c)"

definition StreamError_Event :: "StreamError \<Rightarrow> Event" where
  "StreamError_Event e = (event_of EventError)
     \<lparr>ev_Code := Some (se_Code e), ev_Message := se_Message e, ev_Terminal := se_Terminal e,
      ev_RetryAfterMs := se_RetryAfterMs e\<rparr>"

text \<open>\<open>asStreamError\<close>: the \<open>*StreamError\<close> a host meant to send, or a generic one.\<close>

definition asStreamError :: "go_error \<Rightarrow> StreamError" where
  "asStreamError err =
     (case errors_As err of
        Some (Some se) \<Rightarrow> se
      | _ \<Rightarrow> StreamError CodeInternal ''internal error'' True None (Some err))"

section \<open>Upstream events\<close>

datatype WatchEventType =
    WatchAdded
  | WatchModified
  | WatchDeleted
  | WatchBookmark
  | WatchError
  | WatchOther string

record WatchEvent =
  we_Type :: WatchEventType
  we_Object :: KRMObject
  we_InitialEventsEnd :: bool
  we_Err :: "go_error option"

text \<open>What one call of \<open>Watcher.Next\<close> returns.\<close>

datatype NextResult = NextEvent WatchEvent | NextErr go_error

section \<open>Observations and diagnostics\<close>

datatype ObservationKind =
    ObservationStreamOpened
  | ObservationStreamClosed
  | ObservationHTTPTransportRejected
  | ObservationSharedSubscriptionOpened
  | ObservationSharedSubscriptionClosed
  | ObservationCycleStarted
  | ObservationEventEmitted
  | ObservationEventSuppressed
  | ObservationConsumerResync
  | ObservationSharedOverflow
  | ObservationRetryableError
  | ObservationTerminalError

record Observation =
  ob_Kind :: ObservationKind
  ob_Scope :: "Scope option"
  ob_Projection :: Projection
  ob_EventType :: "EventType option"
  ob_Code :: "ErrorCode option"

definition obs_of :: "ObservationKind \<Rightarrow> Scope option \<Rightarrow> Projection \<Rightarrow> EventType option \<Rightarrow> ErrorCode option \<Rightarrow> Observation" where
  "obs_of k s p t c = \<lparr>ob_Kind = k, ob_Scope = s, ob_Projection = p, ob_EventType = t, ob_Code = c\<rparr>"

record 'p Diagnostic =
  dg_Principal :: "'p option"
  dg_Scope :: "Scope option"
  dg_Code :: ErrorCode
  dg_Terminal :: bool
  dg_Err :: go_error

section \<open>Sinks\<close>

text \<open>
  A sink's \<open>Emit\<close> over its own state: an error, or \<open>None\<close> for success, and the new
  state.  \<open>sequenceSink\<close> numbers the events of one connection.
\<close>

type_synonym 's emit = "Event \<Rightarrow> 's \<Rightarrow> go_error option \<times> 's"

definition sequenceSink_Emit :: "'s emit \<Rightarrow> (64 word \<times> 's) emit" where
  "sequenceSink_Emit emit event s =
     (let seq = fst s + 1; (r, s') = emit (event\<lparr>ev_Seq := seq\<rparr>) (snd s)
      in (r, (seq, s')))"

text \<open>The conformance suite's recorder: it accepts every event and remembers it.\<close>

definition recorder_Emit :: "Event list emit" where
  "recorder_Emit ev s = (None, s @ [ev])"

text \<open>Emitting a list of events, stopping at the first error as every caller does.\<close>

fun emit_all :: "'s emit \<Rightarrow> Event list \<Rightarrow> 's \<Rightarrow> go_error option \<times> 's" where
  "emit_all emit [] s = (None, s)"
| "emit_all emit (e # es) s =
     (case emit e s of (None, s') \<Rightarrow> emit_all emit es s' | (Some x, s') \<Rightarrow> (Some x, s'))"

text \<open>
  A connection is numbered when its delivered events carry 1, 2, 3, and so on, and the
  sequence sink stands at the last number given out.
\<close>

definition numbered :: "('s \<Rightarrow> Event list) \<Rightarrow> 64 word \<times> 's \<Rightarrow> bool" where
  "numbered delivered s \<longleftrightarrow>
     map ev_Seq (delivered (snd s)) = map (\<lambda>k. word_of_nat (Suc k)) [0..<length (delivered (snd s))] \<and>
     fst s = word_of_nat (length (delivered (snd s)))"

text \<open>An event before the sequence sink numbered it.\<close>

definition unnumber :: "Event \<Rightarrow> Event" where
  "unnumber e = e\<lparr>ev_Seq := 0\<rparr>"

section \<open>The sink interface\<close>

text \<open>
  What a caller of \<open>Sink.Emit\<close> relies on: success means the event was delivered after
  everything before it; an error leaves open whether it was, as when a frame is written and
  its flush fails.  The stream loop only ever emits unnumbered events, so this is all it
  needs.
\<close>

locale sink =
  fixes emit :: "'s emit"
    and delivered :: "'s \<Rightarrow> Event list"
  assumes emit_ok: "ev_Seq e = 0 \<Longrightarrow> emit e s = (None, s') \<Longrightarrow> delivered s' = delivered s @ [e]"
    and emit_err: "ev_Seq e = 0 \<Longrightarrow> emit e s = (Some x, s') \<Longrightarrow> delivered s' = delivered s \<or> delivered s' = delivered s @ [e]"

text \<open>A sink at the end of the chain takes numbered events as they are.\<close>

locale wire_sink =
  fixes emit :: "'s emit"
    and delivered :: "'s \<Rightarrow> Event list"
  assumes wire_ok: "emit e s = (None, s') \<Longrightarrow> delivered s' = delivered s @ [e]"
    and wire_err: "emit e s = (Some x, s') \<Longrightarrow> delivered s' = delivered s \<or> delivered s' = delivered s @ [e]"
begin

lemma emit_all_delivered:
  "emit_all emit es s = (r, s') \<Longrightarrow>
     \<exists>ds. prefix ds es \<and> delivered s' = delivered s @ ds \<and> (r = None \<longrightarrow> ds = es)"
proof (induction es arbitrary: s)
  case (Cons e es)
  show ?case
  proof (cases "emit e s")
    case (Pair q t)
    show ?thesis
    proof (cases q)
      case None
      with Pair Cons.prems have "emit_all emit es t = (r, s')" by simp
      from Cons.IH [OF this] obtain ds where
        "prefix ds es" "delivered s' = delivered t @ ds" "r = None \<longrightarrow> ds = es" by blast
      then show ?thesis using wire_ok [of e s t] Pair None
        by (intro exI [of _ "e # ds"]) simp
    next
      case (Some x)
      then show ?thesis using Pair Cons.prems wire_err [of e s x t]
        by (intro exI [of _ "if delivered t = delivered s then [] else [e]"]) auto
    qed
  qed
qed simp

text \<open>Through the sequence sink, the \<open>k\<close>-th event of a connection carries number \<open>k\<close>.\<close>

lemma sequence_ok:
  assumes "sequenceSink_Emit emit e s = (None, s')"
  shows "delivered (snd s') = delivered (snd s) @ [e\<lparr>ev_Seq := fst s + 1\<rparr>] \<and> fst s' = fst s + 1"
  using assms wire_ok [of "e\<lparr>ev_Seq := fst s + 1\<rparr>" "snd s"]
  by (auto simp: sequenceSink_Emit_def Let_def split: prod.splits)

lemma numbered_step:
  assumes "numbered delivered s" and "sequenceSink_Emit emit e s = (None, s')"
  shows "numbered delivered s'"
  using sequence_ok [OF assms(2)] assms(1) by (simp add: numbered_def add.commute)

lemma numbered_all:
  "emit_all (sequenceSink_Emit emit) es s = (None, s') \<Longrightarrow> numbered delivered s \<Longrightarrow> numbered delivered s'"
proof (induction es arbitrary: s)
  case (Cons e es)
  then show ?case
    by (auto split: prod.splits option.splits intro: numbered_step)
qed simp

end

sublocale wire_sink \<subseteq> sink
  by unfold_locales (auto dest: wire_ok wire_err)

text \<open>The sequence sink over it is again a sink, of the events before numbering.\<close>

context wire_sink
begin

lemma sequence_sink: "sink (sequenceSink_Emit emit) (\<lambda>s. map unnumber (delivered (snd s)))"
proof
  fix e s s'
  assume "ev_Seq e = 0" "sequenceSink_Emit emit e s = (None, s')"
  then show "map unnumber (delivered (snd s')) = map unnumber (delivered (snd s)) @ [e]"
    using sequence_ok [of e s s'] by (simp add: unnumber_def)
next
  fix e s x s'
  assume "ev_Seq e = 0" "sequenceSink_Emit emit e s = (Some x, s')"
  then show "map unnumber (delivered (snd s')) = map unnumber (delivered (snd s)) \<or>
      map unnumber (delivered (snd s')) = map unnumber (delivered (snd s)) @ [e]"
    using wire_err [of "e\<lparr>ev_Seq := fst s + 1\<rparr>" "snd s" x]
    by (fastforce simp: sequenceSink_Emit_def Let_def unnumber_def split: prod.splits)
qed

end

interpretation recorder: wire_sink recorder_Emit "\<lambda>s. s"
  by unfold_locales (auto simp: recorder_Emit_def)

section \<open>Lemmas\<close>

lemmas stream_error_simps [simp] =
  Forbidden_def ScopeInvalid_def Unauthenticated_def UpstreamUnavailable_def ResyncRequired_def
  with_cause_def

lemma event_of_simps [simp]:
  "ev_Type (event_of t) = t" "ev_Object (event_of t) = []" "ev_Identity (event_of t) = None"
  "ev_Redacted (event_of t) = None" "ev_Seq (event_of t) = 0" "ev_Code (event_of t) = None"
  by (simp_all add: event_of_def)

lemma StreamError_Event_simps [simp]:
  "ev_Type (StreamError_Event e) = EventError" "ev_Code (StreamError_Event e) = Some (se_Code e)"
  "ev_Message (StreamError_Event e) = se_Message e" "ev_Terminal (StreamError_Event e) = se_Terminal e"
  "ev_RetryAfterMs (StreamError_Event e) = se_RetryAfterMs e"
  by (simp_all add: StreamError_Event_def)

lemma as_se_Some: "as_se e = Some se \<longleftrightarrow> errors_As e = Some (Some se)"
  by (auto simp: as_se_def split: option.splits)

lemma asStreamError_as_se: "as_se e = Some se \<Longrightarrow> asStreamError e = se"
  by (simp add: as_se_Some asStreamError_def)

text \<open>A chain ends in a panic exactly when it ends in a nil \<open>*StreamError\<close>.\<close>

fun ends_typed_nil :: "go_error \<Rightarrow> bool" where
  "ends_typed_nil (ErrStream (StreamError _ _ _ _ (Some cause))) = ends_typed_nil cause"
| "ends_typed_nil ErrTypedNil = True"
| "ends_typed_nil (ErrWrap _ e) = ends_typed_nil e"
| "ends_typed_nil _ = False"

lemma errors_Is_None: "errors_Is e t = None \<longleftrightarrow> ends_typed_nil e"
  by (induction e t rule: errors_Is.induct) (auto split: option.splits)

end
