(* ===== verification/Projection.thy ===== *)
theory Projection
  imports Wire
begin

text \<open>
  What the stream removes and what it redacts: \<open>gateway/project.go\<close> and
  \<open>gateway/projection_policy.go\<close>.  The lemmas characterise the projected object by its
  paths: every removed path is gone, every path that does not touch a removed one reads
  as it did before, and the redaction list names exactly the withheld Secret values.
\<close>

section \<open>Operations\<close>

definition lastAppliedAnnotation :: string where
  [wire_defs]: "lastAppliedAnnotation = ''kubectl.kubernetes.io/last-applied-configuration''"

text \<open>\<open>strings.ReplaceAll\<close> of a one-byte string.\<close>

definition ReplaceAll :: "string \<Rightarrow> char \<Rightarrow> string \<Rightarrow> string" where
  "ReplaceAll s c r = concat (map (\<lambda>x. if x = c then r else [x]) s)"

definition escapePointer :: "string \<Rightarrow> string" where
  "escapePointer seg = ReplaceAll (ReplaceAll seg (CHR ''~'') ''~0'') (CHR ''/'') ''~1''"

definition isSecret :: "KRMObject \<Rightarrow> bool" where
  "isSecret o' \<longleftrightarrow> str_field o' ''kind'' = ''Secret'' \<and> str_field o' ''apiVersion'' = ''v1''"

text \<open>A \<open>redactedValue\<close>: the RFC 6901 pointer and the value withheld there.\<close>

type_synonym redactedValue = "string \<times> json"

text \<open>The first block of \<open>project\<close>: the machinery, removed by every projection.\<close>

definition remove_machinery :: "KRMObject \<Rightarrow> KRMObject" where
  "remove_machinery out =
     (case obj_field out ''metadata'' of
        None \<Rightarrow> out
      | Some meta \<Rightarrow>
          (let meta1 = map_delete ''managedFields'' meta;
               meta2 =
                 (case obj_field meta1 ''annotations'' of
                    None \<Rightarrow> meta1
                  | Some ann \<Rightarrow>
                      (let ann1 = map_delete lastAppliedAnnotation ann
                       in if ann1 = [] then map_delete ''annotations'' meta1
                          else map_put ''annotations'' (JObj ann1) meta1))
           in map_put ''metadata'' (JObj meta2) out))"

text \<open>The loop body over \<open>data\<close> and \<open>stringData\<close>: every entry is deleted and remembered.\<close>

definition redact_entry :: "string \<Rightarrow> string \<times> json \<Rightarrow> KRMObject \<times> redactedValue list \<Rightarrow> KRMObject \<times> redactedValue list" where
  "redact_entry field kv s =
     (map_delete (fst kv) (fst s),
      snd s @ [(''/'' @ escapePointer field @ ''/'' @ escapePointer (fst kv), snd kv)])"

definition redact_field :: "string \<Rightarrow> KRMObject \<times> redactedValue list \<Rightarrow> KRMObject \<times> redactedValue list" where
  "redact_field field s =
     (case obj_field (fst s) field of
        None \<Rightarrow> s
      | Some m \<Rightarrow>
          (let (m', redacted) = fold (redact_entry field) m (m, snd s);
               redactedAny = (m \<noteq> [])
           in if redactedAny \<and> m' = [] then (map_delete field (fst s), redacted)
              else (map_put field (JObj m') (fst s), redacted)))"

definition project :: "Projection \<Rightarrow> KRMObject \<Rightarrow> KRMObject \<times> redactedValue list" where
  "project p inp =
     (let out = remove_machinery (deepCopyObject inp);
          (out, redacted) =
            (if (p = ProjectionFull \<or> p = ProjectionSpec) \<and> isSecret out
             then fold redact_field [''data'', ''stringData''] (out, [])
             else (out, []));
          out = (if p = ProjectionSpec then map_delete ''status'' out else out)
      in (out, sort_key fst redacted))"

text \<open>The exported form: the paths without the values.\<close>

definition Project :: "Projection \<Rightarrow> KRMObject \<Rightarrow> KRMObject \<times> string list" where
  "Project p inp = (let (out, values) = project p inp in (out, map fst values))"

definition identityOf :: "KRMObject \<Rightarrow> Identity option" where
  "identityOf o' =
     (case obj_field o' ''metadata'' of
        None \<Rightarrow> None
      | Some meta \<Rightarrow>
          (let uid = str_field meta ''uid''; name = str_field meta ''name'' in
           if uid = [] \<or> name = [] then None
           else
             (let ns = str_field meta ''namespace'';
                  apiVersion = str_field o' ''apiVersion'';
                  kind = str_field o' ''kind''
              in if apiVersion = [] \<or> kind = [] then None
                 else Some \<lparr>id_UID = uid, id_APIVersion = apiVersion, id_Kind = kind,
                            id_Namespace = ns, id_Name = name\<rparr>)))"

definition isBuiltinProjection :: "Projection \<Rightarrow> bool" where
  "isBuiltinProjection p \<longleftrightarrow> p = ProjectionRaw \<or> p = ProjectionFull \<or> p = ProjectionSpec"

text \<open>A host's policy for one principal and scope: the requested name to a grant or a refusal.\<close>

type_synonym 'p ProjectionPolicy = "'p \<Rightarrow> Scope \<Rightarrow> Projection \<Rightarrow> go_error + Projection"

definition StaticProjection_SelectProjection :: "Projection \<Rightarrow> 'p ProjectionPolicy" where
  "StaticProjection_SelectProjection p caller scope requested =
     (let effective = (if p = [] then ProjectionFull else p)
      in if requested \<noteq> [] \<and> requested \<noteq> effective
         then Inl (ErrStream (Forbidden (''requested projection is not permitted: '' @ requested)))
         else Inr effective)"

section \<open>What a projection removes, by path\<close>

definition managedFields_path :: "string list" where
  "managedFields_path = [''metadata'', ''managedFields'']"

definition lastApplied_path :: "string list" where
  "lastApplied_path = [''metadata'', ''annotations'', lastAppliedAnnotation]"

text \<open>Whether the projection withholds the values of this object.\<close>

definition redacts :: "Projection \<Rightarrow> KRMObject \<Rightarrow> bool" where
  "redacts p o' \<longleftrightarrow> (p = ProjectionFull \<or> p = ProjectionSpec) \<and> isSecret o'"

definition redacted_paths :: "Projection \<Rightarrow> KRMObject \<Rightarrow> string list list" where
  "redacted_paths p o' =
     (if redacts p o'
      then concat (map (\<lambda>f. case obj_field o' f of None \<Rightarrow> [] | Some m \<Rightarrow> map (\<lambda>kv. [f, fst kv]) m)
             [''data'', ''stringData''])
      else [])"

definition removed_paths :: "Projection \<Rightarrow> KRMObject \<Rightarrow> string list list" where
  "removed_paths p o' =
     [managedFields_path, lastApplied_path] @ redacted_paths p o' @
     (if p = ProjectionSpec then [[''status'']] else [])"

text \<open>Two paths touch when one is a prefix of the other.\<close>

definition touches :: "string list \<Rightarrow> string list \<Rightarrow> bool" where
  "touches a b \<longleftrightarrow> prefix a b \<or> prefix b a"

text \<open>The projected object, one stage at a time.\<close>

definition redaction_entry :: "string \<Rightarrow> string \<times> json \<Rightarrow> redactedValue" where
  "redaction_entry field kv = (''/'' @ escapePointer field @ ''/'' @ escapePointer (fst kv), snd kv)"

definition drop_filled :: "string \<Rightarrow> KRMObject \<Rightarrow> KRMObject" where
  "drop_filled f o' = (case obj_field o' f of Some (_ # _) \<Rightarrow> map_delete f o' | _ \<Rightarrow> o')"

definition redact_secret :: "KRMObject \<Rightarrow> KRMObject" where
  "redact_secret o' = drop_filled ''stringData'' (drop_filled ''data'' o')"

definition secret_entries :: "KRMObject \<Rightarrow> redactedValue list" where
  "secret_entries o' = concat (map (\<lambda>f. case obj_field o' f of None \<Rightarrow> [] | Some m \<Rightarrow> map (redaction_entry f) m)
             [''data'', ''stringData''])"

definition clean_annotations :: "KRMObject \<Rightarrow> KRMObject" where
  "clean_annotations meta1 =
     (case obj_field meta1 ''annotations'' of
        None \<Rightarrow> meta1
      | Some ann \<Rightarrow>
          (let ann1 = map_delete lastAppliedAnnotation ann
           in if ann1 = [] then map_delete ''annotations'' meta1
              else map_put ''annotations'' (JObj ann1) meta1))"

section \<open>Lemmas\<close>

lemma map_put_same: "map_of m k = Some v \<Longrightarrow> map_put k v m = m"
  by (induction m) (auto simp: map_put_def split: if_splits)

lemma map_delete_filter: "map_delete k m = filter (\<lambda>kv. fst kv \<noteq> k) m"
  by (auto simp: map_delete_def AList.delete_eq intro!: filter_cong)

lemma fold_redact_entry:
  "fold (redact_entry f) xs (m, r) =
     (filter (\<lambda>kv. fst kv \<notin> fst ` set xs) m, r @ map (redaction_entry f) xs)"
  by (induction xs arbitrary: m r)
    (auto simp: redact_entry_def redaction_entry_def map_delete_filter intro!: filter_cong)

lemma map_put_obj_field: "obj_field o' f = Some m \<Longrightarrow> map_put f (JObj m) o' = o'"
  by (simp add: obj_field_Some map_put_same)

lemma redact_field_eq:
  "redact_field f (o', r) =
     (case obj_field o' f of
        None \<Rightarrow> (o', r)
      | Some m \<Rightarrow> (if m = [] then o' else map_delete f o', r @ map (redaction_entry f) m))"
  by (auto simp: redact_field_def fold_redact_entry map_put_obj_field split: option.splits)

lemma obj_field_delete: "obj_field (map_delete k m) j = (if j = k then None else obj_field m j)"
  by (simp add: obj_field_def)

lemma obj_field_put: "obj_field (map_put k v m) j = (if j = k then (case v of JObj n \<Rightarrow> Some n | _ \<Rightarrow> None) else obj_field m j)"
  by (auto simp: obj_field_def split: json.splits)

lemma str_field_delete: "str_field (map_delete k m) j = (if j = k then [] else str_field m j)"
  by (simp add: str_field_def)

lemma str_field_put: "j \<noteq> k \<Longrightarrow> str_field (map_put k v m) j = str_field m j"
  by (simp add: str_field_def)

lemma remove_machinery_get:
  "k \<noteq> ''metadata'' \<Longrightarrow> map_of (remove_machinery o') k = map_of o' k"
  by (simp add: remove_machinery_def Let_def split: option.splits)

lemma isSecret_machinery [simp]: "isSecret (remove_machinery o') = isSecret o'"
  by (simp add: isSecret_def str_field_def remove_machinery_get)

lemma obj_field_machinery: "k \<noteq> ''metadata'' \<Longrightarrow> obj_field (remove_machinery o') k = obj_field o' k"
  by (simp add: obj_field_def remove_machinery_get)

lemma redact_field_drop:
  "redact_field f (o', r) =
     (drop_filled f o', r @ (case obj_field o' f of None \<Rightarrow> [] | Some m \<Rightarrow> map (redaction_entry f) m))"
  by (simp add: redact_field_eq drop_filled_def split: option.split list.split)

lemma obj_field_drop_filled: "j \<noteq> f \<Longrightarrow> obj_field (drop_filled f o') j = obj_field o' j"
  by (simp add: drop_filled_def obj_field_delete split: option.split list.split)

lemma redact_fields:
  "redact_field ''stringData'' (redact_field ''data'' (o', [])) = (redact_secret o', secret_entries o')"
  by (simp add: redact_field_drop redact_secret_def secret_entries_def obj_field_drop_filled)

lemma secret_entries_machinery [simp]: "secret_entries (remove_machinery o') = secret_entries o'"
  by (simp add: secret_entries_def obj_field_machinery)

lemma project_fst:
  "fst (project p o') =
     (let a = remove_machinery o'; b = (if redacts p o' then redact_secret a else a)
      in if p = ProjectionSpec then map_delete ''status'' b else b)"
  by (auto simp: project_def redacts_def redact_fields Let_def)

lemma project_snd:
  "snd (project p o') = (if redacts p o' then sort_key fst (secret_entries o') else [])"
  by (auto simp: project_def redacts_def redact_fields Let_def)

subsection \<open>Paths\<close>

lemma set_concat_map_iff: "x \<in> set (concat (map g fs)) \<longleftrightarrow> (\<exists>f. f \<in> set fs \<and> x \<in> set (g f))"
  by auto

lemma set_if_Nil: "x \<in> set (if b then xs else []) \<longleftrightarrow> b \<and> x \<in> set xs"
  by simp

lemma map_delete_NilD: "map_delete k m = [] \<Longrightarrow> i \<noteq> k \<Longrightarrow> map_of m i = None"
  by (metis gmap.get_del_other map_of.simps(1))

lemma value_at_machinery:
  assumes "\<not> touches managedFields_path q" and "\<not> touches lastApplied_path q"
  shows "value_at (JObj (remove_machinery o')) q = value_at (JObj o') q"
proof (cases q)
  case (Cons k q')
  show ?thesis
  proof (cases "k = ''metadata''")
    case True
    then obtain j q'' where q': "q' = j # q''" and j: "j \<noteq> ''managedFields''"
      using assms Cons by (cases q') (auto simp: touches_def managedFields_path_def)
    show ?thesis
    proof (cases "j = ''annotations''")
      case True
      then obtain i r where "q'' = i # r" and "i \<noteq> lastAppliedAnnotation"
        using assms Cons q' \<open>k = ''metadata''\<close> by (cases q'') (auto simp: touches_def lastApplied_path_def)
      then show ?thesis using Cons q' j True \<open>k = ''metadata''\<close>
        by (auto simp: remove_machinery_def Let_def obj_field_def dest: map_delete_NilD split: option.splits json.splits)
    next
      case False
      then show ?thesis using Cons q' j \<open>k = ''metadata''\<close>
        by (auto simp: remove_machinery_def Let_def obj_field_def split: option.splits json.splits)
    qed
  qed (simp add: Cons remove_machinery_get)
qed (use assms in \<open>simp add: touches_def\<close>)

lemma machinery_gone:
  assumes "prefix managedFields_path q \<or> prefix lastApplied_path q"
  shows "value_at (JObj (remove_machinery o')) q = None"
  using assms
  by (auto simp: prefix_def managedFields_path_def lastApplied_path_def remove_machinery_def Let_def
      obj_field_def split: option.splits json.splits)

lemma value_at_drop_filled:
  assumes "\<And>m kv. obj_field o' f = Some m \<Longrightarrow> kv \<in> set m \<Longrightarrow> \<not> touches [f, fst kv] q" and "q \<noteq> []"
  shows "value_at (JObj (drop_filled f o')) q = value_at (JObj o') q"
proof (cases "obj_field o' f")
  case (Some m)
  obtain k q' where q: "q = k # q'" using assms(2) by (cases q) auto
  show ?thesis
  proof (cases "k = f \<and> m \<noteq> []")
    case True
    then have "q' \<noteq> []" using assms(1) [OF Some, of "hd m"] q by (auto simp: touches_def)
    then obtain j r where q': "q' = j # r" by (cases q') auto
    have "map_of m j = None"
    proof (rule ccontr)
      assume "map_of m j \<noteq> None"
      then obtain v where "(j, v) \<in> set m" using map_of_SomeD by force
      then show False using assms(1) [OF Some, of "(j, v)"] q q' True by (auto simp: touches_def)
    qed
    moreover have "map_of o' f = Some (JObj m)" using Some by (simp add: obj_field_Some)
    ultimately show ?thesis using Some True q q' by (cases m) (auto simp: drop_filled_def)
  next
    case False
    then show ?thesis using Some q by (cases m) (auto simp: drop_filled_def)
  qed
qed (simp add: drop_filled_def)

lemma drop_filled_gone:
  "obj_field o' f = Some m \<Longrightarrow> kv \<in> set m \<Longrightarrow> prefix [f, fst kv] q \<Longrightarrow>
     value_at (JObj (drop_filled f o')) q = None"
  by (cases m) (auto simp: drop_filled_def prefix_def)

text \<open>Every path that touches no removed path reads as before.\<close>

lemma removed_paths_machinery:
  "r \<in> set (removed_paths p o') \<longleftrightarrow>
     r = managedFields_path \<or> r = lastApplied_path \<or> (p = ProjectionSpec \<and> r = [''status'']) \<or>
     (redacts p o' \<and> (\<exists>f m kv. f \<in> {''data'', ''stringData''} \<and> obj_field o' f = Some m \<and> kv \<in> set m \<and> r = [f, fst kv]))"
proof -
  have one: "r \<in> set (case obj_field o' f of None \<Rightarrow> [] | Some m \<Rightarrow> map (\<lambda>kv. [f, fst kv]) m) \<longleftrightarrow>
      (\<exists>m kv. obj_field o' f = Some m \<and> kv \<in> set m \<and> r = [f, fst kv])" for f
    by (cases "obj_field o' f") (simp_all add: image_iff Bex_def)
  have "r \<in> set (redacted_paths p o') \<longleftrightarrow> redacts p o' \<and>
      (\<exists>f m kv. f \<in> {''data'', ''stringData''} \<and> obj_field o' f = Some m \<and> kv \<in> set m \<and> r = [f, fst kv])"
    unfolding redacted_paths_def set_concat_map_iff one by (simp only: set_if_Nil list.set set_concat_map_iff one) blast
  then show ?thesis unfolding removed_paths_def by auto
qed

lemma removed_path_field:
  "redacts p o' \<Longrightarrow> f \<in> {''data'', ''stringData''} \<Longrightarrow> obj_field o' f = Some m \<Longrightarrow> kv \<in> set m \<Longrightarrow>
     [f, fst kv] \<in> set (removed_paths p o')"
  unfolding removed_paths_machinery by blast

lemma touches_hd: "touches (f # r) q \<Longrightarrow> q \<noteq> [] \<Longrightarrow> hd q = f"
  by (cases q) (auto simp: touches_def)

lemma redact_secret_at:
  assumes "\<And>f m kv. f \<in> {''data'', ''stringData''} \<Longrightarrow> obj_field o' f = Some m \<Longrightarrow> kv \<in> set m \<Longrightarrow> \<not> touches [f, fst kv] q"
    and "q \<noteq> []"
  shows "value_at (JObj (redact_secret o')) q = value_at (JObj o') q"
proof -
  let ?d = "drop_filled ''data'' o'"
  have "value_at (JObj (drop_filled ''stringData'' ?d)) q = value_at (JObj ?d) q"
  proof (rule value_at_drop_filled [OF _ assms(2)])
    fix m kv
    assume "obj_field ?d ''stringData'' = Some m" "kv \<in> set m"
    then show "\<not> touches [''stringData'', fst kv] q"
      using assms(1) [of "''stringData''" m kv] by (simp add: obj_field_drop_filled)
  qed
  also have "\<dots> = value_at (JObj o') q"
    using assms(1) [of "''data''"] by (intro value_at_drop_filled [OF _ assms(2)]) blast
  finally show ?thesis by (simp only: redact_secret_def)
qed

lemma redact_secret_gone:
  assumes f: "f \<in> {''data'', ''stringData''}" and m: "obj_field o' f = Some m" "kv \<in> set m"
    and "prefix [f, fst kv] q"
  shows "value_at (JObj (redact_secret o')) q = None"
proof -
  obtain r where q: "q = f # fst kv # r" using assms(4) by (auto simp: prefix_def)
  show ?thesis
  proof (cases "f = ''data''")
    case True
    have "value_at (JObj (drop_filled ''data'' o')) q = None"
      using drop_filled_gone m assms(4) True by blast
    moreover have "obj_field (drop_filled ''data'' o') ''stringData'' = obj_field o' ''stringData''"
      by (simp add: obj_field_drop_filled)
    ultimately show ?thesis using q True unfolding redact_secret_def
      by (subst value_at_drop_filled) (auto simp: touches_def)
  next
    case False
    then have "f = ''stringData''" using f by simp
    moreover have "obj_field (drop_filled ''data'' o') ''stringData'' = obj_field o' ''stringData''"
      by (simp add: obj_field_drop_filled)
    ultimately show ?thesis using m assms(4) unfolding redact_secret_def
      by (auto intro: drop_filled_gone)
  qed
qed

lemma project_verbatim:
  assumes "\<And>r. r \<in> set (removed_paths p o') \<Longrightarrow> \<not> touches r q"
  shows "value_at (JObj (fst (project p o'))) q = value_at (JObj o') q"
proof -
  have nt: "\<not> touches managedFields_path q" "\<not> touches lastApplied_path q"
    using assms by (auto simp: removed_paths_machinery)
  then have ne: "q \<noteq> []" by (auto simp: touches_def)
  let ?a = "remove_machinery o'"
  have a: "value_at (JObj ?a) q = value_at (JObj o') q" using nt by (rule value_at_machinery)
  have b: "value_at (JObj (if redacts p o' then redact_secret ?a else ?a)) q = value_at (JObj o') q"
  proof (cases "redacts p o'")
    case True
    have "value_at (JObj (redact_secret ?a)) q = value_at (JObj ?a) q"
    proof (rule redact_secret_at)
      fix f m kv
      assume "f \<in> {''data'', ''stringData''}" "obj_field ?a f = Some m" "kv \<in> set m"
      then show "\<not> touches [f, fst kv] q"
        using True removed_path_field [of p o' f m kv] assms by (auto simp: obj_field_machinery)
    qed (rule ne)
    then show ?thesis using True a by simp
  next
    case False
    then show ?thesis using a by (simp only: if_False)
  qed
  have c: "p = ProjectionSpec \<Longrightarrow> hd q \<noteq> ''status''"
    using assms [of "[''status'']"] ne by (cases q) (auto simp: removed_paths_machinery touches_def)
  show ?thesis using b c ne unfolding project_fst Let_def by (cases q) auto
qed

lemma project_removed:
  assumes "r \<in> set (removed_paths p o')" and "prefix r q"
  shows "value_at (JObj (fst (project p o'))) q = None"
proof -
  let ?a = "remove_machinery o'"
  let ?b = "if redacts p o' then redact_secret ?a else ?a"
  have ne: "q \<noteq> []" using assms by (auto simp: removed_paths_machinery managedFields_path_def lastApplied_path_def)
  have meta: "hd q \<noteq> ''data'' \<Longrightarrow> hd q \<noteq> ''stringData'' \<Longrightarrow> value_at (JObj ?b) q = value_at (JObj ?a) q"
    using ne redact_secret_at [of ?a q] by (auto dest: touches_hd)
  have one: "value_at (JObj ?b) q = None" if "prefix managedFields_path q \<or> prefix lastApplied_path q"
  proof -
    from that have "hd q = ''metadata''" by (auto simp: prefix_def managedFields_path_def lastApplied_path_def)
    then show ?thesis using meta machinery_gone [OF that] by simp
  qed
  have two: "value_at (JObj ?b) q = None"
    if "redacts p o'" "f \<in> {''data'', ''stringData''}" "obj_field o' f = Some m" "kv \<in> set m" "prefix [f, fst kv] q" for f m kv
  proof -
    from that have "obj_field ?a f = Some m" by (auto simp: obj_field_machinery)
    then have "value_at (JObj (redact_secret ?a)) q = None" using that redact_secret_gone by blast
    then show ?thesis using that(1) by (simp only: if_True)
  qed
  have "value_at (JObj ?b) q = None \<or> p = ProjectionSpec \<and> prefix [''status''] q"
    using assms(1) [unfolded removed_paths_machinery]
  proof (elim disjE conjE exE)
    fix f m kv
    assume "redacts p o'" "f \<in> {''data'', ''stringData''}" "obj_field o' f = Some m" "kv \<in> set m" "r = [f, fst kv]"
    then show ?thesis using two [of f m kv] assms(2) by blast
  qed (use one assms(2) in blast)+
  then show ?thesis using ne unfolding project_fst Let_def
    by (cases q) (auto simp: prefix_def simp del: value_at.simps(2))
qed

subsection \<open>Pointers\<close>

lemma ReplaceAll_simps [simp]:
  "ReplaceAll [] c r = []" "ReplaceAll (x # s) c r = (if x = c then r else [x]) @ ReplaceAll s c r"
  "ReplaceAll (s @ t) c r = ReplaceAll s c r @ ReplaceAll t c r"
  by (simp_all add: ReplaceAll_def)

lemma escapePointer_simps [simp]:
  "escapePointer [] = []"
  "escapePointer (x # s) =
     (if x = CHR ''~'' then ''~0'' else if x = CHR ''/'' then ''~1'' else [x]) @ escapePointer s"
  by (simp_all add: escapePointer_def)

lemma escapePointer_no_slash: "CHR ''/'' \<notin> set (escapePointer s)"
  by (induction s) auto

lemma escapePointer_inj: "escapePointer s = escapePointer t \<Longrightarrow> s = t"
proof (induction s arbitrary: t)
  case Nil
  then show ?case by (cases t) (auto split: if_splits)
next
  case (Cons x s)
  then show ?case by (cases t) (auto split: if_splits)
qed

lemma escapePointer_eq [simp]: "escapePointer s = escapePointer t \<longleftrightarrow> s = t"
  using escapePointer_inj by blast

text \<open>The redaction list names the withheld values, each once, in byte order of the pointer.\<close>

lemma redaction_entry_inj: "inj_on (\<lambda>kv. fst (redaction_entry f kv)) A \<longleftrightarrow> inj_on fst A"
  by (simp add: redaction_entry_def inj_on_def)

lemma secret_entries_distinct: "wf_object o' \<Longrightarrow> distinct (map fst (secret_entries o'))"
proof -
  assume wf: "wf_object o'"
  have one: "distinct (map (\<lambda>kv. fst (redaction_entry f kv)) m)" if "obj_field o' f = Some m" for f m
    using wf_obj_field [OF wf that] by (auto simp: map_wf_def distinct_map redaction_entry_inj)
  have two: "fst (redaction_entry ''data'' a) \<noteq> fst (redaction_entry ''stringData'' b)" for a b
    by (simp add: redaction_entry_def)
  have disj: "fst ` redaction_entry ''data'' ` A \<inter> fst ` redaction_entry ''stringData'' ` B = {}" for A B
    using two by blast
  have d: "obj_field o' ''data'' = Some m \<Longrightarrow> distinct (map fst (map (redaction_entry ''data'') m))"
    and e: "obj_field o' ''stringData'' = Some m \<Longrightarrow> distinct (map fst (map (redaction_entry ''stringData'') m))" for m
    using one by (simp_all add: comp_def)
  show ?thesis
    by (cases "obj_field o' ''data''"; cases "obj_field o' ''stringData''")
       (simp_all add: secret_entries_def d e disj del: map_map)
qed

lemma project_redacted_distinct: "wf_object o' \<Longrightarrow> distinct (map fst (snd (project p o')))"
  by (simp add: project_snd distinct_map_sort_key secret_entries_distinct)

lemma project_redacted_sorted: "sorted (map fst (snd (project p o')))"
  by (simp add: project_snd)

lemma secret_entries_set:
  "x \<in> set (secret_entries o') \<longleftrightarrow>
     (\<exists>f m kv. f \<in> {''data'', ''stringData''} \<and> obj_field o' f = Some m \<and> kv \<in> set m \<and> x = redaction_entry f kv)"
proof -
  have one: "x \<in> set (case obj_field o' f of None \<Rightarrow> [] | Some m \<Rightarrow> map (redaction_entry f) m) \<longleftrightarrow>
      (\<exists>m kv. obj_field o' f = Some m \<and> kv \<in> set m \<and> x = redaction_entry f kv)" for f
    by (cases "obj_field o' f") auto
  show ?thesis unfolding secret_entries_def set_concat_map_iff one list.set by blast
qed

lemma project_redacted_iff:
  "x \<in> set (snd (project p o')) \<longleftrightarrow> redacts p o' \<and>
     (\<exists>f m kv. f \<in> {''data'', ''stringData''} \<and> obj_field o' f = Some m \<and> kv \<in> set m \<and> x = redaction_entry f kv)"
  unfolding project_snd secret_entries_set [symmetric] by simp

subsection \<open>Well-formedness and identity\<close>

lemma wf_remove_machinery:
  assumes wf: "wf_object o'"
  shows "wf_object (remove_machinery o')"
proof (cases "obj_field o' ''metadata''")
  case (Some meta)
  let ?m = "map_delete ''managedFields'' meta"
  have m: "wf_object ?m" using wf_obj_field [OF wf Some] by (rule wf_object_delete)
  have ann: "wf_object (map_delete lastAppliedAnnotation ann)" if "obj_field ?m ''annotations'' = Some ann" for ann
    using wf_obj_field [OF m that] by (rule wf_object_delete)
  show ?thesis
    using wf_object_put [OF wf, of _ "''metadata''"] m wf_object_delete [OF m] wf_object_put [OF m ann]
    by (simp add: remove_machinery_def Some Let_def split: option.split del: wf_json.simps)
qed (simp add: remove_machinery_def wf del: wf_json.simps)

lemma wf_drop_filled: "wf_object o' \<Longrightarrow> wf_object (drop_filled f o')"
  using wf_object_delete [of o' f]
  by (simp add: drop_filled_def split: option.split list.split del: wf_json.simps)

lemma wf_redact_secret: "wf_object o' \<Longrightarrow> wf_object (redact_secret o')"
  unfolding redact_secret_def by (intro wf_drop_filled)

lemma wf_project:
  assumes "wf_object o'"
  shows "wf_object (fst (project p o'))"
proof -
  have a: "wf_object (remove_machinery o')" by (rule wf_remove_machinery [OF assms])
  then have "wf_object (if redacts p o' then redact_secret (remove_machinery o') else remove_machinery o')"
    using wf_redact_secret [OF a] by presburger
  then show ?thesis using wf_object_delete unfolding project_fst Let_def by presburger
qed

lemma UID_value_at: "UID o' = (case value_at (JObj o') [''metadata'', ''uid''] of Some (JStr s) \<Rightarrow> s | _ \<Rightarrow> [])"
  by (auto simp: UID_def obj_field_def str_field_def split: option.splits json.splits)

lemma resourceVersionOf_value_at:
  "resourceVersionOf o' = (case value_at (JObj o') [''metadata'', ''resourceVersion''] of Some (JStr s) \<Rightarrow> s | _ \<Rightarrow> [])"
  by (auto simp: resourceVersionOf_def obj_field_def str_field_def split: option.splits json.splits)

lemma meta_untouched:
  assumes "k \<notin> {''managedFields'', ''annotations''}" and "r \<in> set (removed_paths p o')"
  shows "\<not> touches r [''metadata'', k]"
  using assms(2) unfolding removed_paths_machinery
  by (elim disjE exE conjE) (use assms(1) in \<open>auto simp: touches_def managedFields_path_def lastApplied_path_def\<close>)

lemma project_meta:
  "k \<notin> {''managedFields'', ''annotations''} \<Longrightarrow>
     value_at (JObj (fst (project p o'))) [''metadata'', k] = value_at (JObj o') [''metadata'', k]"
  by (rule project_verbatim) (rule meta_untouched)

lemma UID_project [simp]: "UID (fst (project p o')) = UID o'"
  unfolding UID_value_at by (subst project_meta) simp_all

lemma resourceVersionOf_project [simp]: "resourceVersionOf (fst (project p o')) = resourceVersionOf o'"
  unfolding resourceVersionOf_value_at by (subst project_meta) simp_all

lemma identityOf_UID: "identityOf o' = Some i \<Longrightarrow> id_UID i = UID o' \<and> UID o' \<noteq> []"
  by (auto simp: identityOf_def UID_def Let_def split: option.splits if_splits)

lemma map_of_drop_filled: "k \<noteq> f \<Longrightarrow> map_of (drop_filled f o') k = map_of o' k"
  by (simp add: drop_filled_def split: option.split list.split)

lemma project_field:
  assumes "k \<notin> {''metadata'', ''data'', ''stringData'', ''status''}"
  shows "map_of (fst (project p o')) k = map_of o' k"
  using assms unfolding project_fst Let_def redact_secret_def
  by (simp add: map_of_drop_filled remove_machinery_get)

lemma str_field_project: "k \<in> {''kind'', ''apiVersion''} \<Longrightarrow> str_field (fst (project p o')) k = str_field o' k"
  by (elim insertE emptyE) (simp_all add: str_field_def project_field)

lemma isSecret_project [simp]: "isSecret (fst (project p o')) = isSecret o'"
  by (simp add: isSecret_def str_field_project)

subsection \<open>Idempotence\<close>

lemma remove_machinery_alt:
  "remove_machinery out =
     (case obj_field out ''metadata'' of
        None \<Rightarrow> out
      | Some meta \<Rightarrow> map_put ''metadata'' (JObj (clean_annotations (map_delete ''managedFields'' meta))) out)"
  by (simp only: remove_machinery_def clean_annotations_def Let_def)

lemma map_delete_twice [simp]: "map_delete k (map_delete k m) = map_delete k m"
  by (simp add: map_delete_absent)

lemma clean_annotations_idem: "clean_annotations (clean_annotations m) = clean_annotations m"
  by (auto simp: clean_annotations_def Let_def obj_field_delete obj_field_put map_put_same split: option.split)

lemma clean_annotations_get: "k \<noteq> ''annotations'' \<Longrightarrow> map_of (clean_annotations m) k = map_of m k"
  by (simp add: clean_annotations_def Let_def split: option.split)

lemma remove_machinery_idem: "remove_machinery (remove_machinery o') = remove_machinery o'"
proof (cases "obj_field o' ''metadata''")
  case (Some meta)
  let ?c = "clean_annotations (map_delete ''managedFields'' meta)"
  have "map_of ?c ''managedFields'' = None" by (subst clean_annotations_get) simp_all
  then have "clean_annotations (map_delete ''managedFields'' ?c) = ?c"
    by (simp add: map_delete_absent clean_annotations_idem)
  then show ?thesis by (simp add: remove_machinery_alt Some obj_field_put map_put_same)
qed (simp add: remove_machinery_alt)

lemma drop_filled_idem: "drop_filled f (drop_filled f o') = drop_filled f o'"
  by (simp add: drop_filled_def obj_field_delete split: option.split list.split)

lemma map_delete_commute: "map_delete j (map_delete k m) = map_delete k (map_delete j m)"
  by (simp add: map_delete_filter conj_commute)

lemma drop_filled_commute: "f \<noteq> g \<Longrightarrow> drop_filled f (drop_filled g o') = drop_filled g (drop_filled f o')"
  by (auto simp: drop_filled_def obj_field_delete map_delete_commute split: option.split list.split)

lemma redact_secret_idem: "redact_secret (redact_secret o') = redact_secret o'"
  unfolding redact_secret_def
  by (subst (2) drop_filled_commute, simp) (simp add: drop_filled_idem drop_filled_commute)

lemma clean_fixed:
  assumes "\<And>meta. obj_field o' ''metadata'' = Some meta \<Longrightarrow> clean_annotations (map_delete ''managedFields'' meta) = meta"
  shows "remove_machinery o' = o'"
  using assms by (cases "obj_field o' ''metadata''") (simp_all add: remove_machinery_alt map_put_obj_field)

lemma machinery_clean:
  assumes "obj_field (remove_machinery o') ''metadata'' = Some meta"
  shows "clean_annotations (map_delete ''managedFields'' meta) = meta"
proof -
  obtain m where "meta = clean_annotations (map_delete ''managedFields'' m)"
    using assms by (cases "obj_field o' ''metadata''") (auto simp: remove_machinery_alt obj_field_put)
  moreover from this have "map_of meta ''managedFields'' = None" by (simp add: clean_annotations_get)
  ultimately show ?thesis by (simp add: map_delete_absent clean_annotations_idem)
qed

lemma project_meta_field: "obj_field (fst (project p o')) ''metadata'' = obj_field (remove_machinery o') ''metadata''"
  unfolding project_fst Let_def redact_secret_def
  by (simp add: obj_field_delete obj_field_drop_filled)

lemma machinery_project: "remove_machinery (fst (project p o')) = fst (project p o')"
  by (rule clean_fixed) (simp add: project_meta_field machinery_clean)

lemma obj_field_drop_filled_same: "obj_field (drop_filled f o') f = (case obj_field o' f of Some [] \<Rightarrow> Some [] | _ \<Rightarrow> None)"
  by (simp add: drop_filled_def obj_field_delete split: option.split list.split)

lemma redacts_project [simp]: "redacts p (fst (project p o')) = redacts p o'"
  by (simp add: redacts_def)

lemma project_secret_field:
  assumes "redacts p o'" and "f \<in> {''data'', ''stringData''}"
  shows "obj_field (fst (project p o')) f = (case obj_field o' f of Some [] \<Rightarrow> Some [] | _ \<Rightarrow> None)"
proof -
  have "obj_field (fst (project p o')) f = obj_field (redact_secret (remove_machinery o')) f"
    unfolding project_fst Let_def using assms by (auto simp: obj_field_delete)
  also have "\<dots> = (case obj_field o' f of Some [] \<Rightarrow> Some [] | _ \<Rightarrow> None)"
    unfolding redact_secret_def using assms(2)
    by (auto simp: obj_field_drop_filled obj_field_drop_filled_same obj_field_machinery)
  finally show ?thesis .
qed

lemma drop_filled_fixed: "obj_field o' f \<in> {None, Some []} \<Longrightarrow> drop_filled f o' = o'"
  by (auto simp: drop_filled_def)

lemma stages_fixed:
  "(b \<Longrightarrow> g x = x) \<Longrightarrow> (c \<Longrightarrow> h x = x) \<Longrightarrow>
     (if c then h (if b then g x else x) else if b then g x else x) = x"
  by simp

lemma project_again:
  "project p (fst (project p o')) = (fst (project p o'), [])"
proof -
  let ?o = "fst (project p o')"
  have sec: "obj_field ?o ''data'' \<in> {None, Some []}" "obj_field ?o ''stringData'' \<in> {None, Some []}" if "redacts p o'"
    by (simp_all add: project_secret_field [OF that] split: option.split list.split)
  have "redact_secret ?o = ?o" if "redacts p o'"
    unfolding redact_secret_def using sec [OF that] by (simp only: drop_filled_fixed)
  moreover have "map_delete ''status'' ?o = ?o" if "p = ProjectionSpec"
    using that by (simp add: project_fst Let_def)
  ultimately have "fst (project p ?o) = ?o"
    unfolding project_fst [of p ?o] Let_def machinery_project redacts_project
    by (rule stages_fixed)
  moreover have "snd (project p ?o) = []"
    unfolding project_snd redacts_project using sec by (cases "redacts p o'") (auto simp: secret_entries_def)
  ultimately show ?thesis by (metis prod.collapse)
qed

lemma escape_secret_field: "f \<in> {''data'', ''stringData''} \<Longrightarrow> escapePointer f = f"
  by auto

lemma ex_bounded_cong:
  "(\<And>f. f \<in> S \<Longrightarrow> (\<exists>m kv. A f m \<and> B m kv \<and> C f kv) \<longleftrightarrow> (\<exists>k. D f k \<and> E f k)) \<Longrightarrow>
     (\<exists>f m kv. f \<in> S \<and> A f m \<and> B m kv \<and> C f kv) \<longleftrightarrow> (\<exists>f k. f \<in> S \<and> D f k \<and> E f k)"
  by blast

lemma redaction_entry_value_at:
  assumes "wf_object o'"
  shows "(\<exists>f m kv. f \<in> {''data'', ''stringData''} \<and> obj_field o' f = Some m \<and> kv \<in> set m \<and>
       (ptr, v) = redaction_entry f kv) \<longleftrightarrow>
     (\<exists>f k. f \<in> {''data'', ''stringData''} \<and> value_at (JObj o') [f, k] = Some v \<and>
       ptr = ''/'' @ f @ ''/'' @ escapePointer k)"
proof -
  have "(\<exists>m kv. obj_field o' f = Some m \<and> kv \<in> set m \<and> (ptr, v) = redaction_entry f kv) \<longleftrightarrow>
      (\<exists>k. value_at (JObj o') [f, k] = Some v \<and> ptr = ''/'' @ f @ ''/'' @ escapePointer k)"
    if f: "f \<in> {''data'', ''stringData''}" for f
  proof (cases "obj_field o' f")
    case None
    then have "value_at (JObj o') [f, k] = None" for k
      by (auto simp: obj_field_def split: option.splits json.splits)
    then show ?thesis using None by simp
  next
    case (Some m)
    then have "map_wf m" using wf_obj_field [OF assms Some] by simp
    moreover have "value_at (JObj o') [f, k] = map_of m k" for k
      using Some by (auto simp: obj_field_Some split: option.split)
    ultimately show ?thesis using Some
      by (auto simp: redaction_entry_def escape_secret_field [OF f] map_of_mem)
  qed
  then show ?thesis by (rule ex_bounded_cong)
qed

subsection \<open>Identity\<close>

lemma project_metadata:
  "obj_field (fst (project p o')) ''metadata'' =
     map_option (\<lambda>m. clean_annotations (map_delete ''managedFields'' m)) (obj_field o' ''metadata'')"
  by (cases "obj_field o' ''metadata''") (simp_all add: project_meta_field remove_machinery_alt obj_field_put)

lemma str_field_clean:
  "k \<noteq> ''annotations'' \<Longrightarrow> k \<noteq> ''managedFields'' \<Longrightarrow>
     str_field (clean_annotations (map_delete ''managedFields'' m)) k = str_field m k"
  by (simp add: str_field_def clean_annotations_get)

lemma identityOf_project [simp]: "identityOf (fst (project p o')) = identityOf o'"
  by (cases "obj_field o' ''metadata''")
    (simp_all add: identityOf_def project_metadata str_field_clean str_field_project Let_def)

section \<open>Properties\<close>

text \<open>C28. A projection leaves no value at or below a path it removes: the managed fields
  and the last-applied annotation under every projection, every entry of a core Secret's
  \<open>data\<close> and \<open>stringData\<close> under full and spec, the status under spec.\<close>

theorem project_withholds:
  assumes "r \<in> set (removed_paths p o')" and "prefix r q"
  shows "value_at (JObj (fst (project p o'))) q = None"
  using assms by (rule project_removed)

definition sample_secret :: KRMObject where
  "sample_secret =
     [(''apiVersion'', JStr ''v1''), (''kind'', JStr ''Secret''),
      (''metadata'', JObj [(''name'', JStr ''s''), (''uid'', JStr ''u1''), (''resourceVersion'', JStr ''7''),
         (''managedFields'', JArr [])]),
      (''data'', JObj [(''a/b'', JStr ''eA==''), (''c'', JStr ''eQ=='')]),
      (''status'', JObj [])]"

theorem project_withholds_witness:
  "[''data'', ''a/b''] \<in> set (removed_paths ProjectionFull sample_secret) \<and>
   value_at (JObj sample_secret) [''data'', ''a/b''] = Some (JStr ''eA=='') \<and>
   value_at (JObj (fst (project ProjectionFull sample_secret))) [''data'', ''a/b''] = None"
proof -
  have m: "[''data'', ''a/b''] \<in> set (removed_paths ProjectionFull sample_secret)" by code_simp
  have v: "value_at (JObj sample_secret) [''data'', ''a/b''] = Some (JStr ''eA=='')" by code_simp
  show ?thesis using m v project_withholds [OF m, of "[''data'', ''a/b'']"] by blast
qed

text \<open>C29. A projection reads verbatim everywhere else: a path that is neither above nor
  below a removed path has the value, or the absence, it had in the input.\<close>

theorem project_keeps:
  assumes "\<And>r. r \<in> set (removed_paths p o') \<Longrightarrow> \<not> touches r q"
  shows "value_at (JObj (fst (project p o'))) q = value_at (JObj o') q"
  using assms by (rule project_verbatim)

theorem project_keeps_witness:
  "value_at (JObj (fst (project ProjectionSpec sample_secret))) [''metadata'', ''uid''] = Some (JStr ''u1'')"
proof -
  have "list_all (\<lambda>r. \<not> touches r [''metadata'', ''uid'']) (removed_paths ProjectionSpec sample_secret)"
    by code_simp
  then have "value_at (JObj (fst (project ProjectionSpec sample_secret))) [''metadata'', ''uid''] =
      value_at (JObj sample_secret) [''metadata'', ''uid'']"
    unfolding list_all_iff by (intro project_keeps) blast
  also have "\<dots> = Some (JStr ''u1'')" by code_simp
  finally show ?thesis .
qed

text \<open>The redaction list is exact: in strictly increasing byte order it holds each
  withheld entry once, as its escaped pointer with the value that was withheld there, and
  nothing else.\<close>

theorem project_redactions:
  assumes "wf_object o'"
  shows "sorted (map fst (snd (project p o'))) \<and> distinct (map fst (snd (project p o'))) \<and>
    ((ptr, v) \<in> set (snd (project p o')) \<longleftrightarrow>
       redacts p o' \<and>
       (\<exists>f k. f \<in> {''data'', ''stringData''} \<and> value_at (JObj o') [f, k] = Some v \<and>
              ptr = ''/'' @ f @ ''/'' @ escapePointer k))"
proof -
  have "((ptr, v) \<in> set (snd (project p o')) \<longleftrightarrow>
       redacts p o' \<and>
       (\<exists>f k. f \<in> {''data'', ''stringData''} \<and> value_at (JObj o') [f, k] = Some v \<and>
              ptr = ''/'' @ f @ ''/'' @ escapePointer k))"
    unfolding project_redacted_iff by (simp only: redaction_entry_value_at [OF assms])
  then show ?thesis using project_redacted_sorted project_redacted_distinct [OF assms] by blast
qed

theorem project_redactions_witness:
  "wf_object sample_secret \<and>
   (''/data/a~1b'', JStr ''eA=='') \<in> set (snd (project ProjectionSpec sample_secret))"
proof -
  have wf: "wf_object sample_secret" by code_simp
  have v: "value_at (JObj sample_secret) [''data'', ''a/b''] = Some (JStr ''eA=='')"
    and r: "redacts ProjectionSpec sample_secret"
    and e: "''/data/a~1b'' = ''/'' @ ''data'' @ ''/'' @ escapePointer ''a/b''" by code_simp+
  show ?thesis using wf v r e project_redactions [OF wf, of ProjectionSpec "''/data/a~1b''" "JStr ''eA==''"]
    by blast
qed

text \<open>Projecting is idempotent, and a projected object keeps the identity, the UID and
  the resource version of the object, so a relayed object is projected like the original.\<close>

theorem project_idempotent:
  "project p (fst (project p o')) = (fst (project p o'), []) \<and>
   identityOf (fst (project p o')) = identityOf o' \<and> UID (fst (project p o')) = UID o' \<and>
   resourceVersionOf (fst (project p o')) = resourceVersionOf o'"
  by (simp add: project_again)

end
