(* ===== verification/Ordering.thy ===== *)
theory Ordering
  imports Wire
begin

text \<open>
  Resource versions and how far they are trusted: \<open>ResourceVersionOrdering\<close>,
  \<open>isDecimalResourceVersion\<close>, \<open>compareResourceVersion\<close>, \<open>isStale\<close> and \<open>unorderable\<close> of
  \<open>gateway/stream.go\<close>.  The lemmas identify the comparison by length and bytes with the
  order of the unbounded integers the decimal strings denote.
\<close>

section \<open>Operations\<close>

datatype ResourceVersionOrdering = OrderingStrict | OrderingLenient

definition isDecimalResourceVersion :: "string \<Rightarrow> bool" where
  "isDecimalResourceVersion rv \<longleftrightarrow>
     (case rv of [] \<Rightarrow> False | c # _ \<Rightarrow> \<not> (c < CHR ''1'' \<or> CHR ''9'' < c) \<and> list_all is_digit rv)"

text \<open>\<open>strings.Compare\<close>: three-way byte order.\<close>

definition strings_Compare :: "string \<Rightarrow> string \<Rightarrow> int" where
  "strings_Compare a b = (if a = b then 0 else if a < b then -1 else 1)"

definition compareResourceVersion :: "string \<Rightarrow> string \<Rightarrow> int \<times> bool" where
  "compareResourceVersion a b =
     (if a = b then (0, isDecimalResourceVersion a)
      else if \<not> isDecimalResourceVersion a \<or> \<not> isDecimalResourceVersion b then (0, False)
      else if length a \<noteq> length b then (if length a > length b then (1, True) else (-1, True))
      else (strings_Compare a b, True))"

definition unorderable :: "string \<Rightarrow> StreamError" where
  "unorderable rv = StreamError CodeInternal
     (''upstream served a resourceVersion that cannot be ordered ('' @ rv @ ''). '' @
      ''Kubernetes 1.35+ requires every resourceVersion to be an orderable decimal, so this '' @
      ''upstream is either older than 1.35 or an aggregated API server that does not conform. '' @
      ''Set StreamConfig.Ordering = OrderingLenient to stream it anyway, without per-object monotonicity.'')
     True None None"

text \<open>The verdict and the updated high-water marks, or the error that ends the stream.\<close>

definition isStale ::
    "ResourceVersionOrdering \<Rightarrow> (string \<rightharpoonup> string) \<Rightarrow> string \<Rightarrow> KRMObject \<Rightarrow> StreamError + bool \<times> (string \<rightharpoonup> string)" where
  "isStale ord emitted uid obj =
     (let rv = resourceVersionOf obj in
      case emitted uid of
        None \<Rightarrow>
          (if ord = OrderingStrict \<and> \<not> isDecimalResourceVersion rv then Inl (unorderable rv)
           else Inr (False, emitted(uid \<mapsto> rv)))
      | Some last' \<Rightarrow>
          (let (cmp, ok) = compareResourceVersion rv last' in
           if \<not> ok then
             (if ord = OrderingStrict then Inl (unorderable rv)
              else Inr (False, emitted(uid \<mapsto> rv)))
           else if cmp < 0 then Inr (True, emitted)
           else Inr (False, emitted(uid \<mapsto> rv))))"

section \<open>Lemmas\<close>

lemma dec_val_Nil [simp]: "dec_val [] = 0"
  by (simp add: dec_val.simps)

lemma dec_val_append: "dec_val (s @ t) = dec_val s * 10 ^ length t + dec_val t"
proof (induction t rule: rev_induct)
  case (snoc c t)
  have "dec_val (s @ t @ [c]) = dec_val ((s @ t) @ [c])" by simp
  then show ?case using snoc by (simp add: algebra_simps del: append_assoc)
qed simp

lemma dec_val_one: "dec_val [c] = of_char c - 48"
  by (simp add: dec_val.simps)

lemma dec_val_Cons: "dec_val (c # s) = (of_char c - 48) * 10 ^ length s + dec_val s"
  using dec_val_append [of "[c]" s] by (simp add: dec_val_one)

lemma is_digit_bounds: "is_digit c \<longleftrightarrow> 48 \<le> (of_char c :: nat) \<and> (of_char c :: nat) \<le> 57"
  by (simp add: is_digit_def less_eq_char_def)

lemma dec_val_less: "list_all is_digit s \<Longrightarrow> dec_val s < 10 ^ length s"
proof (induction s)
  case (Cons c s)
  then have "(of_char c :: nat) - 48 \<le> 9" and "dec_val s < 10 ^ length s"
    by (auto simp: is_digit_bounds)
  then have "(of_char c - 48) * 10 ^ length s + dec_val s < 9 * 10 ^ length s + 10 ^ length s"
    by (intro add_le_less_mono mult_right_mono) auto
  then show ?case by (simp add: dec_val_Cons)
qed simp

lemma decimal_digits: "isDecimalResourceVersion s \<Longrightarrow> list_all is_digit s"
  by (cases s) (auto simp: isDecimalResourceVersion_def)

lemma decimal_lower: "isDecimalResourceVersion s \<Longrightarrow> 10 ^ (length s - 1) \<le> dec_val s"
proof -
  assume d: "isDecimalResourceVersion s"
  then obtain c t where s: "s = c # t" and c: "\<not> c < CHR ''1''"
    by (cases s) (auto simp: isDecimalResourceVersion_def)
  from c have "1 \<le> (of_char c :: nat) - 48" by (simp add: less_char_def)
  then have "1 * 10 ^ length t \<le> (of_char c - 48) * 10 ^ length t + dec_val t"
    by (intro trans_le_add1 mult_right_mono) auto
  then show ?thesis by (simp add: s dec_val_Cons)
qed

lemma longer_greater:
  assumes "isDecimalResourceVersion a" and "isDecimalResourceVersion b" and "length b < length a"
  shows "dec_val b < dec_val a"
proof -
  have "dec_val b < 10 ^ length b" using assms(2) by (intro dec_val_less decimal_digits)
  also have "\<dots> \<le> 10 ^ (length a - 1)" using assms(3) by (intro power_increasing) auto
  also have "\<dots> \<le> dec_val a" using assms(1) by (rule decimal_lower)
  finally show ?thesis .
qed

lemma same_length_less:
  assumes "list_all is_digit a" and "list_all is_digit b" and "length a = length b"
  shows "a < b \<longleftrightarrow> dec_val a < dec_val b"
  using assms
proof (induction a arbitrary: b)
  case (Cons x a)
  then obtain y c where b: "b = y # c" by (cases b) auto
  let ?n = "10 ^ length a :: nat"
  have len: "length c = length a" using Cons.prems(3) b by simp
  have lt: "dec_val a < ?n" "dec_val c < ?n"
    using Cons.prems b dec_val_less [of a] dec_val_less [of c] by auto
  have dx: "48 \<le> (of_char x :: nat)" "48 \<le> (of_char y :: nat)"
    using Cons.prems b by (auto simp: is_digit_bounds)
  have IH: "a < c \<longleftrightarrow> dec_val a < dec_val c" using Cons.IH [of c] Cons.prems b by simp
  have key: "u * ?n + dec_val a < w * ?n + dec_val c" if "u < w" for u w
  proof -
    have "Suc u * ?n \<le> w * ?n" using that by (intro mult_right_mono) auto
    then show ?thesis using lt(1) by simp
  qed
  have key': "w * ?n + dec_val c < u * ?n + dec_val a" if "w < u" for u w
  proof -
    have "Suc w * ?n \<le> u * ?n" using that by (intro mult_right_mono) auto
    then show ?thesis using lt(2) by simp
  qed
  show ?case
  proof (cases "x = y")
    case True
    then show ?thesis using IH by (simp add: b dec_val_Cons len)
  next
    case False
    then have "(of_char x :: nat) \<noteq> of_char y" by simp
    then consider "(of_char x :: nat) < of_char y" | "(of_char y :: nat) < of_char x" by linarith
    then show ?thesis
    proof cases
      case 1
      then show ?thesis using False dx key [of "of_char x - 48" "of_char y - 48"]
        by (auto simp: b dec_val_Cons len less_char_def)
    next
      case 2
      then have "(of_char y :: nat) - 48 < of_char x - 48" using dx by simp
      from key' [OF this] show ?thesis using False 2
        by (simp add: b dec_val_Cons len less_char_def)
    qed
  qed
qed simp

lemma decimal_dec_val_inj:
  "isDecimalResourceVersion a \<Longrightarrow> isDecimalResourceVersion b \<Longrightarrow> dec_val a = dec_val b \<Longrightarrow> a = b"
  using longer_greater [of a b] longer_greater [of b a] same_length_less [of a b] same_length_less [of b a]
    decimal_digits [of a] decimal_digits [of b]
  by (metis less_irrefl linorder_neqE_nat linorder_less_linear)

lemma compare_decimal:
  assumes a: "isDecimalResourceVersion a" and b: "isDecimalResourceVersion b"
  shows "compareResourceVersion a b = (sgn (int (dec_val a) - int (dec_val b)), True)"
proof (cases "length a = length b")
  case True
  have "a < b \<longleftrightarrow> dec_val a < dec_val b" "b < a \<longleftrightarrow> dec_val b < dec_val a"
    using True decimal_digits [OF a] decimal_digits [OF b] same_length_less [of a b] same_length_less [of b a] by auto
  then show ?thesis using a b True linorder_less_linear [of a b]
    by (auto simp: compareResourceVersion_def strings_Compare_def sgn_if)
next
  case False
  then show ?thesis using a b longer_greater [OF a b] longer_greater [OF b a]
    by (cases "length a < length b") (auto simp: compareResourceVersion_def sgn_if)
qed

lemma compare_ok: "snd (compareResourceVersion a b) \<longleftrightarrow> isDecimalResourceVersion a \<and> isDecimalResourceVersion b"
  by (auto simp: compareResourceVersion_def)


subsection \<open>Staleness against the high-water marks\<close>

text \<open>In strict mode every mark is a decimal, and a mark is read as the number it denotes.\<close>

definition marks_ok :: "(string \<rightharpoonup> string) \<Rightarrow> bool" where
  "marks_ok emitted \<longleftrightarrow> (\<forall>u rv. emitted u = Some rv \<longrightarrow> isDecimalResourceVersion rv)"

definition mark_num :: "(string \<rightharpoonup> string) \<Rightarrow> string \<Rightarrow> nat option" where
  "mark_num emitted u = map_option dec_val (emitted u)"

lemma isStale_cases:
  assumes "isStale ord emitted uid obj = Inr (stale, emitted')"
  shows "stale \<and> emitted' = emitted \<or> \<not> stale \<and> emitted' = emitted(uid \<mapsto> resourceVersionOf obj)"
  using assms by (auto simp: isStale_def Let_def split: option.splits if_splits prod.splits)

lemma isStale_strict:
  assumes "marks_ok emitted"
  shows "isStale OrderingStrict emitted uid obj =
    (let rv = resourceVersionOf obj in
     if \<not> isDecimalResourceVersion rv then Inl (unorderable rv)
     else if (case mark_num emitted uid of None \<Rightarrow> False | Some n \<Rightarrow> dec_val rv < n) then Inr (True, emitted)
     else Inr (False, emitted(uid \<mapsto> rv)))"
proof (cases "emitted uid")
  case None
  then show ?thesis by (simp add: isStale_def mark_num_def Let_def)
next
  case (Some l)
  then have l: "isDecimalResourceVersion l" using assms by (simp add: marks_ok_def)
  show ?thesis
  proof (cases "isDecimalResourceVersion (resourceVersionOf obj)")
    case True
    then show ?thesis using Some l
      by (simp add: isStale_def mark_num_def Let_def compare_decimal sgn_if)
  next
    case False
    then show ?thesis using Some compare_ok [of "resourceVersionOf obj" l]
      by (simp add: isStale_def Let_def case_prod_beta)
  qed
qed

lemma isStale_marks_ok:
  assumes "marks_ok emitted" and "isStale OrderingStrict emitted uid obj = Inr (stale, emitted')"
  shows "marks_ok emitted'"
  using assms(2) unfolding isStale_strict [OF assms(1)] Let_def
  using assms(1) by (auto simp: marks_ok_def split: if_splits)

section \<open>Properties\<close>

text \<open>Two resource versions are orderable exactly when both are decimals without a
  leading zero, and then the comparison by length and bytes is the comparison of the
  numbers they denote, at any number of digits.\<close>

theorem compareResourceVersion_numeric:
  "snd (compareResourceVersion a b) = (isDecimalResourceVersion a \<and> isDecimalResourceVersion b) \<and>
   (isDecimalResourceVersion a \<and> isDecimalResourceVersion b \<longrightarrow>
      fst (compareResourceVersion a b) = sgn (int (dec_val a) - int (dec_val b)))"
  using compare_decimal compare_ok by simp

theorem compareResourceVersion_numeric_witness:
  "fst (compareResourceVersion ''9'' ''10'') = -1 \<and>
   fst (compareResourceVersion ''10000000000000000000000000000000000000001'' ''10000000000000000000000000000000000000000'') = 1"
proof -
  have "isDecimalResourceVersion ''9'' \<and> isDecimalResourceVersion ''10''"
    "isDecimalResourceVersion ''10000000000000000000000000000000000000001'' \<and>
     isDecimalResourceVersion ''10000000000000000000000000000000000000000''" by code_simp+
  moreover have "sgn (int (dec_val ''9'') - int (dec_val ''10'')) = -1"
    "sgn (int (dec_val ''10000000000000000000000000000000000000001'') -
          int (dec_val ''10000000000000000000000000000000000000000'')) = 1"
    by (simp_all add: dec_val.simps)
  ultimately show ?thesis
    using compareResourceVersion_numeric [of "''9''" "''10''"]
      compareResourceVersion_numeric [of "''10000000000000000000000000000000000000001''"
        "''10000000000000000000000000000000000000000''"] by metis
qed

end
