(* ===== verification/Cycle.thy ===== *)
theory Cycle
  imports Projection Ordering
begin

text \<open>
  One snapshot cycle: \<open>cycle\<close> of \<open>gateway/stream.go\<close> with the helpers it calls
  (\<open>observeRedactions\<close>, \<open>visibleDigest\<close>, \<open>partialReason\<close>).  The loop is a step
  function on one result of \<open>Watcher.Next\<close>; a cycle runs over the sequence of results
  its watch returns and either returns an error, as the code always does, or is still
  waiting in \<open>Next\<close> when the sequence ends.
\<close>

section \<open>State\<close>

record redactionState =
  rs_value :: json
  rs_rev :: "64 word"

type_synonym revisions = "string \<rightharpoonup> (string \<rightharpoonup> redactionState)"

text \<open>
  The effects that outlive a cycle: the sink behind \<open>Emit\<close>, what the observer and the
  diagnostics hook were told, the watches opened and stopped, the redaction revisions of
  the connection.
\<close>

record ('s, 'p) world =
  wd_sink :: 's
  wd_obs :: "Observation list"
  wd_diag :: "'p Diagnostic list"
  wd_opened :: nat
  wd_stopped :: nat
  wd_revisions :: revisions

text \<open>The maps of one cycle: the high-water marks and the digests of the last emitted views.\<close>

record marks =
  mk_emitted :: "string \<rightharpoonup> string"
  mk_digests :: "string \<rightharpoonup> string"

definition no_marks :: marks where
  "no_marks = \<lparr>mk_emitted = Map.empty, mk_digests = Map.empty\<rparr>"

definition observe :: "Observation \<Rightarrow> ('s, 'p) world \<Rightarrow> ('s, 'p) world" where
  "observe ob w = w\<lparr>wd_obs := wd_obs w @ [ob]\<rparr>"

definition diagnose :: "'p Diagnostic \<Rightarrow> ('s, 'p) world \<Rightarrow> ('s, 'p) world" where
  "diagnose d w = w\<lparr>wd_diag := wd_diag w @ [d]\<rparr>"

definition world_Emit :: "'s emit \<Rightarrow> Event \<Rightarrow> ('s, 'p) world \<Rightarrow> go_error option \<times> ('s, 'p) world" where
  "world_Emit emit ev w = (let (r, s) = emit ev (wd_sink w) in (r, w\<lparr>wd_sink := s\<rparr>))"

section \<open>Helpers of the loop\<close>

text \<open>The loop of \<open>observeRedactions\<close>: the state of each path, its revision bumped when the value changed.\<close>

definition next_redaction :: "(string \<rightharpoonup> redactionState) \<Rightarrow> redactedValue \<Rightarrow> redactionState" where
  "next_redaction previous value =
     (case previous (fst value) of
        None \<Rightarrow> \<lparr>rs_value = deepCopyValue (snd value), rs_rev = 1\<rparr>
      | Some state \<Rightarrow>
          if \<not> DeepEqual (rs_value state) (snd value)
          then state\<lparr>rs_value := deepCopyValue (snd value), rs_rev := rs_rev state + 1\<rparr>
          else state)"

fun redaction_loop :: "(string \<rightharpoonup> redactionState) \<Rightarrow> redactedValue list \<Rightarrow>
    (string \<rightharpoonup> redactionState) \<times> Redaction list \<Rightarrow> (string \<rightharpoonup> redactionState) \<times> Redaction list" where
  "redaction_loop previous [] s = s"
| "redaction_loop previous (value # values) s =
     (let state = next_redaction previous value
      in redaction_loop previous values
           ((fst s)(fst value \<mapsto> state), snd s @ [\<lparr>rd_Path = fst value, rd_Rev = rs_rev state\<rparr>]))"

definition observeRedactions :: "revisions \<Rightarrow> string \<Rightarrow> redactedValue list \<Rightarrow> revisions \<times> Redaction list" where
  "observeRedactions all uid values =
     (let previous = (case all uid of None \<Rightarrow> Map.empty | Some m \<Rightarrow> m);
          (next, out) = redaction_loop previous values (Map.empty, [])
      in (all(uid \<mapsto> next), out))"

text \<open>The JSON view that is digested: the object without its resource version, and the redactions.\<close>

definition drop_resourceVersion :: "KRMObject \<Rightarrow> KRMObject" where
  "drop_resourceVersion o' =
     (let object = deepCopyObject o' in
      case obj_field object ''metadata'' of
        None \<Rightarrow> object
      | Some meta \<Rightarrow> map_put ''metadata'' (JObj (map_delete ''resourceVersion'' meta)) object)"

definition visible_view :: "Event \<Rightarrow> json" where
  "visible_view ev =
     JObj [(''object'', canon (JObj (drop_resourceVersion (ev_Object ev)))),
           (''redacted'', case ev_Redacted ev of None \<Rightarrow> JNull | Some rs \<Rightarrow> JArr (map Redaction_json rs))]"

definition hex_EncodeToString :: "string \<Rightarrow> string" where
  "hex_EncodeToString b = concat (map (\<lambda>c. [hex_digit (of_char c div 16), hex_digit (of_char c mod 16)]) b)"

text \<open>\<open>sha256.Sum256\<close> is the parameter \<open>sha\<close>, bytes to bytes.\<close>

definition visibleDigest :: "(string \<Rightarrow> string) \<Rightarrow> Event \<Rightarrow> string" where
  "visibleDigest sha ev = hex_EncodeToString (sha (enc (visible_view ev)))"

definition partialReason :: "KRMObject \<Rightarrow> string" where
  "partialReason obj =
     (let kind = str_field obj ''kind'' in
      if kind = ''PartialObjectMetadata'' \<or> kind = ''PartialObjectMetadataList''
      then ''upstream delivered a metadata-only object ('' @ kind @ ''); it has no spec and no status''
      else if UID obj = [] then ''upstream delivered a partial object with no uid''
      else [])"

section \<open>The loop body\<close>

text \<open>Either the loop goes on with new marks, or \<open>cycle\<close> returns this error.\<close>

datatype ('s, 'p) turn = Continue marks "('s, 'p) world" | Return go_error "('s, 'p) world"

record cycle_env =
  ce_scope :: Scope
  ce_projection :: Projection
  ce_ordering :: ResourceVersionOrdering
  ce_sha :: "string \<Rightarrow> string"

definition emitted_obs :: "cycle_env \<Rightarrow> EventType \<Rightarrow> Observation" where
  "emitted_obs g t = obs_of ObservationEventEmitted (Some (ce_scope g)) (ce_projection g) (Some t) None"

definition suppressed_obs :: "cycle_env \<Rightarrow> EventType \<Rightarrow> Observation" where
  "suppressed_obs g t = obs_of ObservationEventSuppressed (Some (ce_scope g)) (ce_projection g) (Some t) None"

definition on_bookmark ::
    "cycle_env \<Rightarrow> 's emit \<Rightarrow> WatchEvent \<Rightarrow> marks \<Rightarrow> ('s, 'p) world \<Rightarrow> ('s, 'p) turn" where
  "on_bookmark g emit ev mk w =
     (if we_InitialEventsEnd ev then
        (case world_Emit emit (event_of EventSynced) w of
           (Some err, w) \<Rightarrow> Return err w
         | (None, w) \<Rightarrow>
             (let w = observe (emitted_obs g EventSynced) w
              in Continue mk (w\<lparr>wd_revisions :=
                   (\<lambda>uid. if mk_emitted mk uid = None then None else wd_revisions w uid)\<rparr>)))
      else Continue mk w)"

definition on_object ::
    "cycle_env \<Rightarrow> 's emit \<Rightarrow> WatchEvent \<Rightarrow> marks \<Rightarrow> ('s, 'p) world \<Rightarrow> ('s, 'p) turn" where
  "on_object g emit ev mk w =
     (let reason = partialReason (we_Object ev) in
      if reason \<noteq> [] then Return (ErrStream (ResyncRequired reason)) w
      else
        (let (obj, values) = project (ce_projection g) (we_Object ev); uid = UID obj in
         case isStale (ce_ordering g) (mk_emitted mk) uid obj of
           Inl err \<Rightarrow> Return (ErrStream err) w
         | Inr (stale, emitted) \<Rightarrow>
             (let mk = mk\<lparr>mk_emitted := emitted\<rparr> in
              if stale then Continue mk w
              else
                (let (revs, redacted) = observeRedactions (wd_revisions w) uid values;
                     w = w\<lparr>wd_revisions := revs\<rparr>;
                     t = (if we_Type ev = WatchModified then EventModified else EventAdded);
                     out = (event_of t)\<lparr>ev_Object := obj, ev_Redacted := Some redacted\<rparr>;
                     digest = visibleDigest (ce_sha g) out
                 in if (case mk_digests mk uid of None \<Rightarrow> [] | Some d \<Rightarrow> d) = digest
                    then Continue mk (observe (suppressed_obs g t) w)
                    else
                      (let mk = mk\<lparr>mk_digests := (mk_digests mk)(uid \<mapsto> digest)\<rparr> in
                       case world_Emit emit out w of
                         (Some err, w) \<Rightarrow> Return err w
                       | (None, w) \<Rightarrow> Continue mk (observe (emitted_obs g t) w))))))"

definition on_deleted ::
    "cycle_env \<Rightarrow> 's emit \<Rightarrow> WatchEvent \<Rightarrow> marks \<Rightarrow> ('s, 'p) world \<Rightarrow> ('s, 'p) turn" where
  "on_deleted g emit ev mk w =
     (case identityOf (we_Object ev) of
        None \<Rightarrow> Return (ErrStream (ResyncRequired ''deletion tombstone carried no trustworthy uid'')) w
      | Some i \<Rightarrow>
          (case isStale (ce_ordering g) (mk_emitted mk) (id_UID i) (we_Object ev) of
             Inl err \<Rightarrow> Return (ErrStream err) w
           | Inr (stale, emitted) \<Rightarrow>
               (if stale then Continue (mk\<lparr>mk_emitted := emitted\<rparr>) w
                else
                  (case world_Emit emit ((event_of EventDeleted)\<lparr>ev_Identity := Some i\<rparr>) w of
                     (Some err, w) \<Rightarrow> Return err w
                   | (None, w) \<Rightarrow>
                       (let w = observe (emitted_obs g EventDeleted) w
                        in Continue
                             \<lparr>mk_emitted = emitted(id_UID i := None), mk_digests = (mk_digests mk)(id_UID i := None)\<rparr>
                             (w\<lparr>wd_revisions := (wd_revisions w)(id_UID i := None)\<rparr>))))))"

definition on_error :: "WatchEvent \<Rightarrow> ('s, 'p) world \<Rightarrow> ('s, 'p) turn" where
  "on_error ev w =
     (case we_Err ev of
        Some err \<Rightarrow> Return err w
      | None \<Rightarrow> Return (ErrStream (ResyncRequired ''upstream error'')) w)"

definition cycle_step ::
    "cycle_env \<Rightarrow> 's emit \<Rightarrow> NextResult \<Rightarrow> marks \<Rightarrow> ('s, 'p) world \<Rightarrow> ('s, 'p) turn" where
  "cycle_step g emit r mk w =
     (case r of
        NextErr err \<Rightarrow> Return err w
      | NextEvent ev \<Rightarrow>
          (case we_Type ev of
             WatchBookmark \<Rightarrow> on_bookmark g emit ev mk w
           | WatchAdded \<Rightarrow> on_object g emit ev mk w
           | WatchModified \<Rightarrow> on_object g emit ev mk w
           | WatchDeleted \<Rightarrow> on_deleted g emit ev mk w
           | WatchError \<Rightarrow> on_error ev w
           | WatchOther _ \<Rightarrow> Continue mk w))"

text \<open>The loop: \<open>Inr\<close> while it waits in \<open>Next\<close> for a result that has not come.\<close>

fun cycle_loop ::
    "cycle_env \<Rightarrow> 's emit \<Rightarrow> NextResult list \<Rightarrow> marks \<Rightarrow> ('s, 'p) world \<Rightarrow> ('s, 'p) turn" where
  "cycle_loop g emit [] mk w = Continue mk w"
| "cycle_loop g emit (r # rs) mk w =
     (case cycle_step g emit r mk w of
        Continue mk' w' \<Rightarrow> cycle_loop g emit rs mk' w'
      | Return err w' \<Rightarrow> Return err w')"

definition stop_watch :: "('s, 'p) turn \<Rightarrow> ('s, 'p) turn" where
  "stop_watch t =
     (case t of
        Continue mk w \<Rightarrow> Continue mk w
      | Return err w \<Rightarrow> Return err (w\<lparr>wd_stopped := Suc (wd_stopped w)\<rparr>))"

text \<open>\<open>backend.Watch\<close> fails, or opens a watch that will return the given results.\<close>

definition cycle ::
    "cycle_env \<Rightarrow> 's emit \<Rightarrow> go_error + NextResult list \<Rightarrow> ('s, 'p) world \<Rightarrow> ('s, 'p) turn" where
  "cycle g emit watch w =
     (case watch of
        Inl err \<Rightarrow> Return err w
      | Inr results \<Rightarrow>
          (let w = w\<lparr>wd_opened := Suc (wd_opened w)\<rparr> in
           stop_watch
             (case world_Emit emit ((event_of EventReset)\<lparr>ev_Target := sc_Target (ce_scope g),
                      ev_Scope := Some (ce_scope g), ev_Projection := ce_projection g\<rparr>) w of
                (Some err, w) \<Rightarrow> Return err w
              | (None, w) \<Rightarrow>
                  cycle_loop g emit results no_marks (observe (emitted_obs g EventReset) w))))"

section \<open>Decision and effect\<close>

text \<open>
  What one turn decides, apart from its effects: to return, to go on silently, or to send
  one event.  A sent event leaves the first revisions when \<open>Emit\<close> fails and the second
  ones when it succeeds.
\<close>

datatype plan =
    Stop go_error
  | Quiet marks revisions "Observation list"
  | Send Event marks revisions revisions

text \<open>The event an object turn hashes, with the marks and revisions at that point.\<close>

definition candidate :: "cycle_env \<Rightarrow> WatchEvent \<Rightarrow> revisions \<Rightarrow> Event" where
  "candidate g ev revs =
     (let (obj, values) = project (ce_projection g) (we_Object ev)
      in (event_of (if we_Type ev = WatchModified then EventModified else EventAdded))
           \<lparr>ev_Object := obj, ev_Redacted := Some (snd (observeRedactions revs (UID obj) values))\<rparr>)"

definition plan_object :: "cycle_env \<Rightarrow> WatchEvent \<Rightarrow> marks \<Rightarrow> revisions \<Rightarrow> plan" where
  "plan_object g ev mk revs =
     (let o' = we_Object ev; uid = UID o'; out = candidate g ev revs;
          revs' = fst (observeRedactions revs uid (snd (project (ce_projection g) o')))
      in if partialReason o' \<noteq> [] then Stop (ErrStream (ResyncRequired (partialReason o')))
         else case isStale (ce_ordering g) (mk_emitted mk) uid o' of
           Inl err \<Rightarrow> Stop (ErrStream err)
         | Inr (stale, emitted) \<Rightarrow>
             (if stale then Quiet (mk\<lparr>mk_emitted := emitted\<rparr>) revs []
              else if (case mk_digests mk uid of None \<Rightarrow> [] | Some d \<Rightarrow> d) = visibleDigest (ce_sha g) out
              then Quiet (mk\<lparr>mk_emitted := emitted\<rparr>) revs' [suppressed_obs g (ev_Type out)]
              else Send out \<lparr>mk_emitted = emitted,
                     mk_digests = (mk_digests mk)(uid \<mapsto> visibleDigest (ce_sha g) out)\<rparr> revs' revs'))"

definition plan_deleted :: "cycle_env \<Rightarrow> WatchEvent \<Rightarrow> marks \<Rightarrow> revisions \<Rightarrow> plan" where
  "plan_deleted g ev mk revs =
     (case identityOf (we_Object ev) of
        None \<Rightarrow> Stop (ErrStream (ResyncRequired ''deletion tombstone carried no trustworthy uid''))
      | Some i \<Rightarrow>
          (case isStale (ce_ordering g) (mk_emitted mk) (id_UID i) (we_Object ev) of
             Inl err \<Rightarrow> Stop (ErrStream err)
           | Inr (stale, emitted) \<Rightarrow>
               (if stale then Quiet (mk\<lparr>mk_emitted := emitted\<rparr>) revs []
                else Send ((event_of EventDeleted)\<lparr>ev_Identity := Some i\<rparr>)
                       \<lparr>mk_emitted = emitted(id_UID i := None), mk_digests = (mk_digests mk)(id_UID i := None)\<rparr>
                       revs (revs(id_UID i := None)))))"

definition plan_turn :: "cycle_env \<Rightarrow> NextResult \<Rightarrow> marks \<Rightarrow> revisions \<Rightarrow> plan" where
  "plan_turn g r mk revs =
     (case r of
        NextErr err \<Rightarrow> Stop err
      | NextEvent ev \<Rightarrow>
          (case we_Type ev of
             WatchBookmark \<Rightarrow>
               (if we_InitialEventsEnd ev
                then Send (event_of EventSynced) mk revs (\<lambda>uid. if mk_emitted mk uid = None then None else revs uid)
                else Quiet mk revs [])
           | WatchAdded \<Rightarrow> plan_object g ev mk revs
           | WatchModified \<Rightarrow> plan_object g ev mk revs
           | WatchDeleted \<Rightarrow> plan_deleted g ev mk revs
           | WatchError \<Rightarrow>
               Stop (case we_Err ev of Some err \<Rightarrow> err | None \<Rightarrow> ErrStream (ResyncRequired ''upstream error''))
           | WatchOther _ \<Rightarrow> Quiet mk revs []))"

definition perform :: "cycle_env \<Rightarrow> 's emit \<Rightarrow> plan \<Rightarrow> ('s, 'p) world \<Rightarrow> ('s, 'p) turn" where
  "perform g emit pl w =
     (case pl of
        Stop err \<Rightarrow> Return err w
      | Quiet mk revs obs \<Rightarrow> Continue mk (w\<lparr>wd_revisions := revs, wd_obs := wd_obs w @ obs\<rparr>)
      | Send ev mk revs revs' \<Rightarrow>
          (case emit ev (wd_sink w) of
             (Some err, s) \<Rightarrow> Return err (w\<lparr>wd_sink := s, wd_revisions := revs\<rparr>)
           | (None, s) \<Rightarrow>
               Continue mk (w\<lparr>wd_sink := s, wd_revisions := revs',
                 wd_obs := wd_obs w @ [emitted_obs g (ev_Type ev)]\<rparr>)))"

fun turn_world :: "('s, 'p) turn \<Rightarrow> ('s, 'p) world" where
  "turn_world (Continue mk w) = w"
| "turn_world (Return err w) = w"

text \<open>The decisions of a whole run, as long as none of them is to return and no \<open>Emit\<close> fails.\<close>

fun pure_run :: "cycle_env \<Rightarrow> NextResult list \<Rightarrow> marks \<Rightarrow> revisions \<Rightarrow> (marks \<times> revisions \<times> Event list) option" where
  "pure_run g [] mk revs = Some (mk, revs, [])"
| "pure_run g (r # rs) mk revs =
     (case plan_turn g r mk revs of
        Stop err \<Rightarrow> None
      | Quiet mk' revs' obs \<Rightarrow> pure_run g rs mk' revs'
      | Send ev mk' revs0 revs' \<Rightarrow>
          (case pure_run g rs mk' revs' of
             None \<Rightarrow> None
           | Some (mk'', revs'', es) \<Rightarrow> Some (mk'', revs'', ev # es)))"

text \<open>Every event a run decides to send, up to the turn that returns.\<close>

fun trace :: "cycle_env \<Rightarrow> NextResult list \<Rightarrow> marks \<Rightarrow> revisions \<Rightarrow> Event list" where
  "trace g [] mk revs = []"
| "trace g (r # rs) mk revs =
     (case plan_turn g r mk revs of
        Stop err \<Rightarrow> []
      | Quiet mk' revs' obs \<Rightarrow> trace g rs mk' revs'
      | Send ev mk' revs0 revs' \<Rightarrow> ev # trace g rs mk' revs')"

definition sent :: "cycle_env \<Rightarrow> NextResult \<Rightarrow> Event \<Rightarrow> bool" where
  "sent g r e \<longleftrightarrow> (\<exists>mk revs mk' a b. plan_turn g r mk revs = Send e mk' a b)"

definition reset_event :: "cycle_env \<Rightarrow> Event" where
  "reset_event g = (event_of EventReset)\<lparr>ev_Target := sc_Target (ce_scope g), ev_Scope := Some (ce_scope g),
     ev_Projection := ce_projection g\<rparr>"

text \<open>
  Per-object monotonicity of a sequence of events: between a reset or a deletion and the
  next one, the resource versions of an object are decimals that never decrease.
\<close>

fun mono_from :: "(string \<rightharpoonup> nat) \<Rightarrow> Event list \<Rightarrow> bool" where
  "mono_from hw [] = True"
| "mono_from hw (e # es) =
     (let u = UID (ev_Object e); rv = resourceVersionOf (ev_Object e) in
      if ev_Type e = EventAdded \<or> ev_Type e = EventModified
      then isDecimalResourceVersion rv \<and> (case hw u of None \<Rightarrow> True | Some n \<Rightarrow> n \<le> dec_val rv) \<and>
           mono_from (hw(u \<mapsto> dec_val rv)) es
      else if ev_Type e = EventDeleted
      then mono_from (case ev_Identity e of None \<Rightarrow> hw | Some i \<Rightarrow> hw(id_UID i := None)) es
      else if ev_Type e = EventReset then mono_from Map.empty es
      else mono_from hw es)"

section \<open>Lemmas\<close>

lemma resourceVersionOf_stale [simp]:
  "isStale ord emitted uid (fst (project p o')) = isStale ord emitted uid o'"
  by (simp add: isStale_def)

text \<open>The loop body is its decision followed by its effect.\<close>

lemma event_upd_type [simp]: "ev_Type (ev\<lparr>ev_Object := a, ev_Redacted := b\<rparr>) = ev_Type ev"
  "ev_Type (ev\<lparr>ev_Identity := c\<rparr>) = ev_Type ev"
  by simp_all

lemma candidate_simps [simp]:
  "ev_Type (candidate g ev revs) = (if we_Type ev = WatchModified then EventModified else EventAdded)"
  "ev_Object (candidate g ev revs) = fst (project (ce_projection g) (we_Object ev))"
  "ev_Redacted (candidate g ev revs) =
     Some (snd (observeRedactions revs (UID (we_Object ev)) (snd (project (ce_projection g) (we_Object ev)))))"
  by (simp_all add: candidate_def case_prod_beta)

lemma candidate_alt:
  "candidate g ev revs = (event_of (if we_Type ev = WatchModified then EventModified else EventAdded))
     \<lparr>ev_Object := fst (project (ce_projection g) (we_Object ev)),
      ev_Redacted := Some (snd (observeRedactions revs (UID (we_Object ev)) (snd (project (ce_projection g) (we_Object ev)))))\<rparr>"
  by (simp add: candidate_def case_prod_beta)

lemma on_object_plan: "on_object g emit ev mk w = perform g emit (plan_object g ev mk (wd_revisions w)) w"
proof (cases "partialReason (we_Object ev) = []")
  case True
  let ?out = "candidate g ev (wd_revisions w)"
  show ?thesis
  proof (cases "isStale (ce_ordering g) (mk_emitted mk) (UID (we_Object ev)) (we_Object ev)")
    case (Inl e)
    then show ?thesis using True by (simp add: on_object_def plan_object_def Let_def perform_def case_prod_beta)
  next
    case (Inr se)
    then obtain a b where se: "isStale (ce_ordering g) (mk_emitted mk) (UID (we_Object ev)) (we_Object ev) = Inr (a, b)"
      by (cases se) auto
    obtain r s where rs: "emit ?out (wd_sink w) = (r, s)" by (cases "emit ?out (wd_sink w)")
    show ?thesis
      using True se rs unfolding on_object_def plan_object_def Let_def
      by (cases r; cases a)
         (simp_all add: perform_def world_Emit_def observe_def case_prod_beta candidate_alt [symmetric])
  qed
qed (simp add: on_object_def plan_object_def Let_def perform_def)

lemma on_deleted_plan: "on_deleted g emit ev mk w = perform g emit (plan_deleted g ev mk (wd_revisions w)) w"
proof (cases "identityOf (we_Object ev)")
  case (Some i)
  show ?thesis
  proof (cases "isStale (ce_ordering g) (mk_emitted mk) (id_UID i) (we_Object ev)")
    case (Inl e)
    then show ?thesis using Some by (simp add: on_deleted_def plan_deleted_def perform_def)
  next
    case (Inr se)
    obtain r s where rs: "emit ((event_of EventDeleted)\<lparr>ev_Identity := Some i\<rparr>) (wd_sink w) = (r, s)"
      by (cases "emit ((event_of EventDeleted)\<lparr>ev_Identity := Some i\<rparr>) (wd_sink w)")
    then show ?thesis using Some Inr
      by (cases se; cases r)
         (simp_all add: on_deleted_def plan_deleted_def perform_def observe_def world_Emit_def Let_def)
  qed
qed (simp add: on_deleted_def plan_deleted_def perform_def)

lemma on_bookmark_plan:
  "on_bookmark g emit ev mk w =
     perform g emit
       (if we_InitialEventsEnd ev
        then Send (event_of EventSynced) mk (wd_revisions w) (\<lambda>uid. if mk_emitted mk uid = None then None else wd_revisions w uid)
        else Quiet mk (wd_revisions w) []) w"
proof -
  obtain r s where "emit (event_of EventSynced) (wd_sink w) = (r, s)"
    by (cases "emit (event_of EventSynced) (wd_sink w)")
  then show ?thesis
    by (cases r) (simp_all add: on_bookmark_def perform_def observe_def world_Emit_def Let_def cong: if_cong)
qed

lemma cycle_step_plan: "cycle_step g emit r mk w = perform g emit (plan_turn g r mk (wd_revisions w)) w"
proof (cases r)
  case (NextEvent ev)
  then show ?thesis
    by (cases "we_Type ev"; cases "we_Err ev")
       (simp_all add: cycle_step_def plan_turn_def on_object_plan on_deleted_plan on_bookmark_plan on_error_def perform_def)
qed (simp add: cycle_step_def plan_turn_def perform_def)


subsection \<open>What a turn may send\<close>

text \<open>The revisions after an object turn that is not stale.\<close>

abbreviation object_revs :: "cycle_env \<Rightarrow> WatchEvent \<Rightarrow> revisions \<Rightarrow> revisions" where
  "object_revs g ev revs \<equiv>
     fst (observeRedactions revs (UID (we_Object ev)) (snd (project (ce_projection g) (we_Object ev))))"

lemma plan_object_Send:
  assumes "plan_object g ev mk revs = Send e mk' a b"
  shows "partialReason (we_Object ev) = []" and "e = candidate g ev revs"
    and "a = object_revs g ev revs" and "b = object_revs g ev revs"
    and "\<exists>emitted. isStale (ce_ordering g) (mk_emitted mk) (UID (we_Object ev)) (we_Object ev) = Inr (False, emitted) \<and>
          mk' = \<lparr>mk_emitted = emitted, mk_digests = (mk_digests mk)(UID (we_Object ev) \<mapsto> visibleDigest (ce_sha g) e)\<rparr>"
  using assms unfolding plan_object_def Let_def
  by (auto split: if_splits sum.splits prod.splits)

lemma plan_object_Quiet:
  assumes "plan_object g ev mk revs = Quiet mk' a obs"
  shows "partialReason (we_Object ev) = []"
    and "\<exists>stale emitted. isStale (ce_ordering g) (mk_emitted mk) (UID (we_Object ev)) (we_Object ev) = Inr (stale, emitted) \<and>
          mk' = mk\<lparr>mk_emitted := emitted\<rparr> \<and>
          (if stale then a = revs
           else a = object_revs g ev revs \<and>
             (case mk_digests mk (UID (we_Object ev)) of None \<Rightarrow> [] | Some d \<Rightarrow> d) = visibleDigest (ce_sha g) (candidate g ev revs))"
  using assms unfolding plan_object_def Let_def
  by (auto split: if_splits sum.splits prod.splits)

lemma plan_deleted_Send:
  assumes "plan_deleted g ev mk revs = Send e mk' a b"
  shows "\<exists>i emitted. identityOf (we_Object ev) = Some i \<and> e = (event_of EventDeleted)\<lparr>ev_Identity := Some i\<rparr> \<and>
      isStale (ce_ordering g) (mk_emitted mk) (id_UID i) (we_Object ev) = Inr (False, emitted) \<and>
      mk' = \<lparr>mk_emitted = emitted(id_UID i := None), mk_digests = (mk_digests mk)(id_UID i := None)\<rparr> \<and>
      a = revs \<and> b = revs(id_UID i := None)"
  using assms unfolding plan_deleted_def
  by (auto split: if_splits sum.splits prod.splits option.splits)

lemma plan_deleted_Quiet:
  assumes "plan_deleted g ev mk revs = Quiet mk' a obs"
  shows "\<exists>i emitted. identityOf (we_Object ev) = Some i \<and>
      isStale (ce_ordering g) (mk_emitted mk) (id_UID i) (we_Object ev) = Inr (True, emitted) \<and>
      mk' = mk\<lparr>mk_emitted := emitted\<rparr> \<and> a = revs"
  using assms unfolding plan_deleted_def
  by (auto split: if_splits sum.splits prod.splits option.splits)

lemma plan_turn_SendE:
  assumes "plan_turn g r mk revs = Send e mk' a b"
  obtains (synced) ev where "r = NextEvent ev" "we_Type ev = WatchBookmark" "we_InitialEventsEnd ev"
      "e = event_of EventSynced" "mk' = mk" "b = (\<lambda>uid. if mk_emitted mk uid = None then None else revs uid)"
  | (object) ev where "r = NextEvent ev" "we_Type ev = WatchAdded \<or> we_Type ev = WatchModified"
      "plan_object g ev mk revs = Send e mk' a b"
  | (deleted) ev where "r = NextEvent ev" "we_Type ev = WatchDeleted" "plan_deleted g ev mk revs = Send e mk' a b"
  using assms unfolding plan_turn_def
  by (cases r) (auto split: WatchEventType.splits if_splits)

lemma plan_turn_QuietE:
  assumes "plan_turn g r mk revs = Quiet mk' a obs"
  obtains (silent) ev where "r = NextEvent ev" "we_Type ev = WatchBookmark \<and> \<not> we_InitialEventsEnd ev \<or> (\<exists>s. we_Type ev = WatchOther s)"
      "mk' = mk" "a = revs"
  | (object) ev where "r = NextEvent ev" "we_Type ev = WatchAdded \<or> we_Type ev = WatchModified"
      "plan_object g ev mk revs = Quiet mk' a obs"
  | (deleted) ev where "r = NextEvent ev" "we_Type ev = WatchDeleted" "plan_deleted g ev mk revs = Quiet mk' a obs"
  using assms unfolding plan_turn_def
  by (cases r) (auto split: WatchEventType.splits if_splits)

lemma sentE:
  assumes "sent g r e"
  obtains (synced) ev where "r = NextEvent ev" "e = event_of EventSynced"
  | (object) ev revs where "r = NextEvent ev" "we_Type ev = WatchAdded \<or> we_Type ev = WatchModified"
      "partialReason (we_Object ev) = []" "e = candidate g ev revs"
  | (deleted) ev i where "r = NextEvent ev" "we_Type ev = WatchDeleted" "identityOf (we_Object ev) = Some i"
      "e = (event_of EventDeleted)\<lparr>ev_Identity := Some i\<rparr>"
proof -
  obtain mk revs mk' a b where "plan_turn g r mk revs = Send e mk' a b" using assms by (auto simp: sent_def)
  then show thesis
    by (cases rule: plan_turn_SendE)
       (auto intro: that dest: plan_object_Send plan_deleted_Send)
qed

text \<open>The loop emits unnumbered events only.\<close>

lemma candidate_seq [simp]: "ev_Seq (candidate g ev revs) = 0"
  by (simp add: candidate_alt)

lemma reset_event_seq [simp]: "ev_Seq (reset_event g) = 0"
  by (simp add: reset_event_def)

lemma plan_turn_seq: "plan_turn g r mk revs = Send e mk' a b \<Longrightarrow> ev_Seq e = 0"
  by (erule plan_turn_SendE) (auto dest: plan_object_Send(2) plan_deleted_Send)

subsection \<open>Runs into a sink\<close>

context sink
begin

lemma cycle_loop_trace:
  "\<exists>es. prefix es (trace g rs mk (wd_revisions w)) \<and>
     delivered (wd_sink (turn_world (cycle_loop g emit rs mk w))) = delivered (wd_sink w) @ es"
proof (induction rs arbitrary: mk w)
  case (Cons r rs)
  show ?case
  proof (cases "plan_turn g r mk (wd_revisions w)")
    case (Stop e)
    then show ?thesis by (simp add: cycle_step_plan perform_def)
  next
    case (Quiet m rv ob)
    then show ?thesis using Cons.IH [of m "w\<lparr>wd_revisions := rv, wd_obs := wd_obs w @ ob\<rparr>"]
      by (simp add: cycle_step_plan perform_def)
  next
    case (Send e m rv rv')
    obtain q s where qs: "emit e (wd_sink w) = (q, s)" by (cases "emit e (wd_sink w)")
    show ?thesis
    proof (cases q)
      case None
      let ?w = "w\<lparr>wd_sink := s, wd_revisions := rv', wd_obs := wd_obs w @ [emitted_obs g (ev_Type e)]\<rparr>"
      obtain es where "prefix es (trace g rs m rv')"
        "delivered (wd_sink (turn_world (cycle_loop g emit rs m ?w))) = delivered s @ es"
        using Cons.IH [of m ?w] by auto
      then show ?thesis using emit_ok [OF plan_turn_seq [OF Send], of "wd_sink w" s] qs None Send
        by (intro exI [of _ "e # es"]) (simp add: cycle_step_plan perform_def)
    next
      case (Some x)
      then show ?thesis using qs Send emit_err [OF plan_turn_seq [OF Send], of "wd_sink w" x s]
        by (intro exI [of _ "if delivered s = delivered (wd_sink w) then [] else [e]"])
           (auto simp: cycle_step_plan perform_def)
    qed
  qed
qed simp

lemma cycle_loop_continue:
  "cycle_loop g emit rs mk w = Continue mk' w' \<Longrightarrow>
     \<exists>es. pure_run g rs mk (wd_revisions w) = Some (mk', wd_revisions w', es) \<and>
          delivered (wd_sink w') = delivered (wd_sink w) @ es"
proof (induction rs arbitrary: mk w)
  case (Cons r rs)
  show ?case
  proof (cases "plan_turn g r mk (wd_revisions w)")
    case (Stop e)
    then show ?thesis using Cons.prems by (simp add: cycle_step_plan perform_def)
  next
    case (Quiet m rv ob)
    then show ?thesis using Cons.prems Cons.IH [of m "w\<lparr>wd_revisions := rv, wd_obs := wd_obs w @ ob\<rparr>"]
      by (simp add: cycle_step_plan perform_def)
  next
    case (Send e m rv rv')
    obtain q s where qs: "emit e (wd_sink w) = (q, s)" by (cases "emit e (wd_sink w)")
    show ?thesis
    proof (cases q)
      case None
      let ?w = "w\<lparr>wd_sink := s, wd_revisions := rv', wd_obs := wd_obs w @ [emitted_obs g (ev_Type e)]\<rparr>"
      have "cycle_loop g emit rs m ?w = Continue mk' w'"
        using Cons.prems qs None Send by (simp add: cycle_step_plan perform_def)
      from Cons.IH [OF this] obtain es where
        "pure_run g rs m rv' = Some (mk', wd_revisions w', es)" "delivered (wd_sink w') = delivered s @ es"
        by auto
      then show ?thesis using emit_ok [OF plan_turn_seq [OF Send], of "wd_sink w" s] qs None Send by simp
    next
      case (Some x)
      then show ?thesis using Cons.prems qs Send by (simp add: cycle_step_plan perform_def)
    qed
  qed
qed simp

lemma stop_watch_sink [simp]: "wd_sink (turn_world (stop_watch t)) = wd_sink (turn_world t)"
  by (cases t) (simp_all add: stop_watch_def)

lemma cycle_trace:
  "\<exists>es. delivered (wd_sink (turn_world (cycle g emit watch w))) = delivered (wd_sink w) @ es \<and>
     (es = [] \<or> (\<exists>rs fs. watch = Inr rs \<and> es = reset_event g # fs \<and> prefix fs (trace g rs no_marks (wd_revisions w))))"
proof (cases watch)
  case (Inr rs)
  let ?w = "w\<lparr>wd_opened := Suc (wd_opened w)\<rparr>"
  obtain q s where qs: "emit (reset_event g) (wd_sink w) = (q, s)" by (cases "emit (reset_event g) (wd_sink w)")
  show ?thesis
  proof (cases q)
    case None
    obtain fs where "delivered (wd_sink (turn_world (cycle_loop g emit rs no_marks
          (observe (emitted_obs g EventReset) (?w\<lparr>wd_sink := s\<rparr>))))) = delivered s @ fs"
      "prefix fs (trace g rs no_marks (wd_revisions w))"
      using cycle_loop_trace [of g rs no_marks "observe (emitted_obs g EventReset) (?w\<lparr>wd_sink := s\<rparr>)"]
      by (auto simp: observe_def)
    then show ?thesis using emit_ok [of "reset_event g" "wd_sink w" s] qs None Inr
      by (intro exI [of _ "reset_event g # fs"])
         (simp add: cycle_def Let_def world_Emit_def reset_event_def [symmetric])
  next
    case (Some x)
    then show ?thesis using emit_err [of "reset_event g" "wd_sink w" x s] qs Inr
      by (intro exI [of _ "if delivered s = delivered (wd_sink w) then [] else [reset_event g]"])
         (auto simp: cycle_def Let_def world_Emit_def reset_event_def [symmetric])
  qed
qed (simp add: cycle_def)

end

lemma trace_sent: "e \<in> set (trace g rs mk revs) \<Longrightarrow> \<exists>r \<in> set rs. sent g r e"
proof (induction rs arbitrary: mk revs)
  case (Cons r rs)
  have here: "sent g r x" if "plan_turn g r mk revs = Send x m a b" for x m a b
    using that unfolding sent_def by blast
  from Cons show ?case by (cases "plan_turn g r mk revs") (auto dest: here)
qed simp

lemma mono_from_prefix: "mono_from hw es \<Longrightarrow> prefix fs es \<Longrightarrow> mono_from hw fs"
proof (induction es arbitrary: hw fs)
  case (Cons e es)
  then show ?case by (cases fs) (auto simp: Let_def split: if_splits)
qed simp

text \<open>
  Read between two states of one object: without a reset in between, the later one is not older
  unless the object was deleted in between.
\<close>

definition is_state :: "Event \<Rightarrow> bool" where
  "is_state e \<longleftrightarrow> ev_Type e = EventAdded \<or> ev_Type e = EventModified"

definition deletes :: "string \<Rightarrow> Event \<Rightarrow> bool" where
  "deletes u e \<longleftrightarrow> ev_Type e = EventDeleted \<and> map_option id_UID (ev_Identity e) = Some u"

lemma sent_no_reset: "\<exists>rs r. watch = Inr rs \<and> r \<in> set rs \<and> sent g r e \<Longrightarrow> ev_Type e \<noteq> EventReset"
  by (auto elim!: sentE)

lemma mono_from_tail: "mono_from hw (as @ es) \<Longrightarrow> \<exists>hw'. mono_from hw' es"
proof (induction as arbitrary: hw)
  case (Cons a as)
  then show ?case by (auto simp: Let_def split: if_splits)
qed auto

lemma mono_from_later:
  assumes "mono_from hw (bs @ y # cs)" and "hw u = Some n" and "is_state y" and "UID (ev_Object y) = u"
    and "\<forall>b \<in> set bs. ev_Type b \<noteq> EventReset" and "\<not> list_ex (deletes u) bs"
  shows "n \<le> dec_val (resourceVersionOf (ev_Object y))"
  using assms
proof (induction bs arbitrary: hw n)
  case Nil
  then show ?case by (auto simp: is_state_def Let_def)
next
  case (Cons b bs)
  show ?case
  proof (cases "is_state b")
    case True
    define m where "m = dec_val (resourceVersionOf (ev_Object b))"
    have le: "UID (ev_Object b) = u \<longrightarrow> n \<le> m" and rest: "mono_from (hw(UID (ev_Object b) \<mapsto> m)) (bs @ y # cs)"
      using Cons.prems(1,2) True by (auto simp: is_state_def Let_def m_def)
    show ?thesis
    proof (cases "UID (ev_Object b) = u")
      case True
      then show ?thesis using Cons.IH [OF rest, of m] Cons.prems le by simp
    next
      case False
      then show ?thesis using Cons.IH [OF rest, of n] Cons.prems by simp
    qed
  next
    case False
    then obtain hw' where "mono_from hw' (bs @ y # cs)" "hw' u = Some n"
      using Cons.prems by (auto simp: is_state_def deletes_def Let_def split: if_splits option.splits)
    then show ?thesis using Cons.IH [of hw' n] Cons.prems by simp
  qed
qed

lemma mono_from_states:
  assumes "mono_from hw (as @ x # bs @ y # cs)" and "is_state x" and "is_state y"
    and "UID (ev_Object x) = UID (ev_Object y)" and "\<forall>b \<in> set bs. ev_Type b \<noteq> EventReset"
  shows "dec_val (resourceVersionOf (ev_Object x)) \<le> dec_val (resourceVersionOf (ev_Object y)) \<or>
    list_ex (deletes (UID (ev_Object x))) bs"
proof -
  obtain h where "mono_from h (x # bs @ y # cs)" using mono_from_tail [OF assms(1)] by blast
  then have "mono_from (h(UID (ev_Object x) \<mapsto> dec_val (resourceVersionOf (ev_Object x)))) (bs @ y # cs)"
    using assms(2) by (auto simp: is_state_def Let_def)
  from mono_from_later [OF this _ assms(3) assms(4) [symmetric] assms(5)] show ?thesis by fastforce
qed

lemma cycle_shape:
  assumes "sink emit delivered"
  obtains es where "delivered (wd_sink (turn_world (cycle g emit watch w))) = delivered (wd_sink w) @ es"
    and "\<And>e. e \<in> set (tl es) \<Longrightarrow> \<exists>rs r. watch = Inr rs \<and> r \<in> set rs \<and> sent g r e"
    and "es \<noteq> [] \<Longrightarrow> hd es = reset_event g"
    and "\<And>hw. (\<And>rs. mono_from hw (trace g rs no_marks (wd_revisions w))) \<Longrightarrow> mono_from hw (tl es)"
proof -
  obtain es where del: "delivered (wd_sink (turn_world (cycle g emit watch w))) = delivered (wd_sink w) @ es"
    and es: "es = [] \<or> (\<exists>rs fs. watch = Inr rs \<and> es = reset_event g # fs \<and> prefix fs (trace g rs no_marks (wd_revisions w)))"
    using sink.cycle_trace [OF assms] by blast
  show thesis
  proof (rule that [OF del])
    show "\<exists>rs r. watch = Inr rs \<and> r \<in> set rs \<and> sent g r e" if e: "e \<in> set (tl es)" for e
    proof -
      obtain rs where "watch = Inr rs" "e \<in> set (trace g rs no_marks (wd_revisions w))"
        using es e set_mono_prefix by fastforce
      then show ?thesis using trace_sent by blast
    qed
    show "hd es = reset_event g" if "es \<noteq> []" using es that by auto
    show "mono_from hw (tl es)" if "\<And>rs. mono_from hw (trace g rs no_marks (wd_revisions w))" for hw
      using es
    proof (elim disjE exE conjE)
      fix rs fs
      assume "es = reset_event g # fs" "prefix fs (trace g rs no_marks (wd_revisions w))"
      then show ?thesis using mono_from_prefix [OF that] by simp
    qed simp
  qed
qed

lemma trace_pure_run: "pure_run g rs mk revs = Some (mk', revs', es) \<Longrightarrow> trace g rs mk revs = es"
proof (induction rs arbitrary: mk revs es)
  case (Cons r rs)
  then show ?case by (cases "plan_turn g r mk revs") (auto split: option.splits)
qed simp

lemma hex_Nil [simp]: "hex_EncodeToString b = [] \<longleftrightarrow> b = []"
  by (cases b) (simp_all add: hex_EncodeToString_def)

lemma visibleDigest_nonempty: "\<forall>b. sha b \<noteq> [] \<Longrightarrow> [] \<noteq> visibleDigest sha e"
  using hex_Nil by (metis visibleDigest_def)

subsection \<open>Monotonicity\<close>

definition below_marks :: "(string \<rightharpoonup> nat) \<Rightarrow> marks \<Rightarrow> bool" where
  "below_marks hw mk \<longleftrightarrow>
     (\<forall>u n. hw u = Some n \<longrightarrow> (\<exists>rv. mk_emitted mk u = Some rv \<and> n \<le> dec_val rv)) \<and> marks_ok (mk_emitted mk)"

lemma isStale_strict_cases:
  assumes "marks_ok emitted" and "isStale OrderingStrict emitted uid o' = Inr (stale, emitted')"
  shows "isDecimalResourceVersion (resourceVersionOf o') \<and>
    (if stale then emitted' = emitted
     else emitted' = emitted(uid \<mapsto> resourceVersionOf o') \<and>
       (\<forall>rv. emitted uid = Some rv \<longrightarrow> dec_val rv \<le> dec_val (resourceVersionOf o')))"
  using assms(2) unfolding isStale_strict [OF assms(1)] Let_def
  by (auto simp: mark_num_def split: if_splits option.splits)

lemma below_marks_object:
  assumes "below_marks hw mk" and "isStale OrderingStrict (mk_emitted mk) uid o' = Inr (stale, emitted)"
  shows "below_marks hw (mk\<lparr>mk_emitted := emitted\<rparr>)"
proof -
  have ok: "marks_ok (mk_emitted mk)" using assms(1) by (simp add: below_marks_def)
  show ?thesis using assms(1) isStale_strict_cases [OF ok assms(2)] isStale_marks_ok [OF ok assms(2)]
    by (cases stale) (auto simp: below_marks_def dest: order_trans)
qed

lemma trace_mono:
  "ce_ordering g = OrderingStrict \<Longrightarrow> below_marks hw mk \<Longrightarrow> mono_from hw (trace g rs mk revs)"
proof (induction rs arbitrary: hw mk revs)
  case (Cons r rs)
  note strict = Cons.prems(1) and below = Cons.prems(2)
  have ok: "marks_ok (mk_emitted mk)" using below by (simp add: below_marks_def)
  show ?case
  proof (cases "plan_turn g r mk revs")
    case (Quiet mk' a obs)
    have "below_marks hw mk'" using Quiet
    proof (cases rule: plan_turn_QuietE)
      case (object ev)
      then show ?thesis using plan_object_Quiet(2) [OF object(3)] strict below_marks_object [OF below] by auto
    next
      case (deleted ev)
      then show ?thesis using plan_deleted_Quiet [OF deleted(3)] strict below_marks_object [OF below] by auto
    qed (use below in simp)
    then show ?thesis using Quiet Cons.IH [OF strict] by simp
  next
    case (Send e mk' a b)
    from Send show ?thesis
    proof (cases rule: plan_turn_SendE)
      case (synced ev)
      then show ?thesis using Send Cons.IH [OF strict below] by simp
    next
      case (object ev)
      let ?u = "UID (we_Object ev)" and ?rv = "resourceVersionOf (we_Object ev)"
      obtain emitted where st: "isStale OrderingStrict (mk_emitted mk) ?u (we_Object ev) = Inr (False, emitted)"
        and mk': "mk_emitted mk' = emitted" using plan_object_Send(5) [OF object(3)] strict by auto
      have dec: "isDecimalResourceVersion ?rv" and em: "emitted = (mk_emitted mk)(?u \<mapsto> ?rv)"
        and le: "\<And>rv. mk_emitted mk ?u = Some rv \<Longrightarrow> dec_val rv \<le> dec_val ?rv"
        using isStale_strict_cases [OF ok st] by auto
      have "below_marks (hw(?u \<mapsto> dec_val ?rv)) mk'"
        using below em mk' dec by (auto simp: below_marks_def marks_ok_def)
      then have "mono_from (hw(?u \<mapsto> dec_val ?rv)) (trace g rs mk' b)" by (rule Cons.IH [OF strict])
      moreover have "n \<le> dec_val ?rv" if "hw ?u = Some n" for n
        using below that le by (fastforce simp: below_marks_def)
      ultimately show ?thesis using Send dec plan_object_Send(2) [OF object(3)]
        by (simp split: option.split)
    next
      case (deleted ev)
      obtain i emitted where i: "identityOf (we_Object ev) = Some i" "e = (event_of EventDeleted)\<lparr>ev_Identity := Some i\<rparr>"
        and st: "isStale OrderingStrict (mk_emitted mk) (id_UID i) (we_Object ev) = Inr (False, emitted)"
        and mk': "mk_emitted mk' = emitted(id_UID i := None)"
        using plan_deleted_Send [OF deleted(3)] strict by auto
      have "below_marks hw (mk\<lparr>mk_emitted := emitted\<rparr>)" using below st by (rule below_marks_object)
      then have "below_marks (hw(id_UID i := None)) mk'" using mk' by (auto simp: below_marks_def marks_ok_def)
      then show ?thesis using Send i Cons.IH [OF strict] by simp
    qed
  qed simp
qed simp

subsection \<open>Redaction revisions\<close>

lemma redaction_loop_out:
  "snd (redaction_loop prev vs s) = snd s @ map (\<lambda>v. \<lparr>rd_Path = fst v, rd_Rev = rs_rev (next_redaction prev v)\<rparr>) vs"
  by (induction prev vs s rule: redaction_loop.induct) (simp_all add: Let_def)

lemma redaction_loop_state:
  "distinct (map fst vs) \<Longrightarrow>
     fst (redaction_loop prev vs s) k =
       (case map_of vs k of None \<Rightarrow> fst s k | Some v \<Rightarrow> Some (next_redaction prev (k, v)))"
proof (induction prev vs s rule: redaction_loop.induct)
  case (2 prev v vs s)
  then have "map_of vs (fst v) = None" by (simp add: map_of_eq_None_iff)
  then show ?case using 2 by (cases v) (auto simp: Let_def split: option.split)
qed simp

definition revs_of :: "revisions \<Rightarrow> string \<Rightarrow> string \<rightharpoonup> redactionState" where
  "revs_of revs uid = (case revs uid of None \<Rightarrow> Map.empty | Some m \<Rightarrow> m)"

lemma observeRedactions_out:
  "snd (observeRedactions revs uid vs) =
     map (\<lambda>v. \<lparr>rd_Path = fst v, rd_Rev = rs_rev (next_redaction (revs_of revs uid) v)\<rparr>) vs"
  by (simp add: observeRedactions_def revs_of_def Let_def case_prod_beta redaction_loop_out)

lemma observeRedactions_state:
  assumes "distinct (map fst vs)"
  shows "revs_of (fst (observeRedactions revs uid vs)) u =
    (if u = uid then (\<lambda>k. map_option (\<lambda>v. next_redaction (revs_of revs uid) (k, v)) (map_of vs k)) else revs_of revs u)"
  using assms
  by (auto simp: observeRedactions_def revs_of_def Let_def case_prod_beta redaction_loop_state fun_eq_iff split: option.split)

lemma next_redaction_value: "DeepEqual (rs_value (next_redaction prev v)) (snd v)"
  by (auto simp: next_redaction_def DeepEqual_def split: option.split)


section \<open>Properties\<close>

text \<open>C3. Disclosure.  Whatever the watch returns and however the cycle ends, every object
  the sink was handed is the projection of a whole upstream object (with a UID, not a
  metadata-only kind), so it holds no value at or below a removed or redacted path.\<close>

theorem cycle_discloses_projections:
  assumes "sink emit delivered"
  shows "\<exists>es. delivered (wd_sink (turn_world (cycle g emit watch w))) = delivered (wd_sink w) @ es \<and>
    (\<forall>e \<in> set es. ev_Type e = EventAdded \<or> ev_Type e = EventModified \<longrightarrow>
       (\<exists>rs ev. watch = Inr rs \<and> NextEvent ev \<in> set rs \<and> partialReason (we_Object ev) = [] \<and>
          ev_Object e = fst (project (ce_projection g) (we_Object ev)) \<and>
          (\<forall>r q. r \<in> set (removed_paths (ce_projection g) (we_Object ev)) \<and> prefix r q \<longrightarrow>
             value_at (JObj (ev_Object e)) q = None)))"
proof -
  obtain es where del: "delivered (wd_sink (turn_world (cycle g emit watch w))) = delivered (wd_sink w) @ es"
    and tl: "\<And>e. e \<in> set (tl es) \<Longrightarrow> \<exists>rs r. watch = Inr rs \<and> r \<in> set rs \<and> sent g r e"
    and hd: "es \<noteq> [] \<Longrightarrow> hd es = reset_event g"
    by (rule cycle_shape [OF assms, of g watch w]) blast
  have "\<exists>rs ev. watch = Inr rs \<and> NextEvent ev \<in> set rs \<and> partialReason (we_Object ev) = [] \<and>
          ev_Object e = fst (project (ce_projection g) (we_Object ev))"
    if e: "e \<in> set es" and t: "ev_Type e = EventAdded \<or> ev_Type e = EventModified" for e
  proof -
    have "e \<in> set (tl es)" using e t hd by (cases es) (auto simp: reset_event_def)
    then obtain rs r where rs: "watch = Inr rs" "r \<in> set rs" "sent g r e" using tl by blast
    from rs(3) show ?thesis
    proof (cases rule: sentE)
      case (object ev revs)
      then show ?thesis using rs by auto
    qed (use t in auto)
  qed
  then show ?thesis using del project_removed by (intro exI [of _ es]) fastforce
qed

definition sample_watch :: "NextResult list" where
  "sample_watch =
     [NextEvent \<lparr>we_Type = WatchAdded, we_Object = sample_secret, we_InitialEventsEnd = False, we_Err = None\<rparr>,
      NextEvent \<lparr>we_Type = WatchBookmark, we_Object = [], we_InitialEventsEnd = True, we_Err = None\<rparr>]"

definition sample_scope :: Scope where
  "sample_scope = \<lparr>sc_Target = ''t'', sc_Group = [], sc_Version = ''v1'', sc_Resource = ''secrets'',
     sc_Namespace = ''ns'', sc_Name = [], sc_LabelSelector = []\<rparr>"

definition sample_env :: cycle_env where
  "sample_env = \<lparr>ce_scope = sample_scope, ce_projection = ProjectionFull, ce_ordering = OrderingStrict,
     ce_sha = (\<lambda>b. take 32 (rev b @ replicate 32 (CHR ''.'')))\<rparr>"

definition sample_world :: "(Event list, unit) world" where
  "sample_world = \<lparr>wd_sink = [], wd_obs = [], wd_diag = [], wd_opened = 0, wd_stopped = 0, wd_revisions = Map.empty\<rparr>"

lemma sample_types:
  "map ev_Type (wd_sink (turn_world (cycle sample_env recorder_Emit (Inr sample_watch) sample_world))) =
     [EventReset, EventAdded, EventSynced]"
proof -
  have sha: "\<forall>b. ce_sha sample_env b \<noteq> []" by (simp add: sample_env_def)
  have strict: "ce_ordering sample_env = OrderingStrict" by (simp add: sample_env_def)
  have obj: "partialReason sample_secret = []" "UID sample_secret = ''u1''" "resourceVersionOf sample_secret = ''7''"
    "isDecimalResourceVersion ''7''" by code_simp+
  have st: "isStale OrderingStrict Map.empty ''u1'' sample_secret = Inr (False, [''u1'' \<mapsto> ''7''])"
    by (simp add: isStale_def obj)
  show ?thesis unfolding cycle_def sample_watch_def
    by (simp add: Let_def world_Emit_def recorder_Emit_def cycle_step_plan plan_turn_def plan_object_def
        no_marks_def obj st strict visibleDigest_nonempty [OF sha] perform_def stop_watch_def observe_def sample_world_def)
qed

theorem cycle_discloses_projections_witness:
  "\<exists>es. wd_sink (turn_world (cycle sample_env recorder_Emit (Inr sample_watch) sample_world)) = es \<and>
     map ev_Type es = [EventReset, EventAdded, EventSynced] \<and>
     ev_Object (es ! 1) = fst (project ProjectionFull sample_secret)"
proof -
  note t = sample_types
  have s: "wd_sink sample_world = []" "ce_projection sample_env = ProjectionFull"
    by (simp_all add: sample_world_def sample_env_def)
  define es where es: "es = wd_sink (turn_world (cycle sample_env recorder_Emit (Inr sample_watch) sample_world))"
  have mem: "es ! 1 \<in> set es" and ty: "ev_Type (es ! 1) = EventAdded"
    using t unfolding es [symmetric] by (auto simp: map_eq_Cons_conv)
  obtain ev where w: "NextEvent ev \<in> set sample_watch" and p: "partialReason (we_Object ev) = []"
    and o: "ev_Object (es ! 1) = fst (project ProjectionFull (we_Object ev))"
    using cycle_discloses_projections [OF recorder.sink_axioms, of sample_env "Inr sample_watch" sample_world] mem ty
    unfolding s append_Nil es [symmetric] by blast
  have "partialReason [] \<noteq> []" by code_simp
  then have "we_Object ev \<noteq> []" using p by (cases "we_Object ev = []") simp_all
  then have "we_Object ev = sample_secret" using w unfolding sample_watch_def by auto
  then have "ev_Object (es ! 1) = fst (project ProjectionFull sample_secret)" using o by (simp only:)
  with es [symmetric] t [folded es] show ?thesis by (intro exI [of _ es] conjI)
qed

text \<open>Framing.  What a cycle delivers is nothing, or one reset carrying the scope and
  the projection followed only by object events, deletions that name the identity of an
  upstream tombstone, and synced events; it never emits an error event itself.\<close>

theorem cycle_framing:
  assumes "sink emit delivered"
  shows "\<exists>es. delivered (wd_sink (turn_world (cycle g emit watch w))) = delivered (wd_sink w) @ es \<and>
    (es \<noteq> [] \<longrightarrow> hd es = reset_event g \<and>
      (\<forall>e \<in> set (tl es). ev_Type e \<in> {EventAdded, EventModified, EventDeleted, EventSynced} \<and>
         (ev_Type e = EventDeleted \<longrightarrow>
            (\<exists>rs ev. watch = Inr rs \<and> NextEvent ev \<in> set rs \<and> we_Type ev = WatchDeleted \<and>
               ev_Identity e \<noteq> None \<and> ev_Identity e = identityOf (we_Object ev)))))"
proof -
  obtain es where del: "delivered (wd_sink (turn_world (cycle g emit watch w))) = delivered (wd_sink w) @ es"
    and tl: "\<And>e. e \<in> set (tl es) \<Longrightarrow> \<exists>rs r. watch = Inr rs \<and> r \<in> set rs \<and> sent g r e"
    and hd: "es \<noteq> [] \<Longrightarrow> hd es = reset_event g"
    by (rule cycle_shape [OF assms, of g watch w]) blast
  have "ev_Type e \<in> {EventAdded, EventModified, EventDeleted, EventSynced} \<and>
         (ev_Type e = EventDeleted \<longrightarrow>
            (\<exists>rs ev. watch = Inr rs \<and> NextEvent ev \<in> set rs \<and> we_Type ev = WatchDeleted \<and>
               ev_Identity e \<noteq> None \<and> ev_Identity e = identityOf (we_Object ev)))"
    if e: "e \<in> set (tl es)" for e
  proof -
    obtain rs r where rs: "watch = Inr rs" "r \<in> set rs" "sent g r e" using tl e by blast
    from rs(3) show ?thesis by (cases rule: sentE) (use rs in auto)
  qed
  then show ?thesis using del hd by blast
qed

theorem cycle_framing_witness:
  "hd (wd_sink (turn_world (cycle sample_env recorder_Emit (Inr sample_watch) sample_world))) = reset_event sample_env"
proof -
  have "wd_sink (turn_world (cycle sample_env recorder_Emit (Inr sample_watch) sample_world)) \<noteq> []"
    using sample_types by auto
  then show ?thesis
    using cycle_framing [OF recorder.sink_axioms, of sample_env "Inr sample_watch" sample_world]
    by (auto simp: sample_world_def)
qed

text \<open>C26. Per-object monotonicity, up to deletions.  Under strict ordering, the resource versions
  that one cycle delivers are decimals, and of two states of one object the later is never older
  than the earlier, whatever order the upstream replays them in, unless a deletion of that object
  was delivered in between.  At a deletion the code forgets the object's mark, so after one it may
  deliver a state older than one already delivered in the cycle, which section 6 of the
  specification rules out; \<open>cycle_older_after_deletion\<close> is such a cycle.  Under lenient ordering
  nothing is promised of versions that are not decimals.\<close>

theorem cycle_monotone:
  assumes "sink emit delivered" and "ce_ordering g = OrderingStrict"
  shows "\<exists>es. delivered (wd_sink (turn_world (cycle g emit watch w))) = delivered (wd_sink w) @ es \<and>
    mono_from Map.empty es \<and>
    (\<forall>as x bs y cs. es = as @ x # bs @ y # cs \<and> is_state x \<and> is_state y \<and> UID (ev_Object x) = UID (ev_Object y) \<longrightarrow>
       dec_val (resourceVersionOf (ev_Object x)) \<le> dec_val (resourceVersionOf (ev_Object y)) \<or>
       (\<exists>d \<in> set bs. ev_Type d = EventDeleted \<and> map_option id_UID (ev_Identity d) = Some (UID (ev_Object x))))"
proof -
  obtain es where del: "delivered (wd_sink (turn_world (cycle g emit watch w))) = delivered (wd_sink w) @ es"
    and sent: "\<And>e. e \<in> set (tl es) \<Longrightarrow> \<exists>rs r. watch = Inr rs \<and> r \<in> set rs \<and> sent g r e"
    and hd: "es \<noteq> [] \<Longrightarrow> hd es = reset_event g"
    and mono: "\<And>hw. (\<And>rs. mono_from hw (trace g rs no_marks (wd_revisions w))) \<Longrightarrow> mono_from hw (tl es)"
    by (rule cycle_shape [OF assms(1), of g watch w]) blast
  have "mono_from Map.empty (trace g rs no_marks (wd_revisions w))" for rs
    by (rule trace_mono [OF assms(2)]) (simp add: below_marks_def marks_ok_def no_marks_def)
  then have "mono_from Map.empty (tl es)" by (rule mono)
  then have es: "mono_from Map.empty es" using hd by (cases es) (auto simp: reset_event_def)
  have "dec_val (resourceVersionOf (ev_Object x)) \<le> dec_val (resourceVersionOf (ev_Object y)) \<or>
      list_ex (deletes (UID (ev_Object x))) bs"
    if "es = as @ x # bs @ y # cs" "is_state x" "is_state y" "UID (ev_Object x) = UID (ev_Object y)" for as x bs y cs
  proof (rule mono_from_states [OF es [unfolded that(1)] that(2-4)])
    have "set bs \<subseteq> set (tl es)" unfolding that(1) by (cases as) auto
    then show "\<forall>b \<in> set bs. ev_Type b \<noteq> EventReset" using sent by (meson sent_no_reset subsetD)
  qed
  then show ?thesis using del es by (intro exI [of _ es]) (simp add: list_ex_iff deletes_def)
qed

theorem cycle_monotone_witness:
  "mono_from Map.empty (wd_sink (turn_world (cycle sample_env recorder_Emit (Inr (sample_watch @ sample_watch)) sample_world)))"
proof -
  have "ce_ordering sample_env = OrderingStrict" by (simp add: sample_env_def)
  from cycle_monotone [OF recorder.sink_axioms this, of "Inr (sample_watch @ sample_watch)" sample_world]
  show ?thesis by (auto simp: sample_world_def)
qed

text \<open>The same object added, deleted, and added again at an older version, without a reset in between.\<close>

definition older_secret :: KRMObject where
  "older_secret = map (\<lambda>(k, v). if k = ''metadata'' then (k, JObj [(''uid'', JStr ''u1''), (''name'', JStr ''s''),
     (''namespace'', JStr ''ns''), (''resourceVersion'', JStr ''5'')]) else (k, v)) sample_secret"

definition replayed_watch :: "NextResult list" where
  "replayed_watch = map (\<lambda>(t, obj). NextEvent \<lparr>we_Type = t, we_Object = obj, we_InitialEventsEnd = False, we_Err = None\<rparr>)
     [(WatchAdded, sample_secret), (WatchDeleted, sample_secret), (WatchAdded, older_secret)]"

lemma cycle_older_after_deletion:
  "map (\<lambda>e. (ev_Type e, UID (ev_Object e), resourceVersionOf (ev_Object e)))
     (wd_sink (turn_world (cycle sample_env recorder_Emit (Inr replayed_watch) sample_world))) =
   [(EventReset, [], []), (EventAdded, ''u1'', ''7''), (EventDeleted, [], []), (EventAdded, ''u1'', ''5'')]"
proof -
  have sha: "\<forall>b. ce_sha sample_env b \<noteq> []" by (simp add: sample_env_def)
  have strict: "ce_ordering sample_env = OrderingStrict" by (simp add: sample_env_def)
  have obj: "partialReason sample_secret = []" "UID sample_secret = ''u1''" "resourceVersionOf sample_secret = ''7''"
    "partialReason older_secret = []" "UID older_secret = ''u1''" "resourceVersionOf older_secret = ''5''"
    "isDecimalResourceVersion ''7''" "isDecimalResourceVersion ''5''" "compareResourceVersion ''7'' ''7'' = (0, True)"
    "UID ([] :: KRMObject) = []" "resourceVersionOf ([] :: KRMObject) = []" by code_simp+
  have "identityOf sample_secret \<noteq> None" by code_simp
  then obtain i where i: "identityOf sample_secret = Some i" "id_UID i = ''u1''" using identityOf_UID obj(2) by (metis not_Some_eq)
  show ?thesis unfolding cycle_def replayed_watch_def
    by (simp add: Let_def world_Emit_def recorder_Emit_def cycle_step_plan plan_turn_def plan_object_def plan_deleted_def i
        no_marks_def obj isStale_def strict visibleDigest_nonempty [OF sha] perform_def stop_watch_def observe_def sample_world_def reset_event_def event_of_def)
qed

text \<open>C27. A redaction revision is a change counter that does not reveal the value: observed
  twice in a row, a path keeps its revision exactly when the withheld values are equal as Go
  values, and moves to the next 64-bit number otherwise; a path seen for the first time has
  revision one.\<close>

theorem redaction_revision_tracks_value:
  assumes "distinct (map fst vs)" and "distinct (map fst ws)"
    and "(k, v) \<in> set vs" and "(k, v') \<in> set ws"
    and "\<lparr>rd_Path = k, rd_Rev = n\<rparr> \<in> set (snd (observeRedactions revs uid vs))"
    and "\<lparr>rd_Path = k, rd_Rev = m\<rparr> \<in> set (snd (observeRedactions (fst (observeRedactions revs uid vs)) uid ws))"
  shows "m = (if DeepEqual v v' then n else n + 1) \<and> (m = n \<longleftrightarrow> DeepEqual v v') \<and>
    (revs_of revs uid k = None \<longrightarrow> n = 1)"
proof -
  let ?st = "next_redaction (revs_of revs uid) (k, v)"
  have n: "n = rs_rev ?st"
    using assms(1,3,5) by (auto simp: observeRedactions_out dest: eq_key_imp_eq_value)
  have m: "m = rs_rev (next_redaction (revs_of (fst (observeRedactions revs uid vs)) uid) (k, v'))"
    using assms(2,4,6) by (auto simp: observeRedactions_out dest: eq_key_imp_eq_value)
  have "revs_of (fst (observeRedactions revs uid vs)) uid k = Some ?st"
    using assms(1,3) by (simp add: observeRedactions_state)
  then have "m = rs_rev (if DeepEqual (rs_value ?st) v' then ?st
      else ?st\<lparr>rs_value := v', rs_rev := rs_rev ?st + 1\<rparr>)"
    using m by (simp add: next_redaction_def)
  moreover have "DeepEqual (rs_value ?st) v' \<longleftrightarrow> DeepEqual v v'"
    using next_redaction_value [of "revs_of revs uid" "(k, v)"] by (simp add: DeepEqual_def)
  moreover have "revs_of revs uid k = None \<Longrightarrow> n = 1" using n by (simp add: next_redaction_def)
  ultimately show ?thesis using n by auto
qed

theorem redaction_revision_tracks_value_witness:
  "\<lparr>rd_Path = ''/data/c'', rd_Rev = 2\<rparr> \<in> set (snd (observeRedactions (fst (observeRedactions Map.empty ''u''
      [(''/data/c'', JStr ''x'')])) ''u'' [(''/data/c'', JStr ''y'')])) \<and> (2 :: 64 word) = 1 + 1"
proof -
  let ?m = "observeRedactions (fst (observeRedactions Map.empty ''u'' [(''/data/c'', JStr ''x'')])) ''u'' [(''/data/c'', JStr ''y'')]"
  have a: "\<lparr>rd_Path = ''/data/c'', rd_Rev = 1\<rparr> \<in> set (snd (observeRedactions Map.empty ''u'' [(''/data/c'', JStr ''x'')]))"
    by (simp add: observeRedactions_out next_redaction_def revs_of_def)
  have b: "\<lparr>rd_Path = ''/data/c'', rd_Rev = rd_Rev (hd (snd ?m))\<rparr> \<in> set (snd ?m)"
    by (simp add: observeRedactions_out)
  have "\<not> DeepEqual (JStr ''x'') (JStr ''y'')" by code_simp
  then have "rd_Rev (hd (snd ?m)) = 1 + 1"
    using redaction_revision_tracks_value [OF _ _ _ _ a b, of "JStr ''x''" "JStr ''y''"] by simp
  then show ?thesis using b by simp
qed

end
