(* ===== verification/Convergence.thy ===== *)
theory Convergence
  imports Cycle
begin

text \<open>
  What a consumer ends up with.  The consumer of the protocol is the reducer that the event
  vocabulary prescribes (reset marks everything unseen, an object event replaces, a deletion
  removes, synced prunes what is still unseen).  The specification is the upstream's own
  view of the scope, the newest state of every object.  The refinement says that after any
  cycle that is still running, the consumer's store is the projection of that view, although
  the gateway drops stale replays and suppresses updates whose visible part did not change.
\<close>

section \<open>The consumer and the upstream view\<close>

record consumer =
  cn_store :: "string \<rightharpoonup> KRMObject \<times> Redaction list"
  cn_seen :: "string \<Rightarrow> bool"

definition redactions :: "Event \<Rightarrow> Redaction list" where
  "redactions e = (case ev_Redacted e of None \<Rightarrow> [] | Some rs \<Rightarrow> rs)"

definition consume :: "Event \<Rightarrow> consumer \<Rightarrow> consumer" where
  "consume e c =
     (case ev_Type e of
        EventReset \<Rightarrow> c\<lparr>cn_seen := (\<lambda>_. False)\<rparr>
      | EventAdded \<Rightarrow> (let u = UID (ev_Object e) in
          \<lparr>cn_store = (cn_store c)(u \<mapsto> (ev_Object e, redactions e)), cn_seen = (cn_seen c)(u := True)\<rparr>)
      | EventModified \<Rightarrow> (let u = UID (ev_Object e) in
          \<lparr>cn_store = (cn_store c)(u \<mapsto> (ev_Object e, redactions e)), cn_seen = (cn_seen c)(u := True)\<rparr>)
      | EventDeleted \<Rightarrow>
          (case ev_Identity e of
             None \<Rightarrow> c
           | Some i \<Rightarrow> \<lparr>cn_store = (cn_store c)(id_UID i := None), cn_seen = (cn_seen c)(id_UID i := False)\<rparr>)
      | EventSynced \<Rightarrow> c\<lparr>cn_store := (\<lambda>u. if cn_seen c u then cn_store c u else None)\<rparr>
      | EventError \<Rightarrow> c)"

text \<open>The upstream's view: an event applies unless a newer version of its object is known.\<close>

definition applies :: "(string \<rightharpoonup> KRMObject) \<Rightarrow> KRMObject \<Rightarrow> bool" where
  "applies srv o' \<longleftrightarrow>
     (case srv (UID o') of
        None \<Rightarrow> True
      | Some old \<Rightarrow> dec_val (resourceVersionOf old) \<le> dec_val (resourceVersionOf o'))"

definition server_step :: "NextResult \<Rightarrow> (string \<rightharpoonup> KRMObject) \<Rightarrow> (string \<rightharpoonup> KRMObject)" where
  "server_step r srv =
     (case r of
        NextErr _ \<Rightarrow> srv
      | NextEvent ev \<Rightarrow>
          (let o' = we_Object ev in
           if we_Type ev \<in> {WatchAdded, WatchModified} \<and> applies srv o' then srv(UID o' \<mapsto> o')
           else if we_Type ev = WatchDeleted \<and> applies srv o' then srv(UID o' := None)
           else srv))"

text \<open>What the digest compares: the object without its resource version, and the redactions.\<close>

definition view_json :: "KRMObject \<Rightarrow> Redaction list \<Rightarrow> json" where
  "view_json o' rs = JObj [(''object'', canon (JObj (drop_resourceVersion o'))), (''redacted'', JArr (map Redaction_json rs))]"

definition displays :: "cycle_env \<Rightarrow> KRMObject \<times> Redaction list \<Rightarrow> KRMObject \<Rightarrow> bool" where
  "displays g held o' \<longleftrightarrow>
     DeepEqual (JObj (drop_resourceVersion (fst held))) (JObj (drop_resourceVersion (fst (project (ce_projection g) o')))) \<and>
     map rd_Path (snd held) = map fst (snd (project (ce_projection g) o'))"

text \<open>The byte strings a run hashes, in order.\<close>

definition hashed :: "cycle_env \<Rightarrow> NextResult \<Rightarrow> revisions \<Rightarrow> string list" where
  "hashed g r revs =
     (case r of
        NextErr _ \<Rightarrow> []
      | NextEvent ev \<Rightarrow>
          if we_Type ev \<in> {WatchAdded, WatchModified} then [enc (visible_view (candidate g ev revs))] else [])"

fun hashed_views :: "cycle_env \<Rightarrow> NextResult list \<Rightarrow> marks \<Rightarrow> revisions \<Rightarrow> string list" where
  "hashed_views g [] mk revs = []"
| "hashed_views g (r # rs) mk revs =
     hashed g r revs @
     (case plan_turn g r mk revs of
        Stop err \<Rightarrow> []
      | Quiet mk' revs' obs \<Rightarrow> hashed_views g rs mk' revs'
      | Send ev mk' revs0 revs' \<Rightarrow> hashed_views g rs mk' revs')"

definition decoded :: "NextResult \<Rightarrow> bool" where
  "decoded r \<longleftrightarrow> (case r of NextErr _ \<Rightarrow> True | NextEvent ev \<Rightarrow> nums_ok (JObj (we_Object ev)))"

section \<open>The simulation\<close>

type_synonym pure_state = "(marks \<times> revisions \<times> Event list) option"

definition pure_step :: "cycle_env \<Rightarrow> NextResult \<Rightarrow> pure_state \<Rightarrow> pure_state" where
  "pure_step g r s =
     (case s of
        None \<Rightarrow> None
      | Some (mk, revs, es) \<Rightarrow>
          (case plan_turn g r mk revs of
             Stop err \<Rightarrow> None
           | Quiet mk' revs' obs \<Rightarrow> Some (mk', revs', es)
           | Send ev mk' revs0 revs' \<Rightarrow> Some (mk', revs', es @ [ev])))"

definition step_ok :: "cycle_env \<Rightarrow> string set \<Rightarrow> NextResult \<Rightarrow> pure_state \<Rightarrow> bool" where
  "step_ok g B r s \<longleftrightarrow>
     ce_ordering g = OrderingStrict \<and> inj_on (ce_sha g) B \<and> (\<forall>b. ce_sha g b \<noteq> []) \<and> decoded r \<and>
     (case s of
        None \<Rightarrow> False
      | Some (mk, revs, es) \<Rightarrow> set (hashed g r revs) \<subseteq> B \<and> (\<forall>err. plan_turn g r mk revs \<noteq> Stop err))"

definition held_ok :: "cycle_env \<Rightarrow> string set \<Rightarrow> marks \<Rightarrow> consumer \<Rightarrow> string \<Rightarrow> KRMObject \<Rightarrow> bool" where
  "held_ok g B mk c u o' \<longleftrightarrow>
     (\<exists>obj red. cn_store c u = Some (obj, red) \<and> displays g (obj, red) o' \<and> nums_ok (JObj obj) \<and>
        enc (view_json obj red) \<in> B \<and>
        mk_digests mk u = Some (hex_EncodeToString (ce_sha g (enc (view_json obj red)))))"

definition refines :: "cycle_env \<Rightarrow> string set \<Rightarrow> consumer \<Rightarrow> pure_state \<Rightarrow> (string \<rightharpoonup> KRMObject) \<Rightarrow> bool" where
  "refines g B c0 s srv \<longleftrightarrow>
     (case s of
        None \<Rightarrow> False
      | Some (mk, revs, es) \<Rightarrow>
          (let c = fold consume es c0 in
           marks_ok (mk_emitted mk) \<and>
           (\<forall>u. mk_emitted mk u = map_option resourceVersionOf (srv u)) \<and>
           (\<forall>u. cn_seen c u \<longleftrightarrow> srv u \<noteq> None) \<and>
           (\<forall>u. srv u = None \<longrightarrow> mk_digests mk u = None) \<and>
           (\<forall>u o'. srv u = Some o' \<longrightarrow> held_ok g B mk c u o') \<and>
           (EventSynced \<in> ev_Type ` set es \<longrightarrow> (\<forall>u. cn_store c u \<noteq> None \<longrightarrow> cn_seen c u))))"

section \<open>Lemmas\<close>

lemma hex_pair_inj:
  "[hex_digit (of_char a div 16), hex_digit (of_char a mod 16)] = [hex_digit (of_char b div 16), hex_digit (of_char b mod 16)] \<Longrightarrow> a = b"
proof -
  assume "[hex_digit (of_char a div 16), hex_digit (of_char a mod 16)] = [hex_digit (of_char b div 16), hex_digit (of_char b mod 16)]"
  moreover have "(of_char c :: nat) div 16 < 16" "(of_char c :: nat) mod 16 < 16" for c :: char
    by (simp_all add: less_mult_imp_div_less)
  ultimately have "(of_char a :: nat) div 16 = of_char b div 16" "(of_char a :: nat) mod 16 = of_char b mod 16"
    by (metis hex_val_digit list.inject)+
  then show "a = b" by (metis div_mult_mod_eq of_char_eq_iff)
qed

lemma hex_inj [simp]: "hex_EncodeToString a = hex_EncodeToString b \<longleftrightarrow> a = b"
proof
  show "hex_EncodeToString a = hex_EncodeToString b \<Longrightarrow> a = b"
  proof (induction a arbitrary: b)
    case (Cons x a)
    then obtain y b' where b: "b = y # b'" by (cases b) (auto simp: hex_EncodeToString_def)
    have "x = y" by (rule hex_pair_inj) (use Cons.prems in \<open>simp add: b hex_EncodeToString_def\<close>)
    moreover have "a = b'" by (rule Cons.IH) (use Cons.prems in \<open>simp add: b hex_EncodeToString_def\<close>)
    ultimately show ?case by (simp add: b)
  qed (simp add: hex_EncodeToString_def)
qed simp

lemma visible_view_json: "ev_Redacted e = Some rs \<Longrightarrow> visible_view e = view_json (ev_Object e) rs"
  by (simp add: visible_view_def view_json_def)

lemma redactions_candidate:
  "ev_Redacted (candidate g ev revs) = Some (redactions (candidate g ev revs))"
  by (simp add: redactions_def)

lemma candidate_paths: "map rd_Path (redactions (candidate g ev revs)) = map fst (snd (project (ce_projection g) (we_Object ev)))"
  by (simp add: redactions_def observeRedactions_out)

lemma candidate_displays: "displays g (ev_Object (candidate g ev revs), redactions (candidate g ev revs)) (we_Object ev)"
  using candidate_paths [of g ev revs] by (simp add: displays_def DeepEqual_def)

subsection \<open>The hashed text determines the view\<close>

lemma nums_ok_delete: "nums_ok (JObj m) \<Longrightarrow> nums_ok (JObj (map_delete k m))"
  using set_map_delete_subset [of k m] by (auto simp: list_all_iff)

lemma nums_ok_put: "nums_ok (JObj m) \<Longrightarrow> nums_ok v \<Longrightarrow> nums_ok (JObj (map_put k v m))"
  using set_map_put_subset [of k v m] by (auto simp: list_all_iff)

lemma nums_ok_field: "nums_ok (JObj m) \<Longrightarrow> obj_field m k = Some n \<Longrightarrow> nums_ok (JObj n)"
  using map_of_SomeD [of m k "JObj n"] by (force simp: obj_field_Some list_all_iff)


lemma nums_ok_clean: "nums_ok (JObj m) \<Longrightarrow> nums_ok (JObj (clean_annotations m))"
  by (auto simp: clean_annotations_def Let_def simp del: nums_ok.simps split: option.split
      intro: nums_ok_delete nums_ok_put nums_ok_field)

lemma nums_ok_machinery: "nums_ok (JObj m) \<Longrightarrow> nums_ok (JObj (remove_machinery m))"
  unfolding remove_machinery_alt
  by (auto simp del: nums_ok.simps split: option.split
      intro: nums_ok_delete nums_ok_put nums_ok_clean nums_ok_field)

lemma nums_ok_drop_filled: "nums_ok (JObj m) \<Longrightarrow> nums_ok (JObj (drop_filled f m))"
  unfolding drop_filled_def
  by (auto simp del: nums_ok.simps split: option.split list.split intro: nums_ok_delete)

lemma nums_ok_project:
  assumes "nums_ok (JObj o')"
  shows "nums_ok (JObj (fst (project p o')))"
proof -
  have a: "nums_ok (JObj (remove_machinery o'))" using assms by (rule nums_ok_machinery)
  then have "nums_ok (JObj (redact_secret (remove_machinery o')))"
    unfolding redact_secret_def by (intro nums_ok_drop_filled)
  with a have "nums_ok (JObj (if redacts p o' then redact_secret (remove_machinery o') else remove_machinery o'))"
    by presburger
  then show ?thesis using nums_ok_delete unfolding project_fst Let_def by presburger
qed

lemma nums_ok_drop_rv: "nums_ok (JObj o') \<Longrightarrow> nums_ok (JObj (drop_resourceVersion o'))"
  by (auto simp: drop_resourceVersion_def Let_def simp del: nums_ok.simps split: option.split
      intro: nums_ok_put nums_ok_delete nums_ok_field)

lemma nums_ok_Redaction [simp]: "nums_ok (Redaction_json r)"
  by (simp add: Redaction_json_def)

lemma nums_ok_view: "nums_ok (JObj o') \<Longrightarrow> nums_ok (view_json o' rs)"
  using nums_ok_drop_rv [of o'] nums_ok_canon [of "JObj (drop_resourceVersion o')"]
  by (simp add: view_json_def list_all_iff del: canon.simps)

lemma view_text_inj:
  assumes "nums_ok (JObj a)" and "nums_ok (JObj b)" and "enc (view_json a rs) = enc (view_json b ss)"
  shows "DeepEqual (JObj (drop_resourceVersion a)) (JObj (drop_resourceVersion b)) \<and> map rd_Path rs = map rd_Path ss"
proof -
  have "view_json a rs = view_json b ss"
    using enc_inj [OF nums_ok_view [OF assms(1)] nums_ok_view [OF assms(2)], of "[]" "[]"] assms(3)
    by (simp add: delim_def)
  then have v: "canon (JObj (drop_resourceVersion a)) = canon (JObj (drop_resourceVersion b))"
    and r: "map Redaction_json rs = map Redaction_json ss" by (simp_all add: view_json_def del: canon.simps)
  have "map rd_Path rs = map (\<lambda>j. case j of JObj ((_, JStr s) # _) \<Rightarrow> s | _ \<Rightarrow> []) (map Redaction_json rs)" for rs
    by (simp add: Redaction_json_def)
  then have "map rd_Path rs = map rd_Path ss" using r by metis
  then show ?thesis using v by (simp add: DeepEqual_def del: canon.simps)
qed

subsection \<open>One turn\<close>

lemma consume_object:
  "ev_Type e = EventAdded \<or> ev_Type e = EventModified \<Longrightarrow>
     consume e c = \<lparr>cn_store = (cn_store c)(UID (ev_Object e) \<mapsto> (ev_Object e, redactions e)),
                    cn_seen = (cn_seen c)(UID (ev_Object e) := True)\<rparr>"
  by (auto simp: consume_def Let_def)

lemma stale_applies:
  assumes "marks_ok emitted" and "\<forall>u. emitted u = map_option resourceVersionOf (srv u)"
    and "isStale OrderingStrict emitted (UID o') o' = Inr (stale, emitted')"
  shows "stale \<longleftrightarrow> \<not> applies srv o'"
    and "\<not> stale \<Longrightarrow> isDecimalResourceVersion (resourceVersionOf o') \<and> emitted' = emitted(UID o' \<mapsto> resourceVersionOf o')"
    and "stale \<Longrightarrow> emitted' = emitted"
  using assms(3) assms(2) unfolding isStale_strict [OF assms(1)] Let_def applies_def
  by (auto simp: mark_num_def split: if_splits option.splits)

lemma held_ok_other:
  "u \<noteq> v \<Longrightarrow> mk_digests mk' = (mk_digests mk)(v := x) \<Longrightarrow> cn_store c' = (cn_store c)(v := y) \<Longrightarrow>
     held_ok g B mk' c' u o' \<longleftrightarrow> held_ok g B mk c u o'"
  by (simp add: held_ok_def)

lemma held_ok_digests: "mk_digests mk' = mk_digests mk \<Longrightarrow> held_ok g B mk' c u o' = held_ok g B mk c u o'"
  by (simp add: held_ok_def)

text \<open>A suppressed update shows the consumer nothing it does not hold already.\<close>

lemma suppressed_shows:
  assumes "inj_on (ce_sha g) B" and "\<forall>b. ce_sha g b \<noteq> []" and "nums_ok (JObj (we_Object ev))"
    and held: "mk_digests mk u \<noteq> None \<Longrightarrow> held_ok g B mk c u old"
    and dig: "(case mk_digests mk u of None \<Rightarrow> [] | Some d \<Rightarrow> d) = visibleDigest (ce_sha g) (candidate g ev revs)"
    and B: "enc (visible_view (candidate g ev revs)) \<in> B"
  shows "held_ok g B mk c u (we_Object ev)"
proof -
  let ?e = "candidate g ev revs"
  have vis: "visible_view ?e = view_json (ev_Object ?e) (redactions ?e)"
    by (rule visible_view_json [OF redactions_candidate])
  have "mk_digests mk u \<noteq> None" using dig assms(2) hex_Nil by (metis option.case(1) visibleDigest_def)
  from held [OF this] obtain obj red where h: "cn_store c u = Some (obj, red)" "nums_ok (JObj obj)"
    "enc (view_json obj red) \<in> B" "mk_digests mk u = Some (hex_EncodeToString (ce_sha g (enc (view_json obj red))))"
    unfolding held_ok_def by blast
  have "ce_sha g (enc (view_json obj red)) = ce_sha g (enc (visible_view ?e))"
    using dig h(4) by (simp add: visibleDigest_def)
  then have "enc (view_json obj red) = enc (visible_view ?e)" using assms(1) h(3) B by (meson inj_onD)
  then have "displays g (obj, red) (we_Object ev)"
    using view_text_inj [OF h(2) nums_ok_project [OF assms(3)], of red "ce_projection g" "redactions ?e"] candidate_paths [of g ev revs]
    by (simp add: vis displays_def)
  then show ?thesis using h unfolding held_ok_def by blast
qed


text \<open>The relation on an explicit state.\<close>

definition related :: "cycle_env \<Rightarrow> string set \<Rightarrow> marks \<Rightarrow> consumer \<Rightarrow> (string \<rightharpoonup> KRMObject) \<Rightarrow> bool" where
  "related g B mk c srv \<longleftrightarrow>
     marks_ok (mk_emitted mk) \<and> (\<forall>u. mk_emitted mk u = map_option resourceVersionOf (srv u)) \<and>
     (\<forall>u. cn_seen c u \<longleftrightarrow> srv u \<noteq> None) \<and> (\<forall>u. srv u = None \<longrightarrow> mk_digests mk u = None) \<and>
     (\<forall>u o'. srv u = Some o' \<longrightarrow> held_ok g B mk c u o')"

definition no_ghosts :: "consumer \<Rightarrow> bool" where
  "no_ghosts c \<longleftrightarrow> (\<forall>u. cn_store c u \<noteq> None \<longrightarrow> cn_seen c u)"

lemma refines_Some:
  "refines g B c0 (Some (mk, revs, es)) srv \<longleftrightarrow>
     related g B mk (fold consume es c0) srv \<and>
     (EventSynced \<in> ev_Type ` set es \<longrightarrow> no_ghosts (fold consume es c0))"
  by (auto simp: refines_def related_def no_ghosts_def Let_def)

lemma related_quiet_object:
  assumes rel: "related g B mk c srv" and strict: "ce_ordering g = OrderingStrict"
    and sha: "inj_on (ce_sha g) B" "\<forall>b. ce_sha g b \<noteq> []"
    and ev: "we_Type ev = WatchAdded \<or> we_Type ev = WatchModified" "nums_ok (JObj (we_Object ev))"
    and B: "enc (visible_view (candidate g ev revs)) \<in> B"
    and plan: "plan_object g ev mk revs = Quiet mk' a obs"
  shows "related g B mk' c (server_step (NextEvent ev) srv)"
proof -
  let ?o = "we_Object ev" let ?u = "UID ?o"
  obtain stale emitted where st: "isStale OrderingStrict (mk_emitted mk) ?u ?o = Inr (stale, emitted)"
    and mk': "mk' = mk\<lparr>mk_emitted := emitted\<rparr>"
    and dig: "\<not> stale \<Longrightarrow> (case mk_digests mk ?u of None \<Rightarrow> [] | Some d \<Rightarrow> d) = visibleDigest (ce_sha g) (candidate g ev revs)"
    using plan_object_Quiet(2) [OF plan] strict by (auto split: if_splits)
  have ok: "marks_ok (mk_emitted mk)" "\<forall>u. mk_emitted mk u = map_option resourceVersionOf (srv u)"
    using rel by (auto simp: related_def)
  note ap = stale_applies [OF ok st]
  show ?thesis
  proof (cases stale)
    case True
    then have "server_step (NextEvent ev) srv = srv" using ap(1) ev(1) by (auto simp: server_step_def Let_def)
    then show ?thesis using rel mk' ap(3) True by simp
  next
    case False
    have step: "server_step (NextEvent ev) srv = srv(?u \<mapsto> ?o)" using ap(1) False ev(1) by (auto simp: server_step_def Let_def)
    have held: "held_ok g B mk c ?u ?o"
    proof (rule suppressed_shows [OF sha ev(2) _ dig B])
      assume "mk_digests mk ?u \<noteq> None"
      then obtain old where "srv ?u = Some old" using rel by (cases "srv ?u") (auto simp: related_def)
      then show "held_ok g B mk c ?u (the (srv ?u))" using rel by (auto simp: related_def)
    qed (rule False)
    have dnone: "mk_digests mk ?u \<noteq> None" using held by (auto simp: held_ok_def)
    then have "srv ?u \<noteq> None" using rel by (auto simp: related_def)
    moreover have "marks_ok emitted" using isStale_marks_ok [OF ok(1) st] .
    ultimately show ?thesis using rel ap(2) [OF False] held mk'
      unfolding step related_def by (auto simp: held_ok_def)
  qed
qed

lemma related_send_object:
  assumes rel: "related g B mk c srv" and strict: "ce_ordering g = OrderingStrict"
    and ev: "we_Type ev = WatchAdded \<or> we_Type ev = WatchModified" "nums_ok (JObj (we_Object ev))"
    and B: "enc (visible_view (candidate g ev revs)) \<in> B"
    and plan: "plan_object g ev mk revs = Send e mk' a b"
  shows "related g B mk' (consume e c) (server_step (NextEvent ev) srv) \<and> (no_ghosts c \<longrightarrow> no_ghosts (consume e c))"
proof -
  let ?o = "we_Object ev" let ?u = "UID ?o"
  have e: "e = candidate g ev revs" by (rule plan_object_Send(2) [OF plan])
  obtain emitted where st: "isStale OrderingStrict (mk_emitted mk) ?u ?o = Inr (False, emitted)"
    and mk': "mk' = \<lparr>mk_emitted = emitted, mk_digests = (mk_digests mk)(?u \<mapsto> visibleDigest (ce_sha g) e)\<rparr>"
    using plan_object_Send(5) [OF plan] strict by auto
  have ok: "marks_ok (mk_emitted mk)" "\<forall>u. mk_emitted mk u = map_option resourceVersionOf (srv u)"
    using rel by (auto simp: related_def)
  note ap = stale_applies [OF ok st]
  have step: "server_step (NextEvent ev) srv = srv(?u \<mapsto> ?o)" using ap(1) ev(1) by (auto simp: server_step_def Let_def)
  have c: "consume e c = \<lparr>cn_store = (cn_store c)(?u \<mapsto> (ev_Object e, redactions e)), cn_seen = (cn_seen c)(?u := True)\<rparr>"
    by (subst consume_object) (auto simp: e)
  have vis: "visible_view e = view_json (ev_Object e) (redactions e)"
    unfolding e by (rule visible_view_json [OF redactions_candidate])
  have "held_ok g B mk' (consume e c) ?u ?o"
    unfolding held_ok_def c using B candidate_displays [of g ev revs] nums_ok_project [OF ev(2)] vis
    by (simp add: mk' e visibleDigest_def)
  moreover have "held_ok g B mk' (consume e c) u o' = held_ok g B mk c u o'" if "u \<noteq> ?u" for u o'
    by (rule held_ok_other [OF that]) (simp_all add: mk' c)
  ultimately show ?thesis
    using rel ap(2) isStale_marks_ok [OF ok(1) st] unfolding step related_def no_ghosts_def
    by (auto simp: c mk')
qed

lemma related_deleted:
  assumes rel: "related g B mk c srv" and strict: "ce_ordering g = OrderingStrict" and ty: "we_Type ev = WatchDeleted"
  shows "plan_deleted g ev mk revs = Quiet mk' a obs \<Longrightarrow> related g B mk' c (server_step (NextEvent ev) srv)"
    and "plan_deleted g ev mk revs = Send e mk' a b \<Longrightarrow>
      related g B mk' (consume e c) (server_step (NextEvent ev) srv) \<and> (no_ghosts c \<longrightarrow> no_ghosts (consume e c))"
proof -
  have ok: "marks_ok (mk_emitted mk)" "\<forall>u. mk_emitted mk u = map_option resourceVersionOf (srv u)"
    using rel by (auto simp: related_def)
  {
    assume "plan_deleted g ev mk revs = Quiet mk' a obs"
    then obtain i emitted where i: "identityOf (we_Object ev) = Some i"
      and st: "isStale OrderingStrict (mk_emitted mk) (id_UID i) (we_Object ev) = Inr (True, emitted)"
      and mk': "mk' = mk\<lparr>mk_emitted := emitted\<rparr>"
      using plan_deleted_Quiet strict by fastforce
    note ap = stale_applies [OF ok st [unfolded identityOf_UID [OF i, THEN conjunct1]]]
    have "server_step (NextEvent ev) srv = srv" using ap(1) ty by (simp add: server_step_def Let_def)
    then show "related g B mk' c (server_step (NextEvent ev) srv)" using rel mk' ap(3) by simp
  next
    assume "plan_deleted g ev mk revs = Send e mk' a b"
    then obtain i emitted where i: "identityOf (we_Object ev) = Some i" and e: "e = (event_of EventDeleted)\<lparr>ev_Identity := Some i\<rparr>"
      and st: "isStale OrderingStrict (mk_emitted mk) (id_UID i) (we_Object ev) = Inr (False, emitted)"
      and mk': "mk' = \<lparr>mk_emitted = emitted(id_UID i := None), mk_digests = (mk_digests mk)(id_UID i := None)\<rparr>"
      using plan_deleted_Send strict by fastforce
    have u: "id_UID i = UID (we_Object ev)" using identityOf_UID [OF i] by simp
    note ap = stale_applies [OF ok st [unfolded u]]
    have step: "server_step (NextEvent ev) srv = srv(id_UID i := None)" using ap(1) ty u by (simp add: server_step_def Let_def)
    have c: "consume e c = \<lparr>cn_store = (cn_store c)(id_UID i := None), cn_seen = (cn_seen c)(id_UID i := False)\<rparr>"
      by (simp add: consume_def e)
    have "held_ok g B mk' (consume e c) v o' = held_ok g B mk c v o'" if "v \<noteq> id_UID i" for v o'
      by (rule held_ok_other [OF that]) (simp_all add: mk' c)
    then show "related g B mk' (consume e c) (server_step (NextEvent ev) srv) \<and> (no_ghosts c \<longrightarrow> no_ghosts (consume e c))"
      using rel ap(2) u isStale_marks_ok [OF ok(1) st] unfolding step related_def no_ghosts_def marks_ok_def
      by (auto simp: c mk')
  }
qed

lemma related_synced:
  assumes "related g B mk c srv"
  shows "related g B mk (consume (event_of EventSynced) c) srv \<and> no_ghosts (consume (event_of EventSynced) c)"
  using assms by (auto simp: related_def no_ghosts_def consume_def held_ok_def)


lemma refines_step:
  assumes "refines g B c0 s srv" and "step_ok g B r s"
  shows "refines g B c0 (pure_step g r s) (server_step r srv)"
proof -
  obtain mk revs es where s: "s = Some (mk, revs, es)" using assms(2) by (auto simp: step_ok_def split: option.splits)
  let ?c = "fold consume es c0"
  have rel: "related g B mk ?c srv" and gh: "EventSynced \<in> ev_Type ` set es \<Longrightarrow> no_ghosts ?c"
    using assms(1) by (auto simp: s refines_Some)
  have strict: "ce_ordering g = OrderingStrict" and sha: "inj_on (ce_sha g) B" "\<forall>b. ce_sha g b \<noteq> []"
    and dec: "decoded r" and B: "set (hashed g r revs) \<subseteq> B" and go: "\<And>err. plan_turn g r mk revs \<noteq> Stop err"
    using assms(2) by (auto simp: step_ok_def s)
  show ?thesis
  proof (cases "plan_turn g r mk revs")
    case (Stop err)
    then show ?thesis using go by simp
  next
    case (Quiet mk' a obs)
    then have "related g B mk' ?c (server_step r srv)"
    proof (cases rule: plan_turn_QuietE)
      case (silent ev)
      then show ?thesis using rel by (auto simp: server_step_def)
    next
      case (object ev)
      then show ?thesis using related_quiet_object [OF rel strict sha object(2) _ _ object(3)] dec B
        by (auto simp: decoded_def hashed_def)
    next
      case (deleted ev)
      then show ?thesis using related_deleted(1) [OF rel strict deleted(2) deleted(3)] by simp
    qed
    then show ?thesis using gh by (simp add: pure_step_def s Quiet refines_Some)
  next
    case (Send e mk' a b)
    then have "related g B mk' (consume e ?c) (server_step r srv) \<and>
      (no_ghosts ?c \<or> ev_Type e = EventSynced \<longrightarrow> no_ghosts (consume e ?c))"
    proof (cases rule: plan_turn_SendE)
      case (synced ev)
      then have "server_step r srv = srv" by (simp add: server_step_def)
      then show ?thesis using related_synced [OF rel] synced by simp
    next
      case (object ev)
      then have "ev_Type e \<noteq> EventSynced" using plan_object_Send(2) by fastforce
      then show ?thesis using related_send_object [OF rel strict object(2) _ _ object(3)] dec B object
        by (auto simp: decoded_def hashed_def)
    next
      case (deleted ev)
      then have "ev_Type e \<noteq> EventSynced" using plan_deleted_Send [OF deleted(3)] by auto
      then show ?thesis using related_deleted(2) [OF rel strict deleted(2) deleted(3)] deleted(1) by simp
    qed
    then show ?thesis using gh by (auto simp: pure_step_def s Send refines_Some)
  qed
qed

interpretation convergence: simulation "pure_step g" server_step "step_ok g B" "refines g B c0" for g B c0
  by unfold_locales (rule refines_step)

subsection \<open>Whole runs\<close>

lemma pure_step_Some:
  "pure_step g r (Some (mk, revs, es)) =
     (case plan_turn g r mk revs of
        Stop err \<Rightarrow> None
      | Quiet mk' revs' obs \<Rightarrow> Some (mk', revs', es)
      | Send ev mk' revs0 revs' \<Rightarrow> Some (mk', revs', es @ [ev]))"
  by (simp add: pure_step_def)

lemma step_ok_Some:
  "step_ok g B r (Some (mk, revs, es)) \<longleftrightarrow>
     ce_ordering g = OrderingStrict \<and> inj_on (ce_sha g) B \<and> (\<forall>b. ce_sha g b \<noteq> []) \<and> decoded r \<and>
     set (hashed g r revs) \<subseteq> B \<and> (\<forall>err. plan_turn g r mk revs \<noteq> Stop err)"
  by (simp add: step_ok_def)

lemma pure_run_fold:
  "pure_run g rs mk revs = Some (mk', revs', es) \<Longrightarrow>
     fold (pure_step g) rs (Some (mk, revs, es0)) = Some (mk', revs', es0 @ es)"
proof (induction rs arbitrary: mk revs es0 es)
  case (Cons r rs)
  then show ?case by (cases "plan_turn g r mk revs") (auto simp: pure_step_def split: option.splits)
qed simp

lemma pure_run_ok:
  assumes "ce_ordering g = OrderingStrict" and "inj_on (ce_sha g) B" and "\<forall>b. ce_sha g b \<noteq> []"
  shows "pure_run g rs mk revs = Some (mk', revs', es) \<Longrightarrow> list_all decoded rs \<Longrightarrow>
     set (hashed_views g rs mk revs) \<subseteq> B \<Longrightarrow> all_ok (step_ok g B) (pure_step g) rs (Some (mk, revs, es0))"
proof (induction rs arbitrary: mk revs es0 es)
  case (Cons r rs)
  then show ?case using assms
    by (cases "plan_turn g r mk revs") (auto simp: pure_step_Some step_ok_Some split: option.splits)
qed simp

lemma converges:
  assumes "pure_run g rs no_marks revs = Some (mk', revs', es)" and "list_all decoded rs"
    and "ce_ordering g = OrderingStrict" and "\<forall>b. ce_sha g b \<noteq> []"
    and "inj_on (ce_sha g) (set (hashed_views g rs no_marks revs))" and "\<And>u. \<not> cn_seen c0 u"
  shows "related g (set (hashed_views g rs no_marks revs)) mk' (fold consume es c0) (fold server_step rs Map.empty) \<and>
    (EventSynced \<in> ev_Type ` set es \<longrightarrow> no_ghosts (fold consume es c0))"
proof -
  let ?B = "set (hashed_views g rs no_marks revs)"
  have "refines g ?B c0 (Some (no_marks, revs, [])) Map.empty"
    using assms(6) by (auto simp: refines_Some related_def no_marks_def marks_ok_def)
  moreover have "all_ok (step_ok g ?B) (pure_step g) rs (Some (no_marks, revs, []))"
    by (rule pure_run_ok [OF assms(3,5,4) assms(1,2)]) simp
  ultimately have "refines g ?B c0 (fold (pure_step g) rs (Some (no_marks, revs, []))) (fold server_step rs Map.empty)"
    by (rule convergence.sim_run)
  then show ?thesis using pure_run_fold [OF assms(1), of "[]"] by (simp add: refines_Some)
qed

definition is_boundary :: "NextResult \<Rightarrow> bool" where
  "is_boundary r \<longleftrightarrow> (case r of NextErr _ \<Rightarrow> False | NextEvent ev \<Rightarrow> we_Type ev = WatchBookmark \<and> we_InitialEventsEnd ev)"

lemma boundary_synced:
  "pure_run g rs mk revs = Some (mk', revs', es) \<Longrightarrow> list_ex is_boundary rs \<Longrightarrow> EventSynced \<in> ev_Type ` set es"
proof (induction rs arbitrary: mk revs es)
  case (Cons r rs)
  show ?case
  proof (cases "is_boundary r")
    case True
    then have "\<exists>b. plan_turn g r mk revs = Send (event_of EventSynced) mk revs b"
      by (auto simp: is_boundary_def plan_turn_def split: NextResult.splits)
    then show ?thesis using Cons.prems by (force split: option.splits)
  next
    case False
    then show ?thesis using Cons by (cases "plan_turn g r mk revs") (force split: option.splits)+
  qed
qed simp

text \<open>A cycle still waiting in \<open>Next\<close> has delivered the reset and then its whole run.\<close>

lemma cycle_continue:
  assumes "sink emit delivered" and "cycle g emit (Inr rs) w = Continue mk' w'"
  shows "\<exists>es. pure_run g rs no_marks (wd_revisions w) = Some (mk', wd_revisions w', es) \<and>
    delivered (wd_sink w') = delivered (wd_sink w) @ reset_event g # es"
proof -
  let ?w = "w\<lparr>wd_opened := Suc (wd_opened w)\<rparr>"
  obtain q s where qs: "emit (reset_event g) (wd_sink w) = (q, s)" by (cases "emit (reset_event g) (wd_sink w)")
  then have q: "q = None" using assms(2)
    by (cases q) (simp_all add: cycle_def Let_def world_Emit_def reset_event_def [symmetric] stop_watch_def)
  then have "stop_watch (cycle_loop g emit rs no_marks (observe (emitted_obs g EventReset) (?w\<lparr>wd_sink := s\<rparr>))) = Continue mk' w'"
    using assms(2) qs by (simp add: cycle_def Let_def world_Emit_def reset_event_def [symmetric])
  then have "cycle_loop g emit rs no_marks (observe (emitted_obs g EventReset) (?w\<lparr>wd_sink := s\<rparr>)) = Continue mk' w'"
    by (simp add: stop_watch_def split: turn.splits)
  from sink.cycle_loop_continue [OF assms(1) this] sink.emit_ok [OF assms(1), of "reset_event g" "wd_sink w" s] qs q
  show ?thesis by (auto simp: observe_def)
qed

section \<open>Properties\<close>

text \<open>C1. Convergence.  While a strictly ordered cycle is running, for every object in the
  upstream's view the consumer, whatever it held before, stores that object's projection (up
  to the resource version, which suppressed updates do not refresh) and its redacted paths;
  once the snapshot boundary has passed it stores nothing else.  The hash is only assumed not
  to collide on the texts this cycle hashes.\<close>

theorem cycle_converges:
  assumes "sink emit delivered" and "cycle g emit (Inr rs) w = Continue mk w'"
    and "ce_ordering g = OrderingStrict" and "list_all decoded rs"
    and "\<forall>b. ce_sha g b \<noteq> []" and "inj_on (ce_sha g) (set (hashed_views g rs no_marks (wd_revisions w)))"
    and "srv = fold server_step rs Map.empty" and "c = fold consume (delivered (wd_sink w')) c0"
  shows "(\<forall>u o'. srv u = Some o' \<longrightarrow>
      (\<exists>obj red. cn_store c u = Some (obj, red) \<and>
         DeepEqual (JObj (drop_resourceVersion obj))
           (JObj (drop_resourceVersion (fst (project (ce_projection g) o')))) \<and>
         map rd_Path red = map fst (snd (project (ce_projection g) o')))) \<and>
    (list_ex is_boundary rs \<longrightarrow> (\<forall>u. cn_store c u = None \<longleftrightarrow> srv u = None))"
proof -
  obtain es where run: "pure_run g rs no_marks (wd_revisions w) = Some (mk, wd_revisions w', es)"
    and del: "delivered (wd_sink w') = delivered (wd_sink w) @ reset_event g # es"
    using cycle_continue [OF assms(1,2)] by blast
  let ?c1 = "consume (reset_event g) (fold consume (delivered (wd_sink w)) c0)"
  have "\<not> cn_seen ?c1 u" for u by (simp add: consume_def reset_event_def)
  note conv = converges [OF run assms(4,3,5,6) this]
  have c: "c = fold consume es ?c1" by (simp add: assms(8) del)
  have rel: "related g (set (hashed_views g rs no_marks (wd_revisions w))) mk c srv"
    using conv unfolding c assms(7) by blast
  have held: "\<exists>obj red. cn_store c u = Some (obj, red) \<and> displays g (obj, red) o'" if "srv u = Some o'" for u o'
    using rel that unfolding related_def held_ok_def by blast
  have "cn_store c u = None \<longleftrightarrow> srv u = None" if "list_ex is_boundary rs" for u
  proof -
    have "no_ghosts c" using conv boundary_synced [OF run that] unfolding c by blast
    moreover have "cn_seen c u \<longleftrightarrow> srv u \<noteq> None" using rel by (simp add: related_def)
    ultimately show ?thesis using held unfolding no_ghosts_def by (cases "srv u") fastforce+
  qed
  then show ?thesis using held unfolding displays_def by auto
qed

text \<open>An object is added and the snapshot completes.\<close>

definition sample_object :: KRMObject where
  "sample_object = [(''kind'', JStr ''K''), (''metadata'', JObj [(''uid'', JStr ''u''), (''resourceVersion'', JStr ''1'')])]"

definition sample_snapshot :: "NextResult list" where
  "sample_snapshot =
     [NextEvent \<lparr>we_Type = WatchAdded, we_Object = sample_object, we_InitialEventsEnd = False, we_Err = None\<rparr>,
      NextEvent \<lparr>we_Type = WatchBookmark, we_Object = [], we_InitialEventsEnd = True, we_Err = None\<rparr>]"

definition sample_ghost :: consumer where
  "sample_ghost = \<lparr>cn_store = [''ghost'' \<mapsto> ([], [])], cn_seen = (\<lambda>_. True)\<rparr>"

theorem cycle_converges_witness:
  "\<exists>mk w'. cycle sample_env recorder_Emit (Inr sample_snapshot) sample_world = Continue mk w' \<and>
     (\<exists>held. cn_store (fold consume (wd_sink w') sample_ghost) ''u'' = Some held) \<and>
     cn_store (fold consume (wd_sink w') sample_ghost) ''ghost'' = None"
proof -
  have sha: "\<forall>b. ce_sha sample_env b \<noteq> []" by (simp add: sample_env_def)
  have strict: "ce_ordering sample_env = OrderingStrict" and revs: "wd_revisions sample_world = Map.empty"
    by (simp_all add: sample_env_def sample_world_def)
  have obj: "partialReason sample_object = []" "UID sample_object = ''u''" "resourceVersionOf sample_object = ''1''"
    "isDecimalResourceVersion ''1''" by code_simp+
  have st: "isStale OrderingStrict Map.empty ''u'' sample_object = Inr (False, [''u'' \<mapsto> ''1''])"
    by (simp add: isStale_def obj)
  have "\<exists>mk w'. cycle sample_env recorder_Emit (Inr sample_snapshot) sample_world = Continue mk w'"
    unfolding cycle_def sample_snapshot_def
    by (simp add: Let_def world_Emit_def recorder_Emit_def cycle_step_plan plan_turn_def plan_object_def
        no_marks_def obj st strict visibleDigest_nonempty [OF sha] perform_def stop_watch_def)
  then obtain mk w' where c: "cycle sample_env recorder_Emit (Inr sample_snapshot) sample_world = Continue mk w'" by blast
  have dec: "list_all decoded sample_snapshot" by code_simp
  have "\<exists>b. set (hashed_views sample_env sample_snapshot no_marks (wd_revisions sample_world)) \<subseteq> {b}"
    by (auto simp: sample_snapshot_def hashed_def plan_turn_def split: plan.split)
  then have inj: "inj_on (ce_sha sample_env) (set (hashed_views sample_env sample_snapshot no_marks (wd_revisions sample_world)))"
    by (auto simp: inj_on_def)
  have "fold server_step sample_snapshot Map.empty ''u'' \<noteq> None" by code_simp
  then obtain o' where o: "fold server_step sample_snapshot Map.empty ''u'' = Some o'" by auto
  have gh: "fold server_step sample_snapshot Map.empty ''ghost'' = None" and bd: "list_ex is_boundary sample_snapshot" by code_simp+
  note conv = cycle_converges [OF recorder.sink_axioms c strict dec sha inj refl refl, of sample_ghost]
  obtain obj red where "cn_store (fold consume (wd_sink w') sample_ghost) ''u'' = Some (obj, red)"
    using conv [THEN conjunct1, THEN spec, THEN spec, THEN mp, OF o] by blast
  moreover have "cn_store (fold consume (wd_sink w') sample_ghost) ''ghost'' = None"
    using conv [THEN conjunct2, THEN mp, OF bd] gh by blast
  ultimately show ?thesis using c by (intro exI [of _ mk] exI [of _ w']) simp
qed

end
