(* ===== verification/Progress.thy ===== *)
theory Progress
  imports Convergence
begin

text \<open>
  Progress of a snapshot cycle: on a sink that takes every event a cycle goes on exactly as long
  as the upstream sends results it can follow, and it then delivers the snapshot boundary.
  Together with convergence this says that the consumer does get to see the upstream.
\<close>

text \<open>A result the loop of \<open>cycle\<close> can follow: no error, whole objects, deletions with an identity,
  and under strict ordering a version that can be ordered.\<close>

definition followable :: "cycle_env \<Rightarrow> NextResult \<Rightarrow> bool" where
  "followable g r =
     (case r of
        NextErr _ \<Rightarrow> False
      | NextEvent ev \<Rightarrow>
          (let orderable = (ce_ordering g = OrderingStrict \<longrightarrow> isDecimalResourceVersion (resourceVersionOf (we_Object ev)))
           in case we_Type ev of
                WatchAdded \<Rightarrow> partialReason (we_Object ev) = [] \<and> orderable
              | WatchModified \<Rightarrow> partialReason (we_Object ev) = [] \<and> orderable
              | WatchDeleted \<Rightarrow> identityOf (we_Object ev) \<noteq> None \<and> orderable
              | WatchError \<Rightarrow> False
              | _ \<Rightarrow> True))"

definition ordered_marks :: "cycle_env \<Rightarrow> marks \<Rightarrow> bool" where
  "ordered_marks g mk \<longleftrightarrow> (ce_ordering g = OrderingStrict \<longrightarrow> marks_ok (mk_emitted mk))"

lemma isStale_followable:
  assumes "ordered_marks g mk"
  shows "case isStale (ce_ordering g) (mk_emitted mk) uid o' of
      Inl _ \<Rightarrow> ce_ordering g = OrderingStrict \<and> \<not> isDecimalResourceVersion (resourceVersionOf o')
    | Inr (stale, emitted) \<Rightarrow>
        ce_ordering g = OrderingStrict \<longrightarrow> isDecimalResourceVersion (resourceVersionOf o') \<and> marks_ok emitted"
proof (cases "ce_ordering g = OrderingStrict")
  case True
  then have ok: "marks_ok (mk_emitted mk)" using assms by (simp add: ordered_marks_def)
  show ?thesis
  proof (cases "isStale OrderingStrict (mk_emitted mk) uid o'")
    case (Inl e)
    then show ?thesis using True isStale_strict [OF ok, of uid o'] by (simp add: Let_def split: if_splits)
  next
    case (Inr p)
    then show ?thesis using True isStale_marks_ok [OF ok, of uid o'] isStale_strict_cases [OF ok, of uid o']
      by (cases p) simp
  qed
next
  case False
  then show ?thesis by (auto simp: isStale_def Let_def split: option.splits prod.splits if_splits)
qed

definition goes_on :: "cycle_env \<Rightarrow> bool \<Rightarrow> plan \<Rightarrow> bool" where
  "goes_on g ok pl \<longleftrightarrow>
     (case pl of
        Stop _ \<Rightarrow> \<not> ok
      | Quiet mk' _ _ \<Rightarrow> ok \<and> ordered_marks g mk'
      | Send _ mk' _ _ \<Rightarrow> ok \<and> ordered_marks g mk')"

lemma plan_object_goes_on:
  assumes "ordered_marks g mk"
  shows "goes_on g (partialReason (we_Object ev) = [] \<and>
      (ce_ordering g = OrderingStrict \<longrightarrow> isDecimalResourceVersion (resourceVersionOf (we_Object ev)))) (plan_object g ev mk revs)"
  using isStale_followable [OF assms, where uid = "UID (we_Object ev)" and o' = "we_Object ev"]
  unfolding goes_on_def plan_object_def Let_def ordered_marks_def
  by (auto split: sum.split prod.split)

lemma plan_deleted_goes_on:
  assumes "ordered_marks g mk"
  shows "goes_on g (identityOf (we_Object ev) \<noteq> None \<and>
      (ce_ordering g = OrderingStrict \<longrightarrow> isDecimalResourceVersion (resourceVersionOf (we_Object ev)))) (plan_deleted g ev mk revs)"
proof (cases "identityOf (we_Object ev)")
  case (Some i)
  then show ?thesis
    using isStale_followable [OF assms, where uid = "id_UID i" and o' = "we_Object ev"]
    unfolding goes_on_def plan_deleted_def ordered_marks_def by (auto simp: marks_ok_def split: sum.split prod.split)
qed (simp add: goes_on_def plan_deleted_def)

text \<open>One turn: it stops at a result that cannot be followed and at no other.\<close>

lemma plan_turn_goes_on:
  assumes "ordered_marks g mk"
  shows "goes_on g (followable g r) (plan_turn g r mk revs)"
proof (cases r)
  case (NextEvent ev)
  then show ?thesis
    using assms plan_object_goes_on [OF assms, of ev revs] plan_deleted_goes_on [OF assms, of ev revs]
    by (cases "we_Type ev") (simp_all add: followable_def plan_turn_def Let_def goes_on_def)
qed (simp add: goes_on_def followable_def plan_turn_def)

text \<open>A whole run on a sink that takes every event.\<close>

lemma cycle_loop_progress:
  assumes "\<forall>e s. fst (emit e s) = None"
  shows "ordered_marks g mk \<Longrightarrow>
    (case cycle_loop g emit rs mk w of
       Continue mk' w' \<Rightarrow> list_all (followable g) rs \<and> wd_stopped w' = wd_stopped w
     | Return err w' \<Rightarrow> wd_stopped w' = wd_stopped w \<and>
         (\<exists>pre r post. rs = pre @ r # post \<and> list_all (followable g) pre \<and> \<not> followable g r))"
proof (induction rs arbitrary: mk w)
  case (Cons r rs)
  have on: "goes_on g (followable g r) (plan_turn g r mk (wd_revisions w))"
    by (rule plan_turn_goes_on [OF Cons.prems])
  have next_turn: "?case" if step: "cycle_step g emit r mk w = Continue mk' w'" and f: "followable g r"
    and m: "ordered_marks g mk'" and st: "wd_stopped w' = wd_stopped w" for mk' w'
    using Cons.IH [OF m, of w'] step f st
    by (auto split: turn.splits) (metis append_Cons list.pred_inject(2))
  show ?case
  proof (cases "plan_turn g r mk (wd_revisions w)")
    case (Stop e)
    then show ?thesis using on by (auto simp: cycle_step_plan perform_def goes_on_def intro!: exI [of _ "[]"])
  next
    case (Quiet m rv ob)
    then show ?thesis using on next_turn [of m "w\<lparr>wd_revisions := rv, wd_obs := wd_obs w @ ob\<rparr>"]
      by (simp add: cycle_step_plan perform_def goes_on_def)
  next
    case (Send e m rv rv')
    obtain s where "emit e (wd_sink w) = (None, s)" using assms by (cases "emit e (wd_sink w)") (metis fst_conv)
    then show ?thesis
      using on Send next_turn [of m "w\<lparr>wd_sink := s, wd_revisions := rv', wd_obs := wd_obs w @ [emitted_obs g (ev_Type e)]\<rparr>"]
      by (simp add: cycle_step_plan perform_def goes_on_def)
  qed
qed simp

section \<open>Property\<close>

text \<open>C2. Progress.  On a sink that takes every event, a cycle over a watch that was opened is still
  running exactly when every result so far could be followed; it has then delivered its reset
  and, once the upstream ended its snapshot, a synced event.  Otherwise it has returned at the
  first result that could not be followed, and has stopped the watch.\<close>

theorem cycle_progress:
  assumes "sink emit delivered" and "\<forall>e s. fst (emit e s) = None"
  shows "case cycle g emit (Inr rs) w of
      Continue mk w' \<Rightarrow> list_all (followable g) rs \<and> wd_stopped w' = wd_stopped w \<and>
        (\<exists>es. delivered (wd_sink w') = delivered (wd_sink w) @ reset_event g # es \<and>
           (list_ex is_boundary rs \<longrightarrow> EventSynced \<in> ev_Type ` set es))
    | Return err w' \<Rightarrow> wd_stopped w' = Suc (wd_stopped w) \<and>
        (\<exists>pre r post. rs = pre @ r # post \<and> list_all (followable g) pre \<and> \<not> followable g r)"
proof -
  obtain s where s: "emit (reset_event g) (wd_sink w) = (None, s)"
    using assms(2) by (cases "emit (reset_event g) (wd_sink w)") (metis fst_conv)
  define w0 where "w0 = observe (emitted_obs g EventReset) (w\<lparr>wd_opened := Suc (wd_opened w), wd_sink := s\<rparr>)"
  have w0: "wd_stopped w0 = wd_stopped w" by (simp add: w0_def observe_def)
  have c: "cycle g emit (Inr rs) w = stop_watch (cycle_loop g emit rs no_marks w0)"
    using s by (simp add: cycle_def Let_def world_Emit_def reset_event_def [symmetric] w0_def)
  have "ordered_marks g no_marks" by (simp add: ordered_marks_def no_marks_def marks_ok_def)
  note loop = cycle_loop_progress [OF assms(2) this, of rs w0]
  show ?thesis
  proof (cases "cycle g emit (Inr rs) w")
    case (Continue mk w')
    obtain es where "pure_run g rs no_marks (wd_revisions w) = Some (mk, wd_revisions w', es)"
      "delivered (wd_sink w') = delivered (wd_sink w) @ reset_event g # es"
      using cycle_continue [OF assms(1) Continue] by blast
    then show ?thesis using Continue loop w0 c boundary_synced by (auto simp: stop_watch_def split: turn.splits)
  next
    case (Return e w')
    then show ?thesis using loop w0 c by (auto simp: stop_watch_def split: turn.splits)
  qed
qed

theorem cycle_progress_witness:
  "\<exists>mk w' es. cycle sample_env recorder_Emit (Inr sample_snapshot) sample_world = Continue mk w' \<and>
     wd_sink w' = reset_event sample_env # es \<and> EventSynced \<in> ev_Type ` set es"
proof -
  have f: "list_all (followable sample_env) sample_snapshot" and b: "list_ex is_boundary sample_snapshot"
    and e: "wd_sink sample_world = []" by code_simp+
  have no: "\<not> (\<exists>pre r post. sample_snapshot = pre @ r # post \<and> list_all (followable sample_env) pre \<and> \<not> followable sample_env r)"
    using f by (metis list_all_append list.pred_inject(2))
  show ?thesis
    using cycle_progress [where emit = recorder_Emit and delivered = "\<lambda>s. s" and g = sample_env and rs = sample_snapshot
        and w = sample_world, OF recorder.sink_axioms] no b e
    by (auto simp: recorder_Emit_def split: turn.splits)
qed

end
