(* ===== verification/Reauthorize.thy ===== *)
theory Reauthorize
  imports Cycle
begin

text \<open>
  A cycle under timed reauthorization: \<open>gateway/reauthorize.go\<close>.  The goroutine that
  checks on every tick and the goroutine that runs the cycle share the delivery gate and the
  cycle's context; their interleavings are sequences of inputs, one per thing that happens to
  either (the watch opens, \<open>Next\<close> returns, a tick is checked, the caller's context ends).
  A check holds the gate, so it falls between two deliveries.
\<close>

section \<open>State\<close>

text \<open>What the host's callbacks answer during one timed check, and whether its timeout ran out.\<close>

record tick =
  tk_authorize :: "go_error option"
  tk_select :: "go_error + Projection"
  tk_expired :: bool

datatype input =
    GotWatch "go_error option"
  | GotNext NextResult
  | Ticked tick
  | CtxDone go_error

text \<open>The checking goroutine: still selecting, or it sent its verdict on \<open>done\<close>.\<close>

datatype reauth = Watching | Finished "StreamError option"

record ('s, 'p) auth_state =
  au_marks :: "marks option"
  au_world :: "('s, 'p) world"
  au_reauth :: reauth
  au_ctx :: "go_error option"

datatype ('s, 'p) auth_turn =
    Going "('s, 'p) auth_state"
  | Over go_error "('s, 'p) auth_state"
  | Crashed "('s, 'p) world"

section \<open>Operations\<close>

text \<open>\<open>authorizationSink.Emit\<close>, under the context error the gate sees.\<close>

definition authorizationSink_Emit :: "go_error option \<Rightarrow> 's emit \<Rightarrow> 's emit" where
  "authorizationSink_Emit ctx emit ev s = (case ctx of Some err \<Rightarrow> (Some err, s) | None \<Rightarrow> emit ev s)"

datatype check = CheckPass | CheckTeardown | CheckFail StreamError | CheckPanic

text \<open>
  The body of the ticker case.  \<open>ctx\<close> is \<open>cycleCtx.Err()\<close>; the check's own context also
  ends when its timeout expires.
\<close>

definition check_error :: "Projection \<Rightarrow> go_error option \<Rightarrow> tick \<Rightarrow> go_error option" where
  "check_error projection ctx t =
     (let err =
        (case tk_authorize t of
           Some err \<Rightarrow> Some err
         | None \<Rightarrow>
             (case tk_select t of
                Inl err \<Rightarrow> Some err
              | Inr selected \<Rightarrow>
                  if selected \<noteq> projection
                  then Some (ErrStream (Forbidden ''stream projection authorization changed; open a new stream''))
                  else None))
      in case err of
           Some err \<Rightarrow> Some err
         | None \<Rightarrow>
             (case ctx of Some err \<Rightarrow> Some err | None \<Rightarrow> if tk_expired t then Some DeadlineExceeded else None))"

definition fail_closed :: "go_error \<Rightarrow> StreamError" where
  "fail_closed err =
     (let se = asStreamError err
      in StreamError (se_Code se) (se_Message se) (se_Code se \<noteq> CodeUpstreamUnavailable)
           (se_RetryAfterMs se) (se_Cause se))"

definition timed_check :: "Projection \<Rightarrow> go_error option \<Rightarrow> tick \<Rightarrow> check" where
  "timed_check projection ctx t =
     (let err = check_error projection ctx t;
          teardown =
            (case ctx of
               None \<Rightarrow> Some False
             | Some _ \<Rightarrow> (case err of None \<Rightarrow> Some False | Some e \<Rightarrow> errors_Is e Canceled))
      in case teardown of
           None \<Rightarrow> CheckPanic
         | Some True \<Rightarrow> CheckTeardown
         | Some False \<Rightarrow> (case err of None \<Rightarrow> CheckPass | Some e \<Rightarrow> CheckFail (fail_closed e)))"

text \<open>The cycle's own goroutine at the opening of the watch.\<close>

definition begin_cycle :: "cycle_env \<Rightarrow> 's emit \<Rightarrow> ('s, 'p) world \<Rightarrow> ('s, 'p) turn" where
  "begin_cycle g emit w =
     (case world_Emit emit ((event_of EventReset)\<lparr>ev_Target := sc_Target (ce_scope g),
              ev_Scope := Some (ce_scope g), ev_Projection := ce_projection g\<rparr>)
             (w\<lparr>wd_opened := Suc (wd_opened w)\<rparr>) of
        (Some err, w) \<Rightarrow> Return err w
      | (None, w) \<Rightarrow> Continue no_marks (observe (emitted_obs g EventReset) w))"

definition cancel :: "go_error option \<Rightarrow> go_error \<Rightarrow> go_error option" where
  "cancel ctx err = (case ctx of None \<Rightarrow> Some err | Some e \<Rightarrow> Some e)"

definition after_turn :: "('s, 'p) auth_state \<Rightarrow> ('s, 'p) turn \<Rightarrow> ('s, 'p) auth_turn" where
  "after_turn a t =
     (case t of
        Continue mk w \<Rightarrow> Going (a\<lparr>au_marks := Some mk, au_world := w\<rparr>)
      | Return err w \<Rightarrow> Over err (a\<lparr>au_world := w\<lparr>wd_stopped := Suc (wd_stopped w)\<rparr>\<rparr>))"

definition on_tick :: "cycle_env \<Rightarrow> tick \<Rightarrow> ('s, 'p) auth_state \<Rightarrow> ('s, 'p) auth_turn" where
  "on_tick g t a =
     (case au_reauth a of
        Finished _ \<Rightarrow> Going a
      | Watching \<Rightarrow>
          (case timed_check (ce_projection g) (au_ctx a) t of
             CheckPass \<Rightarrow> Going a
           | CheckTeardown \<Rightarrow> Going (a\<lparr>au_reauth := Finished None\<rparr>)
           | CheckFail se \<Rightarrow> Going (a\<lparr>au_reauth := Finished (Some se), au_ctx := cancel (au_ctx a) Canceled\<rparr>)
           | CheckPanic \<Rightarrow> Crashed (au_world a)))"

definition auth_step :: "cycle_env \<Rightarrow> 's emit \<Rightarrow> input \<Rightarrow> ('s, 'p) auth_state \<Rightarrow> ('s, 'p) auth_turn" where
  "auth_step g emit i a =
     (let gate = authorizationSink_Emit (au_ctx a) emit in
      case i of
        GotWatch r \<Rightarrow>
          (case au_marks a of
             Some _ \<Rightarrow> Going a
           | None \<Rightarrow>
               (case r of
                  Some err \<Rightarrow> Over err a
                | None \<Rightarrow> after_turn a (begin_cycle g gate (au_world a))))
      | GotNext r \<Rightarrow>
          (case au_marks a of
             None \<Rightarrow> Going a
           | Some mk \<Rightarrow> after_turn a (cycle_step g gate r mk (au_world a)))
      | Ticked t \<Rightarrow> on_tick g t a
      | CtxDone err \<Rightarrow> Going (a\<lparr>au_ctx := cancel (au_ctx a) err\<rparr>))"

fun auth_loop :: "cycle_env \<Rightarrow> 's emit \<Rightarrow> input list \<Rightarrow> ('s, 'p) auth_state \<Rightarrow> ('s, 'p) auth_turn" where
  "auth_loop g emit [] a = Going a"
| "auth_loop g emit (i # is) a =
     (case auth_step g emit i a of
        Going a' \<Rightarrow> auth_loop g emit is a'
      | Over err a' \<Rightarrow> Over err a'
      | Crashed w \<Rightarrow> Crashed w)"

text \<open>
  After the cycle returned: \<open>cancel()\<close>, then the verdict.  A goroutine that was still
  selecting sees the cancelled context, or one more tick that was already due (\<open>late\<close>).
\<close>

definition verdict :: "cycle_env \<Rightarrow> tick option \<Rightarrow> go_error \<Rightarrow> ('s, 'p) auth_state \<Rightarrow> ('s, 'p) auth_turn" where
  "verdict g late err a =
     (let ctx = cancel (au_ctx a) Canceled in
      case au_reauth a of
        Finished (Some se) \<Rightarrow> Over (ErrStream se) a
      | Finished None \<Rightarrow> Over err a
      | Watching \<Rightarrow>
          (case late of
             None \<Rightarrow> Over err a
           | Some t \<Rightarrow>
               (case timed_check (ce_projection g) ctx t of
                  CheckFail se \<Rightarrow> Over (ErrStream se) a
                | CheckPanic \<Rightarrow> Crashed (au_world a)
                | _ \<Rightarrow> Over err a)))"

definition auth_start :: "('s, 'p) world \<Rightarrow> ('s, 'p) auth_state" where
  "auth_start w = \<lparr>au_marks = None, au_world = w, au_reauth = Watching, au_ctx = None\<rparr>"

text \<open>
  \<open>authorizedCycle\<close>.  Without an interval no goroutine is started and there is no gate:
  the inputs are then only what the cycle itself sees.
\<close>

definition plain_input :: "input \<Rightarrow> bool" where
  "plain_input i \<longleftrightarrow> (case i of GotWatch _ \<Rightarrow> True | GotNext _ \<Rightarrow> True | _ \<Rightarrow> False)"

definition authorizedCycle ::
    "int \<Rightarrow> cycle_env \<Rightarrow> 's emit \<Rightarrow> input list \<Rightarrow> tick option \<Rightarrow> ('s, 'p) world \<Rightarrow> ('s, 'p) auth_turn" where
  "authorizedCycle interval g emit inputs late w =
     (if interval \<le> 0 then auth_loop g emit (filter plain_input inputs) (auth_start w)
      else case auth_loop g emit inputs (auth_start w) of
        Over err a \<Rightarrow> verdict g late err a
      | t \<Rightarrow> t)"

fun auth_world :: "('s, 'p) auth_turn \<Rightarrow> ('s, 'p) world" where
  "auth_world (Going a) = au_world a"
| "auth_world (Over err a) = au_world a"
| "auth_world (Crashed w) = w"

text \<open>
  The invariant of the two goroutines, for a connection on which every earlier watch was
  stopped: a failed check has cancelled the cycle, and one watch is open exactly while the
  cycle runs.
\<close>

definition auth_inv :: "('s, 'p) auth_state \<Rightarrow> bool" where
  "auth_inv a \<longleftrightarrow>
     (\<forall>se. au_reauth a = Finished (Some se) \<longrightarrow> au_ctx a \<noteq> None) \<and>
     wd_opened (au_world a) = (if au_marks a = None then 0 else 1) + wd_stopped (au_world a)"

definition auth_started :: "('s, 'p) auth_state \<Rightarrow> bool" where
  "auth_started a \<longleftrightarrow> (\<exists>w. a = auth_start w \<and> wd_opened w = wd_stopped w)"

definition auth_rel :: "cycle_env \<Rightarrow> 's emit \<Rightarrow> ('s, 'p) auth_state \<Rightarrow> input \<Rightarrow> ('s, 'p) auth_state \<Rightarrow> bool" where
  "auth_rel g emit a i a' \<longleftrightarrow> auth_step g emit i a = Going a'"

section \<open>Lemmas\<close>

lemma authorizationSink_None [simp]: "authorizationSink_Emit None emit = emit"
  by (simp add: authorizationSink_Emit_def fun_eq_iff)

subsection \<open>Watches\<close>

lemma perform_counts [simp]:
  "wd_opened (turn_world (perform g emit pl w)) = wd_opened w"
  "wd_stopped (turn_world (perform g emit pl w)) = wd_stopped w"
  by (simp_all add: perform_def split: plan.split prod.split option.split)

lemma cycle_step_counts:
  "cycle_step g emit r mk w = Continue mk' w' \<Longrightarrow> wd_opened w' = wd_opened w \<and> wd_stopped w' = wd_stopped w"
  "cycle_step g emit r mk w = Return err w' \<Longrightarrow> wd_opened w' = wd_opened w \<and> wd_stopped w' = wd_stopped w"
  using perform_counts [of g emit "plan_turn g r mk (wd_revisions w)" w] by (simp_all add: cycle_step_plan)

lemma begin_cycle_counts:
  "begin_cycle g emit w = Continue mk' w' \<Longrightarrow> wd_opened w' = Suc (wd_opened w) \<and> wd_stopped w' = wd_stopped w"
  "begin_cycle g emit w = Return err w' \<Longrightarrow> wd_opened w' = Suc (wd_opened w) \<and> wd_stopped w' = wd_stopped w"
  by (auto simp: begin_cycle_def world_Emit_def observe_def Let_def split: prod.splits option.splits)

lemma auth_inv_step: "auth_inv a \<Longrightarrow> auth_step g emit i a = Going a' \<Longrightarrow> auth_inv a'"
  by (cases i; cases "au_marks a")
     (auto simp: auth_step_def on_tick_def after_turn_def auth_inv_def cancel_def Let_def
        dest: cycle_step_counts begin_cycle_counts
        split: turn.splits check.splits reauth.splits option.splits)

interpretation goroutines: invariant_system auth_started "auth_rel g emit" auth_inv for g emit
  by unfold_locales
     (auto simp: auth_started_def auth_start_def auth_rel_def auth_inv_def [of "\<lparr>au_marks = _, au_world = _, au_reauth = _, au_ctx = _\<rparr>"]
       intro: auth_inv_step)

lemma auth_inv_over:
  "auth_inv a \<Longrightarrow> auth_step g emit i a = Over err a' \<Longrightarrow>
     wd_opened (au_world a') = wd_stopped (au_world a') \<and>
     (\<forall>se. au_reauth a' = Finished (Some se) \<longrightarrow> au_ctx a' \<noteq> None)"
  by (cases i; cases "au_marks a")
     (auto simp: auth_step_def on_tick_def after_turn_def auth_inv_def cancel_def Let_def
        dest: cycle_step_counts begin_cycle_counts
        split: turn.splits check.splits reauth.splits option.splits)

text \<open>The loop is a run of the step relation.\<close>

lemma auth_loop_run:
  "auth_loop g emit is a = Going a' \<Longrightarrow> run_steps (auth_rel g emit) a is a'"
proof (induction "is" arbitrary: a)
  case Nil
  then show ?case by (simp add: run_steps.run_refl)
next
  case (Cons i "is")
  then obtain b where "auth_step g emit i a = Going b" "auth_loop g emit is b = Going a'"
    by (auto split: auth_turn.splits)
  then show ?case using run_steps_append [OF Cons.IH run_steps_one, of b a i] by (simp add: auth_rel_def)
qed

lemma auth_loop_over:
  "auth_loop g emit is a = Over err a' \<Longrightarrow>
     \<exists>pre i b. run_steps (auth_rel g emit) a pre b \<and> auth_step g emit i b = Over err a'"
proof (induction "is" arbitrary: a)
  case (Cons i "is")
  show ?case
  proof (cases "auth_step g emit i a")
    case (Going b)
    then obtain pre j c where "run_steps (auth_rel g emit) b pre c" "auth_step g emit j c = Over err a'"
      using Cons.IH [of b] Cons.prems by auto
    moreover have "run_steps (auth_rel g emit) a ([i] @ pre) c"
      by (rule run_steps_append [OF calculation(1)]) (simp add: run_steps_one auth_rel_def Going)
    ultimately show ?thesis by blast
  next
    case (Over e b)
    then show ?thesis using Cons.prems run_refl by (metis auth_loop.simps(2) auth_turn.case(2))
  qed (use Cons.prems in simp)
qed simp

lemma auth_loop_balanced:
  assumes "auth_loop g emit is (auth_start w) = Over err a" and "wd_opened w = wd_stopped w"
  shows "wd_opened (au_world a) = wd_stopped (au_world a)"
proof -
  obtain pre i b where "run_steps (auth_rel g emit) (auth_start w) pre b" "auth_step g emit i b = Over err a"
    using auth_loop_over [OF assms(1)] by blast
  moreover have "auth_started (auth_start w)" using assms(2) by (auto simp: auth_started_def)
  ultimately show ?thesis using goroutines.inv_reachable auth_inv_over by blast
qed

subsection \<open>A cancelled cycle delivers nothing\<close>

lemma gate_closed_perform:
  "wd_sink (turn_world (perform g (authorizationSink_Emit (Some e) emit) pl w)) = wd_sink w"
  by (simp add: perform_def authorizationSink_Emit_def split: plan.split)

lemma gate_closed_cycle_step:
  "wd_sink (turn_world (cycle_step g (authorizationSink_Emit (Some e) emit) r mk w)) = wd_sink w"
  by (simp add: cycle_step_plan gate_closed_perform)

lemma gate_closed_begin:
  "wd_sink (turn_world (begin_cycle g (authorizationSink_Emit (Some e) emit) w)) = wd_sink w"
  by (simp add: begin_cycle_def world_Emit_def authorizationSink_Emit_def)

lemma verdict_world [simp]: "auth_world (verdict g late err a) = au_world a"
  by (simp add: verdict_def Let_def split: reauth.split option.split check.split)

lemma after_turn_sink: "wd_sink (auth_world (after_turn a t)) = wd_sink (turn_world t)"
  by (simp add: after_turn_def split: turn.split)

lemma gate_closed_step:
  assumes "au_ctx a = Some e"
  shows "wd_sink (auth_world (auth_step g emit i a)) = wd_sink (au_world a)"
    and "auth_step g emit i a = Going a' \<Longrightarrow> au_ctx a' = Some e"
    and "au_reauth a = Finished v \<Longrightarrow> auth_step g emit i a = Going a' \<Longrightarrow> au_reauth a' = Finished v"
    and "au_reauth a = Finished v \<Longrightarrow> auth_step g emit i a = Over err a' \<Longrightarrow> au_reauth a' = Finished v"
proof -
  show "wd_sink (auth_world (auth_step g emit i a)) = wd_sink (au_world a)"
    using assms by (cases i) (simp_all add: auth_step_def on_tick_def Let_def after_turn_sink
        gate_closed_cycle_step gate_closed_begin split: option.split check.split reauth.split)
  show "auth_step g emit i a = Going a' \<Longrightarrow> au_ctx a' = Some e"
    using assms by (cases i) (auto simp: auth_step_def on_tick_def after_turn_def cancel_def Let_def
        split: option.splits check.splits reauth.splits turn.splits)
  show "au_reauth a = Finished v \<Longrightarrow> auth_step g emit i a = Going a' \<Longrightarrow> au_reauth a' = Finished v"
    by (cases i) (auto simp: auth_step_def on_tick_def after_turn_def Let_def split: option.splits turn.splits)
  show "au_reauth a = Finished v \<Longrightarrow> auth_step g emit i a = Over err a' \<Longrightarrow> au_reauth a' = Finished v"
    by (cases i) (auto simp: auth_step_def on_tick_def after_turn_def Let_def split: option.splits turn.splits)
qed

lemma gate_closed_loop:
  "au_ctx a = Some e \<Longrightarrow> au_reauth a = Finished v \<Longrightarrow>
     wd_sink (auth_world (auth_loop g emit is a)) = wd_sink (au_world a) \<and>
     (\<forall>err a'. auth_loop g emit is a = Over err a' \<longrightarrow> au_reauth a' = Finished v)"
proof (induction "is" arbitrary: a)
  case (Cons i "is")
  note step = gate_closed_step [OF Cons.prems(1), where g = g and emit = emit and i = i]
  show ?case
  proof (cases "auth_step g emit i a")
    case (Going b)
    then show ?thesis using step(1) step(2) [OF Going] step(3) [OF Cons.prems(2) Going] Cons.IH [of b] by simp
  next
    case (Over err b)
    then show ?thesis using step(1) step(4) [OF Cons.prems(2) Over] by simp
  next
    case (Crashed w)
    then show ?thesis using step(1) by simp
  qed
qed simp

subsection \<open>What a cycle delivers\<close>

definition auth_sent :: "cycle_env \<Rightarrow> input list \<Rightarrow> Event \<Rightarrow> bool" where
  "auth_sent g is e \<longleftrightarrow> e = reset_event g \<or> (\<exists>r. GotNext r \<in> set is \<and> sent g r e)"

context sink
begin

lemma perform_sent:
  "\<forall>e mk a b. pl = Send e mk a b \<longrightarrow> ev_Seq e = 0 \<Longrightarrow>
   \<exists>es. delivered (wd_sink (turn_world (perform g emit pl w))) = delivered (wd_sink w) @ es \<and>
     (\<forall>e \<in> set es. \<exists>mk a b. pl = Send e mk a b)"
proof (cases pl)
  case (Send e mk a b)
  assume "\<forall>e mk a b. pl = Send e mk a b \<longrightarrow> ev_Seq e = 0"
  then have "ev_Seq e = 0" using Send by blast
  obtain r s where "emit e (wd_sink w) = (r, s)" by (cases "emit e (wd_sink w)")
  then show ?thesis using emit_ok [OF \<open>ev_Seq e = 0\<close>, of "wd_sink w" s] emit_err [OF \<open>ev_Seq e = 0\<close>, of "wd_sink w" _ s]
    by (cases r) (auto simp: perform_def Send)
qed (simp_all add: perform_def)

lemma cycle_step_sent:
  "\<exists>es. delivered (wd_sink (turn_world (cycle_step g emit r mk w))) = delivered (wd_sink w) @ es \<and>
     (\<forall>e \<in> set es. sent g r e)"
proof -
  have seq: "\<forall>e mk' a b. plan_turn g r mk (wd_revisions w) = Send e mk' a b \<longrightarrow> ev_Seq e = 0"
    using plan_turn_seq by blast
  show ?thesis
    using perform_sent [where pl = "plan_turn g r mk (wd_revisions w)" and g = g and w = w, OF seq]
    unfolding cycle_step_plan sent_def by blast
qed

lemma begin_cycle_sent:
  "\<exists>es. delivered (wd_sink (turn_world (begin_cycle g emit w))) = delivered (wd_sink w) @ es \<and>
     (\<forall>e \<in> set es. e = reset_event g)"
proof -
  obtain r s where "emit (reset_event g) (wd_sink w) = (r, s)" by (cases "emit (reset_event g) (wd_sink w)")
  then show ?thesis using emit_ok [of "reset_event g" "wd_sink w" s] emit_err [of "reset_event g" "wd_sink w" _ s]
    by (cases r) (auto simp: begin_cycle_def world_Emit_def reset_event_def [symmetric] observe_def)
qed

end

text \<open>The gate is a sink over the sink behind it.\<close>

context sink
begin

lemma gate_sink: "sink (authorizationSink_Emit ctx emit) delivered"
  by unfold_locales
     (auto simp: authorizationSink_Emit_def split: option.splits dest: emit_ok emit_err)

lemma auth_step_sent:
  "\<exists>es. delivered (wd_sink (auth_world (auth_step g emit i a))) = delivered (wd_sink (au_world a)) @ es \<and>
     (\<forall>e \<in> set es. auth_sent g [i] e)"
proof (cases i)
  case (GotWatch r)
  then show ?thesis
    using sink.begin_cycle_sent [OF gate_sink, of g "au_ctx a" "au_world a"]
    by (auto simp: auth_step_def after_turn_sink auth_sent_def Let_def split: option.split)
next
  case (GotNext r)
  show ?thesis
  proof (cases "au_marks a")
    case (Some mk)
    then show ?thesis using GotNext sink.cycle_step_sent [OF gate_sink, of g "au_ctx a" r mk "au_world a"]
      by (auto simp: auth_step_def after_turn_sink auth_sent_def Let_def)
  qed (simp add: auth_step_def GotNext)
next
  case (Ticked t)
  then show ?thesis by (auto simp: auth_step_def on_tick_def split: reauth.split check.split)
qed (simp add: auth_step_def)

lemma auth_loop_sent:
  "\<exists>es. delivered (wd_sink (auth_world (auth_loop g emit is a))) = delivered (wd_sink (au_world a)) @ es \<and>
     (\<forall>e \<in> set es. auth_sent g is e)"
proof (induction "is" arbitrary: a)
  case (Cons i "is")
  obtain es where es: "delivered (wd_sink (auth_world (auth_step g emit i a))) = delivered (wd_sink (au_world a)) @ es"
    "\<forall>e \<in> set es. auth_sent g [i] e" using auth_step_sent by blast
  show ?case
  proof (cases "auth_step g emit i a")
    case (Going b)
    obtain fs where "delivered (wd_sink (auth_world (auth_loop g emit is b))) = delivered (wd_sink (au_world b)) @ fs"
      "\<forall>e \<in> set fs. auth_sent g is e" using Cons.IH by blast
    then show ?thesis using es Going by (intro exI [of _ "es @ fs"]) (auto simp: auth_sent_def)
  next
    case (Over err b)
    then show ?thesis using es by (intro exI [of _ es]) (auto simp: auth_sent_def)
  next
    case (Crashed w)
    then show ?thesis using es by (intro exI [of _ es]) (auto simp: auth_sent_def)
  qed
qed simp

lemma authorizedCycle_sent:
  "\<exists>es. delivered (wd_sink (auth_world (authorizedCycle interval g emit inputs late w))) = delivered (wd_sink w) @ es \<and>
     (\<forall>e \<in> set es. auth_sent g inputs e)"
proof -
  have f: "auth_sent g inputs e" if "auth_sent g (filter plain_input inputs) e" for e
    using that by (auto simp: auth_sent_def)
  show ?thesis
  proof (cases "interval \<le> 0")
    case True
    obtain es where "delivered (wd_sink (auth_world (auth_loop g emit (filter plain_input inputs) (auth_start w)))) =
        delivered (wd_sink w) @ es" "\<forall>e \<in> set es. auth_sent g (filter plain_input inputs) e"
      using auth_loop_sent [of g "filter plain_input inputs" "auth_start w"] by (auto simp: auth_start_def)
    then show ?thesis using True f by (intro exI [of _ es]) (simp add: authorizedCycle_def)
  next
    case False
    then show ?thesis using auth_loop_sent [of g inputs "auth_start w"]
      by (cases "auth_loop g emit inputs (auth_start w)") (simp_all add: authorizedCycle_def auth_start_def)
  qed
qed

end

lemma authorizedCycle_balanced:
  assumes "authorizedCycle interval g emit inputs late w = Over err a" and "wd_opened w = wd_stopped w"
  shows "wd_opened (au_world a) = wd_stopped (au_world a)"
proof -
  have "\<exists>is e. auth_loop g emit is (auth_start w) = Over e a"
    using assms(1) by (auto simp: authorizedCycle_def verdict_def Let_def
        split: if_splits auth_turn.splits reauth.splits option.splits check.splits)
  then show ?thesis using auth_loop_balanced assms(2) by blast
qed

subsection \<open>Without timed checks\<close>

lemma auth_loop_plain:
  "\<exists>m. auth_loop g emit (map GotNext rs) \<lparr>au_marks = Some mk, au_world = w, au_reauth = Watching, au_ctx = None\<rparr> =
     (case stop_watch (cycle_loop g emit rs mk w) of
        Continue mk' w' \<Rightarrow> Going \<lparr>au_marks = Some mk', au_world = w', au_reauth = Watching, au_ctx = None\<rparr>
      | Return err w' \<Rightarrow> Over err \<lparr>au_marks = Some m, au_world = w', au_reauth = Watching, au_ctx = None\<rparr>)"
proof (induction rs arbitrary: mk w)
  case (Cons r rs)
  then show ?case
    by (cases "cycle_step g emit r mk w") (auto simp: auth_step_def after_turn_def stop_watch_def)
qed (simp add: stop_watch_def)

section \<open>Properties\<close>

text \<open>Without a reauthorization interval the cycle runs exactly as \<open>cycle\<close> does: the same
  effects, and it ends with the same error or still waits.\<close>

theorem authorizedCycle_disabled:
  assumes "interval \<le> 0"
  shows "(case authorizedCycle interval g emit (GotWatch None # map GotNext rs) late w of
      Going a \<Rightarrow> \<exists>mk. cycle g emit (Inr rs) w = Continue mk (au_world a)
    | Over err a \<Rightarrow> cycle g emit (Inr rs) w = Return err (au_world a)
    | Crashed _ \<Rightarrow> False)"
proof -
  have f: "plain_input (GotWatch None)" "filter plain_input (map GotNext rs) = map GotNext rs"
    by (simp_all add: plain_input_def filter_map comp_def)
  obtain r s where rs: "emit (reset_event g) (wd_sink w) = (r, s)" by (cases "emit (reset_event g) (wd_sink w)")
  show ?thesis
  proof (cases r)
    case (Some e)
    then show ?thesis using assms rs
      by (simp add: authorizedCycle_def f auth_step_def auth_start_def begin_cycle_def world_Emit_def
          reset_event_def [symmetric] after_turn_def cycle_def stop_watch_def)
  next
    case None
    let ?w = "observe (emitted_obs g EventReset) (w\<lparr>wd_opened := Suc (wd_opened w), wd_sink := s\<rparr>)"
    have "authorizedCycle interval g emit (GotWatch None # map GotNext rs) late w =
        auth_loop g emit (map GotNext rs) \<lparr>au_marks = Some no_marks, au_world = ?w, au_reauth = Watching, au_ctx = None\<rparr>"
      using assms rs None by (simp add: authorizedCycle_def f auth_step_def auth_start_def begin_cycle_def world_Emit_def
          reset_event_def [symmetric] after_turn_def)
    moreover have "cycle g emit (Inr rs) w = stop_watch (cycle_loop g emit rs no_marks ?w)"
      using rs None by (simp add: cycle_def world_Emit_def reset_event_def [symmetric])
    ultimately show ?thesis using auth_loop_plain [of g emit rs no_marks ?w]
      by (cases "stop_watch (cycle_loop g emit rs no_marks ?w)") auto
  qed
qed

theorem authorizedCycle_disabled_witness:
  "case authorizedCycle 0 sample_env recorder_Emit [GotWatch None, GotNext (NextErr ErrWatchClosed)] None sample_world of
     Over err a \<Rightarrow> cycle sample_env recorder_Emit (Inr [NextErr ErrWatchClosed]) sample_world = Return err (au_world a)
   | _ \<Rightarrow> False"
proof -
  have "case authorizedCycle 0 sample_env recorder_Emit [GotWatch None, GotNext (NextErr ErrWatchClosed)] None sample_world of
      Over _ _ \<Rightarrow> True | _ \<Rightarrow> False"
    by (simp add: authorizedCycle_def plain_input_def auth_step_def auth_start_def begin_cycle_def world_Emit_def
        recorder_Emit_def after_turn_def cycle_step_def)
  then show ?thesis
    using authorizedCycle_disabled [of 0 sample_env recorder_Emit "[NextErr ErrWatchClosed]" sample_world None]
    by (auto split: auth_turn.splits)
qed

text \<open>C4. Revocation.  When a timed check of a live cycle fails (the authorizer refuses, the
  policy refuses or selects another projection, or the check times out), nothing is delivered
  to the subscriber from then on, whatever its watch still returns, and when the cycle ends
  its result is that failure, terminal unless the authority was merely unreachable.\<close>

theorem revocation_ends_disclosure:
  assumes "au_reauth a = Watching" and "au_ctx a = None" and "check_error (ce_projection g) None t = Some err"
  shows "wd_sink (auth_world (auth_loop g emit (Ticked t # later) a)) = wd_sink (au_world a) \<and>
    (\<forall>e a' late. auth_loop g emit (Ticked t # later) a = Over e a' \<longrightarrow>
       verdict g late e a' = Over (ErrStream (fail_closed err)) a') \<and>
    (se_Terminal (fail_closed err) \<longleftrightarrow> se_Code (fail_closed err) \<noteq> CodeUpstreamUnavailable)"
proof -
  let ?b = "a\<lparr>au_reauth := Finished (Some (fail_closed err)), au_ctx := Some Canceled\<rparr>"
  have step: "auth_step g emit (Ticked t) a = Going ?b"
    using assms by (simp add: auth_step_def on_tick_def timed_check_def cancel_def)
  have "wd_sink (auth_world (auth_loop g emit later ?b)) = wd_sink (au_world ?b) \<and>
     (\<forall>e a'. auth_loop g emit later ?b = Over e a' \<longrightarrow> au_reauth a' = Finished (Some (fail_closed err)))"
    by (rule gate_closed_loop) simp_all
  moreover have "se_Terminal (fail_closed err) \<longleftrightarrow> se_Code (fail_closed err) \<noteq> CodeUpstreamUnavailable"
    by (simp add: fail_closed_def Let_def)
  ultimately show ?thesis by (simp add: step verdict_def Let_def)
qed

theorem revocation_ends_disclosure_witness:
  "verdict sample_env None Canceled
     \<lparr>au_marks = Some no_marks, au_world = sample_world\<lparr>wd_stopped := 1\<rparr>,
      au_reauth = Finished (Some (StreamError CodeForbidden ''revoked'' True None None)), au_ctx = Some Canceled\<rparr> =
   Over (ErrStream (StreamError CodeForbidden ''revoked'' True None None))
     \<lparr>au_marks = Some no_marks, au_world = sample_world\<lparr>wd_stopped := 1\<rparr>,
      au_reauth = Finished (Some (StreamError CodeForbidden ''revoked'' True None None)), au_ctx = Some Canceled\<rparr>"
proof -
  let ?t = "\<lparr>tk_authorize = Some (ErrStream (Forbidden ''revoked'')), tk_select = Inr ProjectionFull, tk_expired = False\<rparr>"
  let ?a = "\<lparr>au_marks = Some no_marks, au_world = sample_world, au_reauth = Watching, au_ctx = None\<rparr>"
  have err: "check_error (ce_projection sample_env) None ?t = Some (ErrStream (Forbidden ''revoked''))"
    by (simp add: check_error_def)
  have fc: "fail_closed (ErrStream (Forbidden ''revoked'')) = StreamError CodeForbidden ''revoked'' True None None"
    by (simp add: fail_closed_def asStreamError_def)
  have "auth_loop sample_env recorder_Emit [Ticked ?t, GotNext (NextErr Canceled)] ?a =
      Over Canceled \<lparr>au_marks = Some no_marks, au_world = sample_world\<lparr>wd_stopped := 1\<rparr>,
        au_reauth = Finished (Some (StreamError CodeForbidden ''revoked'' True None None)), au_ctx = Some Canceled\<rparr>"
    by (simp add: auth_step_def on_tick_def timed_check_def check_error_def fc [simplified] cancel_def cycle_step_def after_turn_def sample_world_def)
  then show ?thesis
    using revocation_ends_disclosure [of ?a sample_env ?t, OF _ _ err, of recorder_Emit "[GotNext (NextErr Canceled)]"] fc
    by simp
qed

end
