(* ===== verification/Stream_Loop.thy ===== *)
theory Stream_Loop
  imports Reauthorize
begin

text \<open>
  One consumer's stream: \<open>Stream\<close>, \<open>emitError\<close> and \<open>syncTracker\<close> of
  \<open>gateway/stream.go\<close>.  The loop runs over what the host and the upstream answer in each
  cycle; the result says whether it returned, panicked or is still waiting.
\<close>

section \<open>Configuration and answers\<close>

text \<open>The parts of \<open>StreamConfig\<close> that are values; the host's callbacks answer per cycle.\<close>

record stream_config =
  cf_Ordering :: ResourceVersionOrdering
  cf_DefaultProjections :: bool
  cf_ReauthorizationInterval :: int
  cf_sha :: "string \<Rightarrow> string"

text \<open>
  What one iteration of the loop meets: the answers of \<open>Authorize\<close>, \<open>SelectProjection\<close>
  and \<open>Clients\<close>, what happens during the cycle, the clock when the snapshot completed and
  when the cycle ended, and the caller's context after the cycle.
\<close>

record answers =
  an_authorize :: "go_error option"
  an_select :: "go_error + Projection"
  an_client :: "go_error option"
  an_inputs :: "input list"
  an_late :: "tick option"
  an_syncedNow :: int
  an_endNow :: int
  an_ctx :: "go_error option"

text \<open>The sink state: the tracker's \<open>syncedAt\<close>, the last sequence number, the caller's sink.\<close>

type_synonym 's tracked = "int option \<times> 64 word \<times> 's"

text \<open>
  \<open>Panicked\<close> is a panic on the stream's own goroutine, \<open>Killed\<close> one on the checking
  goroutine, which ends the process without running the stream's deferred calls.
\<close>

datatype ('s, 'p) stream_result =
    Waiting "('s tracked, 'p) world"
  | Returned go_error "('s tracked, 'p) world"
  | Panicked "('s tracked, 'p) world"
  | Killed "('s tracked, 'p) world"

section \<open>Operations\<close>

definition direct_Emit :: "'s emit \<Rightarrow> 's tracked emit" where
  "direct_Emit emit ev s = (let (r, q) = sequenceSink_Emit emit ev (snd s) in (r, (fst s, q)))"

definition syncTracker_Emit :: "int \<Rightarrow> 's emit \<Rightarrow> 's tracked emit" where
  "syncTracker_Emit now emit ev s =
     (let (r, s') = direct_Emit emit ev s
      in (r, (if r = None \<and> ev_Type ev = EventSynced \<and> fst s' = None then Some now else fst s', snd s')))"

definition lastedPast :: "int \<Rightarrow> int \<Rightarrow> 's tracked \<Rightarrow> bool" where
  "lastedPast d now s \<longleftrightarrow> (case fst s of None \<Rightarrow> False | Some syncedAt \<Rightarrow> now - syncedAt \<ge> d)"

definition minUsefulCycle :: int where
  "minUsefulCycle = 1000000000"

definition emitError ::
    "'s emit \<Rightarrow> 'p \<Rightarrow> Scope \<Rightarrow> Projection \<Rightarrow> go_error \<Rightarrow> ('s, 'p) world \<Rightarrow> go_error \<times> ('s, 'p) world" where
  "emitError emit caller scope projection err w =
     (let se = asStreamError err;
          w = diagnose \<lparr>dg_Principal = Some caller, dg_Scope = Some scope, dg_Code = se_Code se,
                 dg_Terminal = se_Terminal se, dg_Err = err\<rparr> w;
          kind = (if se_Terminal se then ObservationTerminalError else ObservationRetryableError);
          w = observe (obs_of kind (Some scope) projection None (Some (se_Code se))) w
      in case world_Emit emit (StreamError_Event se) w of
           (Some emitErr, w) \<Rightarrow> (emitErr, w)
         | (None, w) \<Rightarrow> (ErrStream se, w))"

text \<open>The deferred observation runs on every return, and while a panic unwinds.\<close>

definition close_stream :: "Scope \<Rightarrow> ('s, 'p) stream_result \<Rightarrow> ('s, 'p) stream_result" where
  "close_stream scope r =
     (let closed = obs_of ObservationStreamClosed (Some scope) [] None None in
      case r of
        Waiting w \<Rightarrow> Waiting w
      | Returned e w \<Rightarrow> Returned e (observe closed w)
      | Panicked w \<Rightarrow> Panicked (observe closed w)
      | Killed w \<Rightarrow> Killed w)"

definition return_error ::
    "'s emit \<Rightarrow> 'p \<Rightarrow> Scope \<Rightarrow> Projection \<Rightarrow> go_error \<Rightarrow> ('s tracked, 'p) world \<Rightarrow> ('s, 'p) stream_result" where
  "return_error emit caller scope projection err w =
     (case emitError (direct_Emit emit) caller scope projection err w of (e, w) \<Rightarrow> Returned e w)"

definition resyncEvent :: Event where
  "resyncEvent = StreamError_Event (ResyncRequired ''upstream continuity lost; a new snapshot cycle follows'')"

definition quickEndsError :: "go_error \<Rightarrow> StreamError" where
  "quickEndsError err =
     with_cause (UpstreamUnavailable ''the upstream watch keeps ending before it is of use; retry later'' 0) err"

text \<open>
  The classification after a cycle ended with \<open>err\<close>: \<open>None\<close> when \<open>errors.Is\<close> panics,
  otherwise whether the error is recovered on this connection.
\<close>

definition recoverable :: "go_error \<Rightarrow> bool option" where
  "recoverable err =
     (case as_se err of
        Some se \<Rightarrow> Some (\<not> se_Terminal se \<and> se_Code se = CodeResyncRequired)
      | None \<Rightarrow> errors_Is err ErrWatchClosed)"

definition selected :: "stream_config \<Rightarrow> 'p \<Rightarrow> Scope \<Rightarrow> Projection \<Rightarrow> answers \<Rightarrow> go_error + Projection" where
  "selected cf caller scope requested an =
     (if cf_DefaultProjections cf
      then StaticProjection_SelectProjection ProjectionFull caller scope requested
      else an_select an)"

definition cycle_env_of :: "stream_config \<Rightarrow> Scope \<Rightarrow> Projection \<Rightarrow> cycle_env" where
  "cycle_env_of cf scope projection =
     \<lparr>ce_scope = scope, ce_projection = projection, ce_ordering = cf_Ordering cf, ce_sha = cf_sha cf\<rparr>"

text \<open>With the default policy a timed check asks it too.\<close>

definition tick_of :: "stream_config \<Rightarrow> 'p \<Rightarrow> Scope \<Rightarrow> Projection \<Rightarrow> tick \<Rightarrow> tick" where
  "tick_of cf caller scope requested t =
     (if cf_DefaultProjections cf
      then t\<lparr>tk_select := StaticProjection_SelectProjection ProjectionFull caller scope requested\<rparr> else t)"

definition input_of :: "stream_config \<Rightarrow> 'p \<Rightarrow> Scope \<Rightarrow> Projection \<Rightarrow> input \<Rightarrow> input" where
  "input_of cf caller scope requested i =
     (case i of Ticked t \<Rightarrow> Ticked (tick_of cf caller scope requested t) | _ \<Rightarrow> i)"

datatype ('s, 'p) iteration =
    Again nat "('s tracked, 'p) world"
  | Done "('s, 'p) stream_result"

text \<open>The part of one iteration after \<open>authorizedCycle\<close> returned an error.\<close>

definition after_cycle ::
    "'s emit \<Rightarrow> 'p \<Rightarrow> Scope \<Rightarrow> Projection \<Rightarrow> answers \<Rightarrow> nat \<Rightarrow> go_error \<Rightarrow> ('s tracked, 'p) world \<Rightarrow> ('s, 'p) iteration" where
  "after_cycle emit caller scope projection an quickEnds err w =
     (case an_ctx an of
        Some ctxErr \<Rightarrow> Done (Returned ctxErr w)
      | None \<Rightarrow>
          (case recoverable err of
             None \<Rightarrow> Done (Panicked w)
           | Some False \<Rightarrow> Done (return_error emit caller scope projection err w)
           | Some True \<Rightarrow>
               (let w = (case as_se err of
                           None \<Rightarrow> w
                         | Some se \<Rightarrow> diagnose \<lparr>dg_Principal = Some caller, dg_Scope = Some scope,
                             dg_Code = se_Code se, dg_Terminal = False, dg_Err = err\<rparr> w)
                in if lastedPast minUsefulCycle (an_endNow an) (wd_sink w) then Again 0 w
                   else if Suc quickEnds > 1
                   then Done (return_error emit caller scope projection (ErrStream (quickEndsError err)) w)
                   else Again (Suc quickEnds) w)))"

definition run_cycle ::
    "stream_config \<Rightarrow> 's emit \<Rightarrow> 'p \<Rightarrow> Scope \<Rightarrow> Projection \<Rightarrow> Projection \<Rightarrow> answers \<Rightarrow> ('s tracked, 'p) world \<Rightarrow>
     ('s tracked, 'p) auth_turn" where
  "run_cycle cf emit caller scope requested projection an w =
     authorizedCycle (cf_ReauthorizationInterval cf) (cycle_env_of cf scope projection)
       (syncTracker_Emit (an_syncedNow an) emit)
       (map (input_of cf caller scope requested) (an_inputs an))
       (map_option (tick_of cf caller scope requested) (an_late an))
       (w\<lparr>wd_sink := (None, snd (wd_sink w))\<rparr>)"

text \<open>Every cycle after the first is announced.\<close>

definition resynced :: "'s emit \<Rightarrow> Scope \<Rightarrow> nat \<Rightarrow> ('s tracked, 'p) world \<Rightarrow> go_error option \<times> ('s tracked, 'p) world" where
  "resynced emit scope cycles w =
     (if cycles > 0
      then world_Emit (direct_Emit emit) resyncEvent
             (observe (obs_of ObservationConsumerResync (Some scope) [] None None) w)
      else (None, w))"

definition stream_iteration ::
    "stream_config \<Rightarrow> 's emit \<Rightarrow> 'p \<Rightarrow> Scope \<Rightarrow> Projection \<Rightarrow> answers \<Rightarrow> nat \<Rightarrow> nat \<Rightarrow> ('s tracked, 'p) world \<Rightarrow>
     ('s, 'p) iteration" where
  "stream_iteration cf emit caller scope requested an cycles quickEnds w =
     (case resynced emit scope cycles w of
        (Some err, w) \<Rightarrow> Done (Returned err w)
      | (None, w) \<Rightarrow>
          (case an_authorize an of
             Some err \<Rightarrow> Done (return_error emit caller scope [] err w)
           | None \<Rightarrow>
               (case selected cf caller scope requested an of
                  Inl err \<Rightarrow> Done (return_error emit caller scope [] err w)
                | Inr projection \<Rightarrow>
                    (if \<not> isBuiltinProjection projection
                     then Done (return_error emit caller scope projection
                            (ErrStream (StreamError CodeInternal
                               (''projection policy selected an unknown projection: '' @ projection) True None None)) w)
                     else
                       (let w = observe (obs_of ObservationCycleStarted (Some scope) projection None None) w in
                        case an_client an of
                          Some err \<Rightarrow> Done (return_error emit caller scope projection err w)
                        | None \<Rightarrow>
                            (case run_cycle cf emit caller scope requested projection an w of
                               Going a \<Rightarrow> Done (Waiting (au_world a))
                             | Crashed w \<Rightarrow> Done (Killed w)
                             | Over err a \<Rightarrow>
                                 after_cycle emit caller scope projection an quickEnds err (au_world a)))))))"

fun stream_loop ::
    "stream_config \<Rightarrow> 's emit \<Rightarrow> 'p \<Rightarrow> Scope \<Rightarrow> Projection \<Rightarrow> answers list \<Rightarrow> nat \<Rightarrow> nat \<Rightarrow> ('s tracked, 'p) world \<Rightarrow>
     ('s, 'p) stream_result" where
  "stream_loop cf emit caller scope requested [] cycles quickEnds w = Waiting w"
| "stream_loop cf emit caller scope requested (an # ans) cycles quickEnds w =
     (case stream_iteration cf emit caller scope requested an cycles quickEnds w of
        Done r \<Rightarrow> r
      | Again q w' \<Rightarrow> stream_loop cf emit caller scope requested ans (Suc cycles) q w')"

definition Stream ::
    "stream_config \<Rightarrow> 's emit \<Rightarrow> 'p \<Rightarrow> Scope \<Rightarrow> Projection \<Rightarrow> answers list \<Rightarrow> 's \<Rightarrow> ('s, 'p) stream_result" where
  "Stream cf emit caller scope requested ans s =
     (let w = \<lparr>wd_sink = (None, 0, s), wd_obs = [], wd_diag = [], wd_opened = 0, wd_stopped = 0,
               wd_revisions = Map.empty\<rparr>
      in close_stream scope
           (stream_loop cf emit caller scope requested ans 0 0
              (observe (obs_of ObservationStreamOpened (Some scope) [] None None) w)))"

section \<open>Notions the lemmas use\<close>

fun result_world :: "('s, 'p) stream_result \<Rightarrow> ('s tracked, 'p) world" where
  "result_world (Waiting w) = w"
| "result_world (Returned e w) = w"
| "result_world (Panicked w) = w"
| "result_world (Killed w) = w"

fun iteration_world :: "('s, 'p) iteration \<Rightarrow> ('s tracked, 'p) world" where
  "iteration_world (Again q w) = w"
| "iteration_world (Done r) = result_world r"

text \<open>What the caller's sink was handed, before numbering.\<close>

definition got :: "('s \<Rightarrow> Event list) \<Rightarrow> 's tracked \<Rightarrow> Event list" where
  "got delivered s = map unnumber (delivered (snd (snd s)))"

text \<open>An event of a cycle that was authorized, with the projection its policy granted.\<close>

definition authorized_event ::
    "stream_config \<Rightarrow> 'p \<Rightarrow> Scope \<Rightarrow> Projection \<Rightarrow> answers \<Rightarrow> Event \<Rightarrow> bool" where
  "authorized_event cf caller scope requested an e \<longleftrightarrow>
     an_authorize an = None \<and> an_client an = None \<and>
     (\<exists>p. selected cf caller scope requested an = Inr p \<and> isBuiltinProjection p \<and>
          auth_sent (cycle_env_of cf scope p) (an_inputs an) e)"

text \<open>An error event, which carries no object.\<close>

definition is_error_event :: "Event \<Rightarrow> bool" where
  "is_error_event e \<longleftrightarrow> ev_Type e = EventError \<and> ev_Object e = []"

text \<open>
  The numbering after at most \<open>n\<close> calls of \<open>Emit\<close>: the counter of the sequence sink stands at one
  of the first \<open>n\<close> numbers, and the numbers delivered are increasing positive numbers up to it,
  each as the 64-bit word the code writes.
\<close>

definition seq_upto :: "('s \<Rightarrow> Event list) \<Rightarrow> nat \<Rightarrow> 64 word \<times> 's \<Rightarrow> bool" where
  "seq_upto delivered n s \<longleftrightarrow>
     (\<exists>N ns. N \<le> n \<and> fst s = word_of_nat N \<and> map ev_Seq (delivered (snd s)) = map word_of_nat ns \<and>
             sorted_wrt (<) ns \<and> (\<forall>k \<in> set ns. 1 \<le> k \<and> k \<le> N))"

section \<open>Lemmas\<close>

subsection \<open>What every emission keeps\<close>

text \<open>
  A property of the sink state that every \<open>Emit\<close> keeps holds after any run.  The lemmas are
  proved for a property that may also count: \<open>P n\<close> holds of the sink after at most \<open>n\<close> calls of
  \<open>Emit\<close>, so that each lemma says how many calls its operation can make.
\<close>

definition emit_keeps :: "'s emit \<Rightarrow> ('s \<Rightarrow> bool) \<Rightarrow> bool" where
  "emit_keeps emit P \<longleftrightarrow> (\<forall>e s. P s \<longrightarrow> P (snd (emit e s)))"

definition emit_counts :: "'s emit \<Rightarrow> (nat \<Rightarrow> 's \<Rightarrow> bool) \<Rightarrow> bool" where
  "emit_counts emit P \<longleftrightarrow>
     (\<forall>n s. P n s \<longrightarrow> P (Suc n) s) \<and> (\<forall>n e s. P n s \<longrightarrow> P (Suc n) (snd (emit e s)))"

lemma keeps_counts: "emit_keeps emit P \<Longrightarrow> emit_counts emit (\<lambda>_. P)"
  by (simp add: emit_keeps_def emit_counts_def)

lemma counts_up: "emit_counts emit P \<Longrightarrow> P n s \<Longrightarrow> n \<le> m \<Longrightarrow> P m s"
  by (induction m) (auto simp: emit_counts_def le_Suc_eq)

lemma counts_perform:
  "emit_counts emit P \<Longrightarrow> P n (wd_sink w) \<Longrightarrow> P (Suc n) (wd_sink (turn_world (perform g emit pl w)))"
  unfolding emit_counts_def perform_def
  by (auto split: plan.split prod.split option.split) (metis snd_conv)+

lemma counts_gate: "emit_counts emit P \<Longrightarrow> emit_counts (authorizationSink_Emit ctx emit) P"
  by (auto simp: emit_counts_def authorizationSink_Emit_def split: option.split)

lemma counts_begin:
  "emit_counts emit P \<Longrightarrow> P n (wd_sink w) \<Longrightarrow> P (Suc n) (wd_sink (turn_world (begin_cycle g emit w)))"
  unfolding emit_counts_def begin_cycle_def world_Emit_def observe_def Let_def
  by (auto split: prod.split option.split) (metis snd_conv)+

text \<open>Each input of a cycle makes the code emit at most once.\<close>

lemma counts_auth_step:
  assumes "emit_counts emit P" and "P n (wd_sink (au_world a))"
  shows "P (Suc n) (wd_sink (auth_world (auth_step g emit i a)))"
proof -
  note gate = counts_gate [OF assms(1), of "au_ctx a"]
  have up: "P (Suc n) (wd_sink (au_world a))" using assms by (auto simp: emit_counts_def)
  show ?thesis
    using up counts_begin [where w = "au_world a" and g = g, OF gate assms(2)]
      counts_perform [where w = "au_world a" and g = g, OF gate assms(2)]
    by (cases i) (auto simp: auth_step_def on_tick_def after_turn_sink cycle_step_plan Let_def
        split: option.split reauth.split check.split)
qed

lemma counts_auth_loop:
  "emit_counts emit P \<Longrightarrow> P n (wd_sink (au_world a)) \<Longrightarrow>
     P (n + length is) (wd_sink (auth_world (auth_loop g emit is a)))"
proof (induction "is" arbitrary: a n)
  case (Cons i "is")
  have step: "P (Suc n) (wd_sink (auth_world (auth_step g emit i a)))" by (rule counts_auth_step [OF Cons.prems])
  show ?case
  proof (cases "auth_step g emit i a")
    case (Going b)
    then show ?thesis using Cons.IH [OF Cons.prems(1), of "Suc n" b] step by simp
  qed (use counts_up [OF Cons.prems(1) step, of "n + length (i # is)"] in simp_all)
qed simp

lemma counts_authorizedCycle:
  assumes "emit_counts emit P" and "P n (wd_sink w)"
  shows "P (n + length inputs) (wd_sink (auth_world (authorizedCycle interval g emit inputs late w)))"
proof -
  have l: "P (n + length inputs) (wd_sink (auth_world (auth_loop g emit is (auth_start w))))"
    if "length is \<le> length inputs" for "is"
    by (rule counts_up [OF assms(1) counts_auth_loop [OF assms(1), of n]])
       (simp_all add: auth_start_def assms(2) that)
  show ?thesis using l [of "filter plain_input inputs"] l [of inputs] length_filter_le [of plain_input inputs]
    by (auto simp: authorizedCycle_def split: auth_turn.split)
qed

lemma counts_direct:
  "emit_counts (sequenceSink_Emit emit) Q \<Longrightarrow> emit_counts (direct_Emit emit) (\<lambda>n s. Q n (snd s))"
  by (simp add: emit_counts_def direct_Emit_def Let_def case_prod_beta)

lemma counts_tracker:
  "emit_counts (sequenceSink_Emit emit) Q \<Longrightarrow> emit_counts (syncTracker_Emit now emit) (\<lambda>n s. Q n (snd s))"
  by (simp add: emit_counts_def syncTracker_Emit_def direct_Emit_def Let_def case_prod_beta)

lemma counts_world_Emit:
  "emit_counts emit P \<Longrightarrow> P n (wd_sink w) \<Longrightarrow> P (Suc n) (wd_sink (snd (world_Emit emit e w)))"
  by (simp add: emit_counts_def world_Emit_def Let_def case_prod_beta)

lemma emitError_world:
  "snd (emitError emit caller scope p err w) =
     snd (world_Emit emit (StreamError_Event (asStreamError err))
       (observe (obs_of (if se_Terminal (asStreamError err) then ObservationTerminalError else ObservationRetryableError)
            (Some scope) p None (Some (se_Code (asStreamError err))))
         (diagnose \<lparr>dg_Principal = Some caller, dg_Scope = Some scope, dg_Code = se_Code (asStreamError err),
             dg_Terminal = se_Terminal (asStreamError err), dg_Err = err\<rparr> w)))"
  by (simp add: emitError_def Let_def split: prod.split option.split)

lemma return_error_world:
  "result_world (return_error emit caller scope p err w) = snd (emitError (direct_Emit emit) caller scope p err w)"
  by (simp add: return_error_def case_prod_beta)

lemma diagnose_sink [simp]: "wd_sink (diagnose d w) = wd_sink w"
  by (simp add: diagnose_def)

lemma observe_sink [simp]: "wd_sink (observe ob w) = wd_sink w"
  by (simp add: observe_def)

lemma counts_return_error:
  "emit_counts (direct_Emit emit) P \<Longrightarrow> P n (wd_sink w) \<Longrightarrow>
     P (Suc n) (wd_sink (result_world (return_error emit caller scope p err w)))"
  unfolding return_error_world emitError_world by (rule counts_world_Emit [where P = P]) simp_all

subsection \<open>The shapes of an iteration\<close>

lemma after_cycleE:
  obtains (same) r where "after_cycle emit caller scope p an q err w = Done r" "result_world r = w" "\<forall>v. r \<noteq> Waiting v"
  | (failed) e v where "after_cycle emit caller scope p an q err w = Done (return_error emit caller scope p e v)"
      "v = w \<or> (\<exists>d. v = diagnose d w)"
  | (again) q' v where "after_cycle emit caller scope p an q err w = Again q' v" "v = w \<or> (\<exists>d. v = diagnose d w)"
      "q' = 0 \<and> lastedPast minUsefulCycle (an_endNow an) (wd_sink w) \<or> q' = Suc q \<and> q = 0"
proof (cases "an_ctx an")
  case (Some e)
  then show thesis by (intro same [of "Returned e w"]) (simp_all add: after_cycle_def)
next
  case None
  define v where "v = (case as_se err of None \<Rightarrow> w
      | Some se \<Rightarrow> diagnose \<lparr>dg_Principal = Some caller, dg_Scope = Some scope, dg_Code = se_Code se,
          dg_Terminal = False, dg_Err = err\<rparr> w)"
  have v: "v = w \<or> (\<exists>d. v = diagnose d w)" by (auto simp: v_def split: option.split)
  then have sink: "wd_sink v = wd_sink w" by auto
  show thesis
  proof (cases "recoverable err")
    case None
    then show thesis using \<open>an_ctx an = None\<close> by (intro same [of "Panicked w"]) (simp_all add: after_cycle_def)
  next
    case (Some b)
    show thesis
    proof (cases b)
      case False
      then show thesis using Some \<open>an_ctx an = None\<close> by (intro failed [of err w]) (simp_all add: after_cycle_def)
    next
      case True
      have eq: "after_cycle emit caller scope p an q err w =
          (if lastedPast minUsefulCycle (an_endNow an) (wd_sink v) then Again 0 v
           else if Suc q > 1 then Done (return_error emit caller scope p (ErrStream (quickEndsError err)) v)
           else Again (Suc q) v)"
        using True Some \<open>an_ctx an = None\<close> by (simp add: after_cycle_def v_def [symmetric] Let_def)
      consider "lastedPast minUsefulCycle (an_endNow an) (wd_sink w)"
        | "\<not> lastedPast minUsefulCycle (an_endNow an) (wd_sink w)" "q \<noteq> 0"
        | "\<not> lastedPast minUsefulCycle (an_endNow an) (wd_sink w)" "q = 0" by blast
      then show thesis
      proof cases
        case 1
        then show thesis using eq sink v by (intro again [of 0 v]) simp_all
      next
        case 2
        then show thesis using eq sink v by (intro failed [of "ErrStream (quickEndsError err)" v]) simp_all
      next
        case 3
        then show thesis using eq sink v by (intro again [of "Suc q" v]) simp_all
      qed
    qed
  qed
qed

lemma stream_iterationE:
  obtains (resync) err v where "stream_iteration cf emit caller scope requested an cycles q w = Done (Returned err v)"
      "resynced emit scope cycles w = (Some err, v)"
  | (refused) p err v u where "stream_iteration cf emit caller scope requested an cycles q w = Done (return_error emit caller scope p err u)"
      "resynced emit scope cycles w = (None, v)" "u = v \<or> (\<exists>ob. u = observe ob v)"
  | (cycled) p v u where "resynced emit scope cycles w = (None, v)" "u = observe (obs_of ObservationCycleStarted (Some scope) p None None) v"
      "an_authorize an = None" "an_client an = None" "selected cf caller scope requested an = Inr p" "isBuiltinProjection p"
      "stream_iteration cf emit caller scope requested an cycles q w =
         (case run_cycle cf emit caller scope requested p an u of
            Going a \<Rightarrow> Done (Waiting (au_world a))
          | Crashed x \<Rightarrow> Done (Killed x)
          | Over err a \<Rightarrow> after_cycle emit caller scope p an q err (au_world a))"
proof -
  obtain r v where rs: "resynced emit scope cycles w = (r, v)" by (cases "resynced emit scope cycles w")
  show thesis
  proof (cases r)
    case (Some err)
    then show thesis using rs by (intro resync) (simp_all add: stream_iteration_def)
  next
    case None
    note eq = stream_iteration_def [of cf emit caller scope requested an cycles q w, unfolded rs None, simplified]
    show thesis
    proof (cases "an_authorize an")
      case (Some err)
      then show thesis using eq rs None by (intro refused [of "[]" err v v]) simp_all
    next
      case None
      note auth = None
      show thesis
      proof (cases "selected cf caller scope requested an")
        case (Inl err)
        then show thesis using eq rs auth \<open>r = None\<close> by (intro refused [of "[]" err v v]) simp_all
      next
        case (Inr p)
        show thesis
        proof (cases "isBuiltinProjection p")
          case False
          then show thesis using eq rs auth Inr \<open>r = None\<close>
            by (intro refused [of p "ErrStream (StreamError CodeInternal
                   (''projection policy selected an unknown projection: '' @ p) True None None)" v v]) simp_all
        next
          case True
          let ?u = "observe (obs_of ObservationCycleStarted (Some scope) p None None) v"
          show thesis
          proof (cases "an_client an")
            case (Some err)
            then show thesis using eq rs auth Inr True \<open>r = None\<close>
              by (intro refused [of p err ?u v]) (auto simp: Let_def)
          next
            case None
            then show thesis using eq rs auth Inr True \<open>r = None\<close> by (intro cycled [of v ?u p]) (simp_all add: Let_def)
          qed
        qed
      qed
    qed
  qed
qed

subsection \<open>Invariants of the sink and of the watches\<close>

lemma counts_resynced:
  assumes "emit_counts (sequenceSink_Emit emit) Q" and "Q n (snd (wd_sink w))" and "resynced emit scope cycles w = (r, v)"
  shows "Q (Suc n) (snd (wd_sink v))"
  using counts_world_Emit [OF counts_direct [OF assms(1)],
      of n "observe (obs_of ObservationConsumerResync (Some scope) [] None None) w" resyncEvent]
    counts_up [OF assms(1,2), of "Suc n"] assms(2,3)
  by (auto simp: resynced_def split: if_splits)

lemma counts_run_cycle:
  assumes "emit_counts (sequenceSink_Emit emit) Q" and "Q n (snd (wd_sink w))"
  shows "Q (n + length (an_inputs an)) (snd (wd_sink (auth_world (run_cycle cf emit caller scope requested p an w))))"
  using counts_authorizedCycle [where P = "\<lambda>n s. Q n (snd s)" and n = n and w = "w\<lparr>wd_sink := (None, snd (wd_sink w))\<rparr>"
      and inputs = "map (input_of cf caller scope requested) (an_inputs an)", OF counts_tracker [OF assms(1)]] assms(2)
  by (simp add: run_cycle_def)

text \<open>One cycle of a connection: the announcement, one event per input, the error it ends with.\<close>

definition iteration_emits :: "answers \<Rightarrow> nat" where
  "iteration_emits an = Suc (Suc (length (an_inputs an)))"

lemma counts_iteration:
  assumes keep: "emit_counts (sequenceSink_Emit emit) Q" and Q: "Q n (snd (wd_sink w))"
  shows "Q (n + iteration_emits an)
    (snd (wd_sink (iteration_world (stream_iteration cf emit caller scope requested an cycles q w))))"
proof -
  let ?n = "n + iteration_emits an"
  note up = counts_up [OF keep, of _ _ ?n] and fail = counts_return_error [OF counts_direct [OF keep]]
  show ?thesis
  proof (cases rule: stream_iterationE [of cf emit caller scope requested an cycles q w])
    case (resync err v)
    then show ?thesis using up [OF counts_resynced [OF keep Q resync(2)]] by (simp add: iteration_emits_def)
  next
    case (refused p err v u)
    have "Q (Suc n) (snd (wd_sink u))" using counts_resynced [OF keep Q refused(2)] refused(3) by auto
    from up [OF fail [OF this]] show ?thesis using refused(1) by (simp add: iteration_emits_def)
  next
    case (cycled p v u)
    have "Q (Suc n) (snd (wd_sink u))" using counts_resynced [OF keep Q cycled(1)] cycled(2) by simp
    note run = counts_run_cycle [OF keep this, of an cf caller scope requested p]
    note run' = up [OF run]
    show ?thesis
    proof (cases "run_cycle cf emit caller scope requested p an u")
      case (Over err a)
      show ?thesis
      proof (cases rule: after_cycleE [of emit caller scope p an q err "au_world a"])
        case (failed e x)
        then have "Q (Suc n + length (an_inputs an)) (snd (wd_sink x))" using run Over by auto
        from fail [OF this] show ?thesis using failed(1) cycled(7) Over by (simp add: iteration_emits_def)
      qed (use run' cycled(7) Over in \<open>auto simp: iteration_emits_def\<close>)
    qed (use run' cycled(7) in \<open>auto simp: iteration_emits_def\<close>)
  qed
qed

text \<open>What a whole connection can emit, as a bound on the answers it is given.\<close>

definition stream_emits :: "answers list \<Rightarrow> nat" where
  "stream_emits ans = (\<Sum>an \<leftarrow> ans. iteration_emits an)"

lemma counts_stream_loop:
  "emit_counts (sequenceSink_Emit emit) Q \<Longrightarrow> Q n (snd (wd_sink w)) \<Longrightarrow>
     Q (n + stream_emits ans) (snd (wd_sink (result_world (stream_loop cf emit caller scope requested ans cycles q w))))"
proof (induction ans arbitrary: cycles q w n)
  case (Cons an ans)
  note it = counts_iteration [OF Cons.prems, of an cf caller scope requested cycles q]
  show ?case
  proof (cases "stream_iteration cf emit caller scope requested an cycles q w")
    case (Again q' v)
    then show ?thesis using Cons.IH [OF Cons.prems(1), of "n + iteration_emits an" v] it
      by (simp add: stream_emits_def add.assoc)
  next
    case (Done r)
    then show ?thesis using counts_up [OF Cons.prems(1) it, of "n + stream_emits (an # ans)"]
      by (simp add: stream_emits_def)
  qed
qed (simp add: stream_emits_def)

lemma close_stream_sink [simp]: "wd_sink (result_world (close_stream scope r)) = wd_sink (result_world r)"
  by (cases r) (simp_all add: close_stream_def Let_def)

lemma counts_Stream:
  assumes "emit_counts (sequenceSink_Emit emit) Q" and "Q 0 (0, s)"
  shows "Q (stream_emits ans) (snd (wd_sink (result_world (Stream cf emit caller scope requested ans s))))"
  unfolding Stream_def Let_def
  using counts_stream_loop [where n = 0 and w = "observe (obs_of ObservationStreamOpened (Some scope) [] None None)
         \<lparr>wd_sink = (None, 0, s), wd_obs = [], wd_diag = [], wd_opened = 0, wd_stopped = 0, wd_revisions = Map.empty\<rparr>",
      OF assms(1)] assms(2) by simp

lemma keeps_Stream:
  assumes "emit_keeps (sequenceSink_Emit emit) Q" and "Q (0, s)"
  shows "Q (snd (wd_sink (result_world (Stream cf emit caller scope requested ans s))))"
  using counts_Stream [where Q = "\<lambda>_. Q" and s = s, OF keeps_counts [OF assms(1)]] assms(2) by simp

text \<open>Watches: every one that was opened is stopped before the stream returns or starts another.\<close>

abbreviation balanced :: "('s, 'p) world \<Rightarrow> bool" where
  "balanced w \<equiv> wd_opened w = wd_stopped w"

lemma world_Emit_balanced [simp]:
  "wd_opened (snd (world_Emit emit e w)) = wd_opened w" "wd_stopped (snd (world_Emit emit e w)) = wd_stopped w"
  by (simp_all add: world_Emit_def Let_def case_prod_beta)

lemma observe_balanced [simp]:
  "wd_opened (observe ob w) = wd_opened w" "wd_stopped (observe ob w) = wd_stopped w"
  "wd_opened (diagnose d w) = wd_opened w" "wd_stopped (diagnose d w) = wd_stopped w"
  by (simp_all add: observe_def diagnose_def)

lemma return_error_balanced:
  "balanced w \<Longrightarrow> balanced (result_world (return_error emit caller scope p err w))"
  by (simp add: return_error_world emitError_world)

lemma resynced_balanced: "resynced emit scope cycles w = (r, v) \<Longrightarrow> balanced w \<Longrightarrow> balanced v"
proof -
  assume "resynced emit scope cycles w = (r, v)" and w: "balanced w"
  then have v: "v = snd (resynced emit scope cycles w)" by simp
  show "balanced v" using w unfolding v resynced_def by simp
qed

definition finished :: "('s, 'p) iteration \<Rightarrow> bool" where
  "finished it \<longleftrightarrow> (\<forall>w. it \<noteq> Done (Waiting w)) \<and> (\<forall>w. it \<noteq> Done (Killed w))"

lemma iteration_balanced:
  assumes "balanced w" and "finished (stream_iteration cf emit caller scope requested an cycles q w)"
  shows "balanced (iteration_world (stream_iteration cf emit caller scope requested an cycles q w))"
proof (cases rule: stream_iterationE [of cf emit caller scope requested an cycles q w])
  case (resync err v)
  then show ?thesis using resynced_balanced [OF resync(2) assms(1)] by simp
next
  case (refused p err v u)
  then show ?thesis using resynced_balanced [OF refused(2) assms(1)] return_error_balanced [of u] by auto
next
  case (cycled p v u)
  have u: "balanced u" using resynced_balanced [OF cycled(1) assms(1)] cycled(2) by simp
  show ?thesis
  proof (cases "run_cycle cf emit caller scope requested p an u")
    case (Over err a)
    then have a: "balanced (au_world a)" using u unfolding run_cycle_def by (auto dest: authorizedCycle_balanced)
    show ?thesis
    proof (cases rule: after_cycleE [of emit caller scope p an q err "au_world a"])
      case (failed e x)
      then have "balanced x" using a by auto
      then show ?thesis using return_error_balanced failed(1) cycled(7) Over by simp
    qed (use a cycled(7) Over in auto)
  qed (use assms(2) cycled(7) in \<open>auto simp: finished_def\<close>)
qed

lemma stream_loop_balanced:
  "balanced w \<Longrightarrow> stream_loop cf emit caller scope requested ans cycles q w = r \<Longrightarrow>
     r = Returned e v \<or> r = Panicked v \<Longrightarrow> balanced v"
proof (induction ans arbitrary: cycles q w)
  case (Cons an ans)
  note it = iteration_balanced [OF Cons.prems(1), of cf emit caller scope requested an cycles q]
  show ?case
  proof (cases "stream_iteration cf emit caller scope requested an cycles q w")
    case (Again q' u)
    then show ?thesis using Cons.IH [of u "Suc cycles" q'] Cons.prems(2,3) it by (simp add: finished_def)
  next
    case (Done s)
    then show ?thesis using Cons.prems(2,3) it by (auto simp: finished_def)
  qed
qed auto

subsection \<open>What a stream delivers\<close>

lemma is_error_event_simps [simp]: "is_error_event resyncEvent" "is_error_event (StreamError_Event se)"
  by (simp_all add: is_error_event_def resyncEvent_def StreamError_Event_def)

context wire_sink
begin

lemma direct_sink: "sink (direct_Emit emit) (got delivered)"
  using sequence_sink unfolding sink_def got_def direct_Emit_def
  by (fastforce simp: Let_def split: prod.splits)

lemma tracker_sink: "sink (syncTracker_Emit now emit) (got delivered)"
  using direct_sink unfolding sink_def got_def syncTracker_Emit_def
  by (fastforce simp: Let_def split: prod.splits if_splits)

lemma error_delivered:
  "\<exists>es. got delivered (wd_sink (snd (world_Emit (direct_Emit emit) (StreamError_Event se) w))) = got delivered (wd_sink w) @ es \<and>
     set es \<subseteq> {StreamError_Event se}"
proof -
  obtain r s where "direct_Emit emit (StreamError_Event se) (wd_sink w) = (r, s)"
    by (cases "direct_Emit emit (StreamError_Event se) (wd_sink w)")
  moreover have "ev_Seq (StreamError_Event se) = 0" by (simp add: StreamError_Event_def)
  ultimately show ?thesis
    using sink.emit_ok [OF direct_sink, of "StreamError_Event se" "wd_sink w" s] sink.emit_err [OF direct_sink, of "StreamError_Event se" "wd_sink w" _ s]
    by (cases r) (auto simp: world_Emit_def)
qed

lemma return_error_delivered:
  "\<exists>es. got delivered (wd_sink (result_world (return_error emit caller scope p err w))) = got delivered (wd_sink w) @ es \<and>
     set es \<subseteq> {StreamError_Event (asStreamError err)}"
  unfolding return_error_world emitError_world
  using error_delivered [of "asStreamError err"
     "observe (obs_of (if se_Terminal (asStreamError err) then ObservationTerminalError else ObservationRetryableError)
            (Some scope) p None (Some (se_Code (asStreamError err))))
         (diagnose \<lparr>dg_Principal = Some caller, dg_Scope = Some scope, dg_Code = se_Code (asStreamError err),
             dg_Terminal = se_Terminal (asStreamError err), dg_Err = err\<rparr> w)"] by simp

lemma resynced_delivered:
  assumes "resynced emit scope cycles w = (r, v)"
  shows "\<exists>es. got delivered (wd_sink v) = got delivered (wd_sink w) @ es \<and> set es \<subseteq> {resyncEvent}"
proof -
  have v: "v = snd (resynced emit scope cycles w)" using assms by simp
  show ?thesis
    using error_delivered [of "ResyncRequired ''upstream continuity lost; a new snapshot cycle follows''"
        "observe (obs_of ObservationConsumerResync (Some scope) [] None None) w"]
    unfolding v resynced_def resyncEvent_def by auto
qed

lemma run_cycle_delivered:
  "\<exists>es. got delivered (wd_sink (auth_world (run_cycle cf emit caller scope requested p an w))) = got delivered (wd_sink w) @ es \<and>
     (\<forall>e \<in> set es. auth_sent (cycle_env_of cf scope p) (an_inputs an) e)"
proof -
  have m: "auth_sent g (an_inputs an) e" if "auth_sent g (map (input_of cf caller scope requested) (an_inputs an)) e" for g e
  proof -
    have "GotNext r \<in> set (an_inputs an)" if "GotNext r = input_of cf caller scope requested i" "i \<in> set (an_inputs an)" for r i
      using that by (cases i) (auto simp: input_of_def)
    then show ?thesis using that by (auto simp: auth_sent_def)
  qed
  have n: "got delivered (None, snd (wd_sink w)) = got delivered (wd_sink w)" by (simp add: got_def)
  show ?thesis
    using sink.authorizedCycle_sent [OF tracker_sink, of "cf_ReauthorizationInterval cf" "cycle_env_of cf scope p" "an_syncedNow an"
        "map (input_of cf caller scope requested) (an_inputs an)" "map_option (tick_of cf caller scope requested) (an_late an)"
        "w\<lparr>wd_sink := (None, snd (wd_sink w))\<rparr>"] m
    unfolding run_cycle_def by (auto simp: n)
qed

lemma iteration_delivered:
  "\<exists>es. got delivered (wd_sink (iteration_world (stream_iteration cf emit caller scope requested an cycles q w))) =
      got delivered (wd_sink w) @ es \<and>
     (\<forall>e \<in> set es. is_error_event e \<or> authorized_event cf caller scope requested an e)"
proof (cases rule: stream_iterationE [of cf emit caller scope requested an cycles q w])
  case (resync err v)
  then show ?thesis using resynced_delivered [OF resync(2)] by fastforce
next
  case (refused p err v u)
  obtain es fs where "got delivered (wd_sink v) = got delivered (wd_sink w) @ es" "set es \<subseteq> {resyncEvent}"
    "got delivered (wd_sink (result_world (return_error emit caller scope p err u))) = got delivered (wd_sink u) @ fs"
    "set fs \<subseteq> {StreamError_Event (asStreamError err)}"
    using resynced_delivered [OF refused(2)] return_error_delivered by metis
  then show ?thesis using refused(1,3) by (intro exI [of _ "es @ fs"]) auto
next
  case (cycled p v u)
  obtain es fs where es: "got delivered (wd_sink v) = got delivered (wd_sink w) @ es" "set es \<subseteq> {resyncEvent}"
    and fs: "got delivered (wd_sink (auth_world (run_cycle cf emit caller scope requested p an u))) = got delivered (wd_sink u) @ fs"
    "\<forall>e \<in> set fs. auth_sent (cycle_env_of cf scope p) (an_inputs an) e"
    using resynced_delivered [OF cycled(1)] run_cycle_delivered by metis
  have ok: "\<forall>e \<in> set (es @ fs). is_error_event e \<or> authorized_event cf caller scope requested an e"
    using es(2) fs(2) cycled(3-6) by (auto simp: authorized_event_def)
  have eq: "got delivered (wd_sink (auth_world (run_cycle cf emit caller scope requested p an u))) = got delivered (wd_sink w) @ es @ fs"
    using fs(1) es(1) cycled(2) by simp
  show ?thesis
  proof (cases "run_cycle cf emit caller scope requested p an u")
    case (Over err a)
    show ?thesis
    proof (cases rule: after_cycleE [of emit caller scope p an q err "au_world a"])
      case (failed e x)
      obtain hs where "got delivered (wd_sink (result_world (return_error emit caller scope p e x))) = got delivered (wd_sink x) @ hs"
        "set hs \<subseteq> {StreamError_Event (asStreamError e)}" using return_error_delivered by metis
      then show ?thesis using failed cycled(7) Over eq ok
        by (intro exI [of _ "(es @ fs) @ hs"]) auto
    qed (use eq ok cycled(7) Over in \<open>auto intro!: exI [of _ "es @ fs"]\<close>)
  qed (use eq ok cycled(7) in \<open>auto intro!: exI [of _ "es @ fs"]\<close>)
qed

lemma stream_loop_delivered:
  "\<exists>es. got delivered (wd_sink (result_world (stream_loop cf emit caller scope requested ans cycles q w))) =
      got delivered (wd_sink w) @ es \<and>
     (\<forall>e \<in> set es. is_error_event e \<or> (\<exists>an \<in> set ans. authorized_event cf caller scope requested an e))"
proof (induction ans arbitrary: cycles q w)
  case (Cons an ans)
  obtain es where es: "got delivered (wd_sink (iteration_world (stream_iteration cf emit caller scope requested an cycles q w))) =
      got delivered (wd_sink w) @ es"
    "\<forall>e \<in> set es. is_error_event e \<or> authorized_event cf caller scope requested an e"
    using iteration_delivered [of cf caller scope requested an cycles q w] by blast
  show ?case
  proof (cases "stream_iteration cf emit caller scope requested an cycles q w")
    case (Again q' v)
    obtain fs where "got delivered (wd_sink (result_world (stream_loop cf emit caller scope requested ans (Suc cycles) q' v))) =
        got delivered (wd_sink v) @ fs"
      "\<forall>e \<in> set fs. is_error_event e \<or> (\<exists>an \<in> set ans. authorized_event cf caller scope requested an e)"
      using Cons.IH [of "Suc cycles" q' v] by blast
    then show ?thesis using es Again by (intro exI [of _ "es @ fs"]) auto
  next
    case (Done r)
    then show ?thesis using es by (intro exI [of _ es]) auto
  qed
qed simp

end

subsection \<open>Sequence numbers\<close>

context wire_sink
begin

lemma seq_upto_step:
  assumes "seq_upto delivered n s"
  shows "seq_upto delivered (Suc n) (snd (sequenceSink_Emit emit e s))"
proof -
  obtain N ns where N: "N \<le> n" "fst s = word_of_nat N" "map ev_Seq (delivered (snd s)) = map word_of_nat ns"
    "sorted_wrt (<) ns" "\<forall>k \<in> set ns. 1 \<le> k \<and> k \<le> N" using assms by (auto simp: seq_upto_def)
  obtain r q where rq: "emit (e\<lparr>ev_Seq := fst s + 1\<rparr>) (snd s) = (r, q)"
    by (cases "emit (e\<lparr>ev_Seq := fst s + 1\<rparr>) (snd s)")
  have s': "snd (sequenceSink_Emit emit e s) = (fst s + 1, q)" by (simp add: sequenceSink_Emit_def Let_def rq)
  have up: "fst s + 1 = word_of_nat (Suc N)" using N(2) by (simp add: add.commute)
  have new: ?thesis if "map ev_Seq (delivered q) = map word_of_nat ms" "ms = ns \<or> ms = ns @ [Suc N]" for ms
    unfolding seq_upto_def s' using that N(1,4,5) up
    by (intro exI [of _ "Suc N"] exI [of _ ms]) (auto simp: sorted_wrt_append less_Suc_eq_le le_SucI)
  have "delivered q = delivered (snd s) \<or> delivered q = delivered (snd s) @ [e\<lparr>ev_Seq := fst s + 1\<rparr>]"
    using wire_ok [of _ "snd s" q] wire_err [of _ "snd s" _ q] rq by (cases r) blast+
  then show ?thesis using new [of ns] new [of "ns @ [Suc N]"] N(2,3) up by auto
qed

lemma seq_upto_counts: "emit_counts (sequenceSink_Emit emit) (seq_upto delivered)"
  unfolding emit_counts_def
proof (intro conjI allI impI)
  show "seq_upto delivered (Suc n) s" if "seq_upto delivered n s" for n s
    using that unfolding seq_upto_def by (meson le_SucI)
qed (rule seq_upto_step)

end

text \<open>Below \<open>2 ^ 64\<close> the words are ordered as the numbers are.\<close>

lemma unat_word64_small [simp]: "k < 2 ^ 64 \<Longrightarrow> unat (word_of_nat k :: 64 word) = k"
  by (simp add: unat_of_nat take_bit_nat_eq_self)

lemma seq_upto_increasing:
  assumes "seq_upto delivered n s" and "n < 2 ^ 64"
  shows "sorted_wrt (<) (map ev_Seq (delivered (snd s))) \<and> (\<forall>e \<in> set (delivered (snd s)). 1 \<le> ev_Seq e \<and> ev_Seq e \<le> fst s) \<and>
    unat (fst s) \<le> n"
proof -
  obtain N ns where N: "N \<le> n" "fst s = word_of_nat N" "map ev_Seq (delivered (snd s)) = map word_of_nat ns"
    "sorted_wrt (<) ns" "\<forall>k \<in> set ns. 1 \<le> k \<and> k \<le> N" using assms by (auto simp: seq_upto_def)
  have small: "k < 2 ^ 64" if "k \<le> N" for k using that N(1) assms(2) by simp
  have lt: "(word_of_nat a :: 64 word) < word_of_nat b" if "a < b" "b \<le> N" for a b
    using that small [of a] small [of b] by (simp add: word_less_nat_alt)
  have le: "1 \<le> (word_of_nat k :: 64 word) \<and> word_of_nat k \<le> fst s" if "k \<in> set ns" for k
    using that N(2,5) small [of k] small [of N] by (simp add: word_le_nat_alt)
  have "sorted_wrt (<) (map (word_of_nat :: nat \<Rightarrow> 64 word) ns)"
    unfolding sorted_wrt_map by (rule sorted_wrt_mono_rel [OF _ N(4)]) (use lt N(5) in blast)
  then have "sorted_wrt (<) (map ev_Seq (delivered (snd s)))" unfolding N(3) .
  moreover have "\<forall>w \<in> set (map ev_Seq (delivered (snd s))). 1 \<le> w \<and> w \<le> fst s"
    unfolding N(3) using le by auto
  then have "\<forall>e \<in> set (delivered (snd s)). 1 \<le> ev_Seq e \<and> ev_Seq e \<le> fst s" by simp
  moreover have "unat (fst s) \<le> n" using N(1,2) small [of N] by simp
  ultimately show ?thesis by blast
qed

context wire_sink
begin

lemma numbered_keeps: "\<forall>e s. fst (emit e s) = None \<Longrightarrow> emit_keeps (sequenceSink_Emit emit) (numbered delivered)"
proof -
  assume ok: "\<forall>e s. fst (emit e s) = None"
  have "sequenceSink_Emit emit e s = (None, snd (sequenceSink_Emit emit e s))" for e s
    using ok by (simp add: sequenceSink_Emit_def Let_def case_prod_beta)
  then show ?thesis unfolding emit_keeps_def using numbered_step by blast
qed

end

subsection \<open>Every delivered event is authorized\<close>

lemma keeps_sequence: "emit_keeps emit P \<Longrightarrow> emit_keeps (sequenceSink_Emit emit) (\<lambda>s. P (snd s))"
  by (simp add: emit_keeps_def sequenceSink_Emit_def Let_def case_prod_beta)

lemma Stream_delivered:
  assumes "wire_sink emit delivered" and "delivered s = []"
    and "e \<in> set (got delivered (wd_sink (result_world (Stream cf emit caller scope requested ans s))))"
  shows "is_error_event e \<or> (\<exists>an \<in> set ans. authorized_event cf caller scope requested an e)"
proof -
  let ?w = "observe (obs_of ObservationStreamOpened (Some scope) [] None None)
     \<lparr>wd_sink = (None, 0, s), wd_obs = [], wd_diag = [], wd_opened = 0, wd_stopped = 0, wd_revisions = Map.empty\<rparr>"
  have "\<forall>e \<in> set (got delivered (wd_sink (result_world (stream_loop cf emit caller scope requested ans 0 0 ?w)))).
      is_error_event e \<or> (\<exists>an \<in> set ans. authorized_event cf caller scope requested an e)"
    using wire_sink.stream_loop_delivered [OF assms(1), of cf caller scope requested ans 0 0 ?w] assms(2)
    by (auto simp: got_def)
  then show ?thesis using assms(3) by (auto simp: Stream_def)
qed

section \<open>Properties\<close>

text \<open>C5. Disclosure follows authorization.  Whatever the host and the upstream answer, every
  event of a stream other than an error event belongs to a cycle whose authorizer permitted
  the scope and whose policy granted a known projection, and it is that cycle's reset, a
  synced, a deletion, or an object under exactly that projection.\<close>

theorem stream_discloses_authorized:
  assumes "wire_sink emit delivered" and "delivered s = []"
    and "e \<in> set (got delivered (wd_sink (result_world (Stream cf emit caller scope requested ans s))))"
    and "ev_Type e \<noteq> EventError"
  shows "\<exists>an p. an \<in> set ans \<and> an_authorize an = None \<and>
    selected cf caller scope requested an = Inr p \<and> isBuiltinProjection p \<and>
    (e = reset_event (cycle_env_of cf scope p) \<or> e = event_of EventSynced \<or>
     (\<exists>i. e = (event_of EventDeleted)\<lparr>ev_Identity := Some i\<rparr>) \<or>
     (\<exists>ev. GotNext (NextEvent ev) \<in> set (an_inputs an) \<and> ev_Object e = fst (project p (we_Object ev))))"
proof -
  obtain an where an: "an \<in> set ans" "authorized_event cf caller scope requested an e"
    using Stream_delivered [OF assms(1-3)] assms(4) by (auto simp: is_error_event_def)
  then obtain p where p: "selected cf caller scope requested an = Inr p" "isBuiltinProjection p" "an_authorize an = None"
    and sent: "auth_sent (cycle_env_of cf scope p) (an_inputs an) e" by (auto simp: authorized_event_def)
  have "e = reset_event (cycle_env_of cf scope p) \<or> e = event_of EventSynced \<or>
     (\<exists>i. e = (event_of EventDeleted)\<lparr>ev_Identity := Some i\<rparr>) \<or>
     (\<exists>ev. GotNext (NextEvent ev) \<in> set (an_inputs an) \<and> ev_Object e = fst (project p (we_Object ev)))"
  proof (cases "e = reset_event (cycle_env_of cf scope p)")
    case False
    then obtain r where r: "GotNext r \<in> set (an_inputs an)" "sent (cycle_env_of cf scope p) r e"
      using sent by (auto simp: auth_sent_def)
    from r(2) show ?thesis by (cases rule: sentE) (use r(1) in \<open>auto simp: cycle_env_of_def\<close>)
  qed simp
  then show ?thesis using an(1) p by blast
qed

definition sample_config :: stream_config where
  "sample_config = \<lparr>cf_Ordering = OrderingStrict, cf_DefaultProjections = False,
     cf_ReauthorizationInterval = 0, cf_sha = ce_sha sample_env\<rparr>"

definition sample_answers :: "input list \<Rightarrow> answers" where
  "sample_answers is = \<lparr>an_authorize = None, an_select = Inr ProjectionFull, an_client = None, an_inputs = is,
     an_late = None, an_syncedNow = 0, an_endNow = 5, an_ctx = None\<rparr>"

theorem stream_discloses_authorized_witness:
  "reset_event (cycle_env_of sample_config sample_scope ProjectionFull) \<in>
     set (got id (wd_sink (result_world (Stream sample_config recorder_Emit () sample_scope [] [sample_answers [GotWatch None]] [])))) \<and>
   (\<exists>an p. an \<in> set [sample_answers [GotWatch None]] \<and> an_authorize an = None \<and>
      selected sample_config () sample_scope [] an = Inr p \<and> isBuiltinProjection p)"
proof -
  let ?e = "reset_event (cycle_env_of sample_config sample_scope ProjectionFull)"
  have b: "isBuiltinProjection ProjectionFull" by (simp add: isBuiltinProjection_def)
  have got: "?e \<in> set (got id (wd_sink (result_world (Stream sample_config recorder_Emit () sample_scope [] [sample_answers [GotWatch None]] []))))"
    by (simp add: Stream_def stream_iteration_def resynced_def sample_answers_def selected_def sample_config_def b
        run_cycle_def authorizedCycle_def plain_input_def input_of_def auth_step_def auth_start_def begin_cycle_def
        world_Emit_def syncTracker_Emit_def direct_Emit_def sequenceSink_Emit_def recorder_Emit_def after_turn_def
        close_stream_def got_def reset_event_def unnumber_def cycle_env_of_def observe_def Let_def event_of_def)
  have "wire_sink recorder_Emit id" using recorder.wire_sink_axioms by (simp add: id_def)
  from stream_discloses_authorized [OF this _ got] show ?thesis using got by (auto simp: reset_event_def)
qed

text \<open>C10. Sequence numbers.  A connection makes at most one call of \<open>Emit\<close> per answer it reads, one
  announcement and one final error per cycle.  While that is below \<open>2 ^ 64\<close>, the unsigned
  64-bit numbers on the wire are strictly increasing, start at one or later and do not pass the
  counter, whatever the sink refuses or delivers with an error.  When no \<open>Emit\<close> fails they are
  1, 2, 3 and so on.\<close>

theorem stream_numbered:
  assumes "wire_sink emit delivered" and "delivered s = []"
    and "final = snd (wd_sink (result_world (Stream cf emit caller scope requested ans s)))"
  shows "((\<Sum>an \<leftarrow> ans. length (an_inputs an) + 2) < 2 ^ 64 \<longrightarrow>
      sorted_wrt (<) (map ev_Seq (delivered (snd final))) \<and>
      (\<forall>e \<in> set (delivered (snd final)). 1 \<le> ev_Seq e \<and> ev_Seq e \<le> fst final) \<and>
      unat (fst final) \<le> (\<Sum>an \<leftarrow> ans. length (an_inputs an) + 2)) \<and>
    ((\<forall>e t. fst (emit e t) = None) \<longrightarrow> numbered delivered final)"
proof (intro conjI impI)
  have "seq_upto delivered (stream_emits ans) final" unfolding assms(3)
    by (rule counts_Stream [OF wire_sink.seq_upto_counts [OF assms(1)]]) (simp add: seq_upto_def assms(2))
  note up = seq_upto_increasing [OF this]
  have n: "stream_emits ans = (\<Sum>an \<leftarrow> ans. length (an_inputs an) + 2)"
    by (simp add: stream_emits_def iteration_emits_def)
  assume "(\<Sum>an \<leftarrow> ans. length (an_inputs an) + 2) < 2 ^ 64"
  from up [unfolded n, OF this]
  show "sorted_wrt (<) (map ev_Seq (delivered (snd final)))"
    "\<forall>e \<in> set (delivered (snd final)). 1 \<le> ev_Seq e \<and> ev_Seq e \<le> fst final"
    "unat (fst final) \<le> (\<Sum>an \<leftarrow> ans. length (an_inputs an) + 2)" by blast+
next
  assume ok: "\<forall>e t. fst (emit e t) = None"
  show "numbered delivered final" unfolding assms(3)
    by (rule keeps_Stream [OF wire_sink.numbered_keeps [OF assms(1) ok]]) (simp add: numbered_def assms(2))
qed

theorem stream_numbered_witness:
  "let final = snd (wd_sink (result_world (Stream sample_config recorder_Emit () sample_scope []
     [sample_answers [GotWatch None, GotNext (NextErr ErrWatchClosed)], sample_answers [GotWatch None]] [])))
   in sorted_wrt (<) (map ev_Seq (snd final)) \<and> numbered id final"
proof -
  have "wire_sink recorder_Emit id" using recorder.wire_sink_axioms by (simp add: id_def)
  from stream_numbered [OF this _ refl, where s = "[]" and cf = sample_config and caller = "()" and scope = sample_scope
      and requested = "[]"
      and ans = "[sample_answers [GotWatch None, GotNext (NextErr ErrWatchClosed)], sample_answers [GotWatch None]]"]
  show ?thesis by (simp add: recorder_Emit_def sample_answers_def Let_def)
qed

text \<open>C11. No leaked watch.  When a stream has returned, or panicked on its own goroutine, every
  upstream watch it opened has been stopped.\<close>

theorem stream_stops_watches:
  assumes "Stream cf emit caller scope requested ans s = Returned err w \<or> Stream cf emit caller scope requested ans s = Panicked w"
  shows "wd_opened w = wd_stopped w"
proof -
  let ?w = "observe (obs_of ObservationStreamOpened (Some scope) [] None None)
     \<lparr>wd_sink = (None, 0, s), wd_obs = [], wd_diag = [], wd_opened = 0, wd_stopped = 0, wd_revisions = Map.empty\<rparr>"
  obtain v where "stream_loop cf emit caller scope requested ans 0 0 ?w = Returned err v \<or>
      stream_loop cf emit caller scope requested ans 0 0 ?w = Panicked v"
    and w: "w = observe (obs_of ObservationStreamClosed (Some scope) [] None None) v"
    using assms unfolding Stream_def Let_def close_stream_def by (auto split: stream_result.splits)
  then have "balanced v" using stream_loop_balanced [of ?w cf emit caller scope requested ans 0 0 _ err v] by auto
  then show ?thesis by (simp add: w)
qed

theorem stream_stops_watches_witness:
  "\<exists>err w. Stream sample_config recorder_Emit () sample_scope []
       [sample_answers [GotWatch None, GotNext (NextErr (ErrText ''boom''))]] [] = Returned err w \<and>
     wd_opened w = 1 \<and> wd_stopped w = 1"
proof -
  have "\<exists>err w. Stream sample_config recorder_Emit () sample_scope []
       [sample_answers [GotWatch None, GotNext (NextErr (ErrText ''boom''))]] [] = Returned err w \<and> wd_opened w = 1"
    by (simp add: Stream_def stream_iteration_def resynced_def sample_answers_def selected_def sample_config_def
        isBuiltinProjection_def run_cycle_def authorizedCycle_def plain_input_def input_of_def auth_step_def auth_start_def
        begin_cycle_def world_Emit_def syncTracker_Emit_def direct_Emit_def sequenceSink_Emit_def recorder_Emit_def
        after_turn_def cycle_step_def after_cycle_def recoverable_def as_se_def return_error_def emitError_def
        asStreamError_def close_stream_def observe_def diagnose_def Let_def)
  then show ?thesis using stream_stops_watches by metis
qed

text \<open>C12. No hot loop.  A cycle is reopened on the connection only when it stayed live for the
  minimum useful time after its snapshot, which clears the count of quick ends, or when it is
  the first quick end in a row: two quick ends never follow each other.\<close>

theorem stream_no_hot_loop:
  assumes "stream_iteration cf emit caller scope requested an cycles quickEnds w = Again quickEnds' w'"
  shows "(quickEnds' = 0 \<and> (\<exists>t. fst (wd_sink w') = Some t \<and> an_endNow an - t \<ge> minUsefulCycle)) \<or>
    (quickEnds = 0 \<and> quickEnds' = 1)"
proof (cases rule: stream_iterationE [of cf emit caller scope requested an cycles quickEnds w])
  case (cycled p v u)
  obtain err a where "run_cycle cf emit caller scope requested p an u = Over err a"
    and ac: "after_cycle emit caller scope p an quickEnds err (au_world a) = Again quickEnds' w'"
    using assms cycled(7) by (auto split: auth_turn.splits)
  show ?thesis
  proof (cases rule: after_cycleE [of emit caller scope p an quickEnds err "au_world a"])
    case (again q' x)
    then have "wd_sink w' = wd_sink (au_world a)" using ac by auto
    then show ?thesis using again ac by (auto simp: lastedPast_def split: option.splits)
  qed (use ac in auto)
qed (use assms in auto)

theorem stream_no_hot_loop_witness:
  "\<exists>w. stream_iteration sample_config recorder_Emit () sample_scope [] (sample_answers [GotWatch (Some ErrWatchClosed)]) 1 0
     \<lparr>wd_sink = (None, 0, []), wd_obs = [], wd_diag = [], wd_opened = 0, wd_stopped = 0, wd_revisions = Map.empty\<rparr> =
   Again 1 w"
proof -
  let ?w = "\<lparr>wd_sink = (None, 0, []), wd_obs = [], wd_diag = [], wd_opened = 0, wd_stopped = 0, wd_revisions = Map.empty\<rparr> :: (Event list tracked, unit) world"
  have "\<exists>q v. stream_iteration sample_config recorder_Emit () sample_scope [] (sample_answers [GotWatch (Some ErrWatchClosed)]) 1 0 ?w = Again q v \<and>
      fst (wd_sink v) = None"
    by (simp add: stream_iteration_def resynced_def sample_answers_def selected_def sample_config_def
        isBuiltinProjection_def run_cycle_def authorizedCycle_def plain_input_def input_of_def auth_step_def auth_start_def
        world_Emit_def direct_Emit_def sequenceSink_Emit_def recorder_Emit_def after_cycle_def recoverable_def as_se_def
        ErrWatchClosed_def lastedPast_def observe_def Let_def)
  then obtain q v where it: "stream_iteration sample_config recorder_Emit () sample_scope []
      (sample_answers [GotWatch (Some ErrWatchClosed)]) 1 0 ?w = Again q v" and v: "fst (wd_sink v) = None" by blast
  show ?thesis using stream_no_hot_loop [OF it] it v by auto
qed

text \<open>Refusal.  When the authorizer refuses, the stream returns at once: no watch is opened
  and the only event the consumer may see is the error event of that refusal, which for an
  error that carries no \<open>StreamError\<close> says no more than "internal error".\<close>

theorem stream_refused:
  assumes "wire_sink emit delivered" and "delivered s = []" and "an_authorize an = Some err"
  shows "\<exists>e w. Stream cf emit caller scope requested (an # ans) s = Returned e w \<and> wd_opened w = 0 \<and>
    set (got delivered (wd_sink w)) \<subseteq> {StreamError_Event (asStreamError err)} \<and>
    (as_se err = None \<longrightarrow> asStreamError err = StreamError CodeInternal ''internal error'' True None (Some err))"
proof -
  let ?w = "observe (obs_of ObservationStreamOpened (Some scope) [] None None)
     \<lparr>wd_sink = (None, 0, s), wd_obs = [], wd_diag = [], wd_opened = 0, wd_stopped = 0, wd_revisions = Map.empty\<rparr>"
  have it: "stream_iteration cf emit caller scope requested an 0 0 ?w = Done (return_error emit caller scope [] err ?w)"
    using assms(3) by (simp add: stream_iteration_def resynced_def)
  obtain e v where ev: "return_error emit caller scope [] err ?w = Returned e v"
    by (simp add: return_error_def case_prod_beta)
  have v: "v = result_world (return_error emit caller scope [] err ?w)" by (simp add: ev)
  have "wd_opened v = 0" unfolding v return_error_world emitError_world by simp
  moreover have "set (got delivered (wd_sink v)) \<subseteq> {StreamError_Event (asStreamError err)}"
    using wire_sink.return_error_delivered [OF assms(1), of caller scope "[]" err ?w] assms(2)
    unfolding v by (auto simp: got_def)
  moreover have "as_se err = None \<longrightarrow> asStreamError err = StreamError CodeInternal ''internal error'' True None (Some err)"
    by (auto simp: as_se_def asStreamError_def split: option.splits)
  ultimately show ?thesis using it ev by (simp add: Stream_def close_stream_def)
qed

theorem stream_refused_witness:
  "\<exists>e w. Stream sample_config recorder_Emit () sample_scope []
       [(sample_answers [GotWatch None])\<lparr>an_authorize := Some (ErrText ''dial tcp 10.0.0.1'')\<rparr>] [] = Returned e w \<and> wd_opened w = 0 \<and>
     set (got id (wd_sink w)) \<subseteq>
       {StreamError_Event (StreamError CodeInternal ''internal error'' True None (Some (ErrText ''dial tcp 10.0.0.1'')))}"
proof -
  have "wire_sink recorder_Emit id" using recorder.wire_sink_axioms by (simp add: id_def)
  from stream_refused [OF this, of "[]" "(sample_answers [GotWatch None])\<lparr>an_authorize := Some (ErrText ''dial tcp 10.0.0.1'')\<rparr>"
      "ErrText ''dial tcp 10.0.0.1''" sample_config "()" sample_scope "[]" "[]"]
  show ?thesis by (auto simp: asStreamError_def)
qed

text \<open>C15. A nil \<open>*StreamError\<close> behind a non-nil error is survived by \<open>asStreamError\<close> but not
  by the loop that runs before it: when \<open>Watch\<close> returns such an error the classification
  calls \<open>errors.Is\<close>, which unwraps the nil pointer, and the stream panics.\<close>

theorem typed_nil_panics:
  assumes "ends_typed_nil err" and "as_se err = None" and "cf_ReauthorizationInterval cf \<le> 0"
    and "an_authorize an = None" and "selected cf caller scope requested an = Inr p" and "isBuiltinProjection p"
    and "an_client an = None" and "an_ctx an = None" and "an_inputs an = [GotWatch (Some err)]"
  shows "\<exists>w. Stream cf emit caller scope requested (an # ans) s = Panicked w"
proof -
  have "recoverable err = None" using assms(1,2) by (simp add: recoverable_def errors_Is_None)
  then show ?thesis using assms(3-9)
    by (simp add: Stream_def stream_iteration_def resynced_def run_cycle_def authorizedCycle_def input_of_def
        plain_input_def auth_step_def auth_start_def after_cycle_def close_stream_def Let_def)
qed

theorem typed_nil_panics_witness:
  "\<exists>w. Stream sample_config recorder_Emit () sample_scope [] [sample_answers [GotWatch (Some ErrTypedNil)]] [] = Panicked w"
  by (rule typed_nil_panics [where p = ProjectionFull and err = ErrTypedNil])
     (simp_all add: as_se_def sample_config_def sample_answers_def selected_def isBuiltinProjection_def)

end
