(* ===== verification/Shared.thy ===== *)
theory Shared
  imports Stream_Loop
begin

text \<open>
  The shared backend, \<open>gateway/shared.go\<close>: one upstream watch per scope fanned out to
  every subscriber.  Pointers are indices into the lists of openings, scopes and
  subscribers ever allocated; a caller of \<open>Watch\<close> is an index into the list of callers.
  Every critical section of the code is one operation on the state, and every place where a
  goroutine gives up a lock is a point where another action may come in between: the state
  keeps what each goroutine is about to do (\<open>ss_pump\<close>, \<open>ss_leaving\<close> and the caller's own
  state).  \<open>act\<close> performs one action; a run is any sequence of enabled actions.
\<close>

section \<open>Durations and times\<close>

text \<open>
  A \<open>time.Duration\<close> is an \<open>int64\<close> of nanoseconds: a product wraps, and \<open>Time.Sub\<close>
  saturates.  Instants are nanoseconds on the monotonic clock.
\<close>

definition wrap64 :: "int \<Rightarrow> int" where
  "wrap64 x = sint (word_of_int x :: 64 word)"

definition time_Sub :: "int \<Rightarrow> int \<Rightarrow> int" where
  "time_Sub t u = max (- (2 ^ 63)) (min (2 ^ 63 - 1) (t - u))"

definition sharedQueueDepth :: int where
  "sharedQueueDepth = 256"

definition sharedRetryMin :: int where
  "sharedRetryMin = 1000000000"

definition sharedRetryMax :: int where
  "sharedRetryMax = 30000000000"

section \<open>State\<close>

record sharedBackoff =
  bo_until :: int
  bo_delay :: int
  bo_early :: int

text \<open>Whether \<open>upstream.Watch\<close> is still running, has an open watcher, or has none.\<close>

datatype upstream = UpOpening | UpOpen | UpStopped

record sharedOpening =
  op_key :: string
  op_scope :: Scope
  op_cancelled :: bool
  op_done :: bool
  op_waiters :: int
  op_subs :: "nat list"
  op_err :: "go_error option"
  op_upstream :: upstream

record scopeEnd =
  sn_useful :: bool
  sn_early :: bool
  sn_failure :: "go_error option"
  sn_cause :: "go_error option"

text \<open>Where the pump of a scope stands: reading, or in one of the three sections of \<open>die\<close>.\<close>

datatype pump = Pumping | Dying "go_error option" | Forgetting scopeEnd go_error | Ending go_error | PumpReturned

text \<open>
  \<open>ss_op\<close> is the opening whose context and watcher the scope took over; \<open>ss_leaving\<close> is
  the end that \<open>leave\<close> found and has not yet passed to \<open>forget\<close>.
\<close>

record sharedScope =
  ss_key :: string
  ss_scope :: Scope
  ss_op :: nat
  ss_cache :: "KRMObject gmap"
  ss_synced :: bool
  ss_syncedAt :: int
  ss_dead :: bool
  ss_subs :: "nat list"
  ss_pump :: pump
  ss_leaving :: "scopeEnd option"

text \<open>
  \<open>sb_ready\<close> is the one-place channel.  The last four fields are history, which no step reads:
  what \<open>Next\<close> returned so far, which of it came from the snapshot and which from the live
  queue, and the live events it returned past a snapshot that was still waiting.
\<close>

record subscriber =
  sb_scope :: nat
  sb_pending :: "WatchEvent list"
  sb_ready :: bool
  sb_ch :: "WatchEvent list"
  sb_awaiting :: bool
  sb_closed :: bool
  sb_reason :: "go_error option"
  sb_got :: "WatchEvent list"
  sb_taken :: "WatchEvent list"
  sb_live :: "WatchEvent list"
  sb_overtook :: "WatchEvent list"

text \<open>
  A caller of \<open>Watch\<close>: about to call \<open>subscribe\<close>, in the \<open>select\<close>, past it with its
  context ended (about to \<open>collect\<close>, then to \<open>Stop\<close>), holding a watcher (with the error
  its last \<open>Next\<close> returned), in \<open>Next\<close> before and after \<open>nextPending\<close>, or finished.
\<close>

datatype caller =
    Joining nat
  | Waiting nat
  | Abandoning nat go_error
  | Dropping nat go_error
  | Holding nat "go_error option"
  | Reading nat
  | Selecting nat
  | Refused go_error
  | Gone

datatype crash = IndexOutOfRange | NilDereference

record shared =
  sh_depth :: int
  sh_scopes :: "string \<rightharpoonup> nat"
  sh_openings :: "string \<rightharpoonup> nat"
  sh_backoff :: "string \<rightharpoonup> sharedBackoff"
  sh_now :: int
  sh_ops :: "sharedOpening list"
  sh_heap :: "sharedScope list"
  sh_sub :: "subscriber list"
  sh_callers :: "caller list"
  sh_obs :: "Observation list"
  sh_crash :: "crash option"

definition upd_op :: "nat \<Rightarrow> (sharedOpening \<Rightarrow> sharedOpening) \<Rightarrow> shared \<Rightarrow> shared" where
  "upd_op i f b = b\<lparr>sh_ops := (sh_ops b)[i := f (sh_ops b ! i)]\<rparr>"

definition upd_scope :: "nat \<Rightarrow> (sharedScope \<Rightarrow> sharedScope) \<Rightarrow> shared \<Rightarrow> shared" where
  "upd_scope m f b = b\<lparr>sh_heap := (sh_heap b)[m := f (sh_heap b ! m)]\<rparr>"

definition upd_sub :: "nat \<Rightarrow> (subscriber \<Rightarrow> subscriber) \<Rightarrow> shared \<Rightarrow> shared" where
  "upd_sub n f b = b\<lparr>sh_sub := (sh_sub b)[n := f (sh_sub b ! n)]\<rparr>"

definition set_caller :: "nat \<Rightarrow> caller \<Rightarrow> shared \<Rightarrow> shared" where
  "set_caller c k b = b\<lparr>sh_callers := (sh_callers b)[c := k]\<rparr>"

definition add_caller :: "caller \<Rightarrow> shared \<Rightarrow> shared" where
  "add_caller k b = b\<lparr>sh_callers := sh_callers b @ [k]\<rparr>"

definition NewSharedBackend :: "int \<Rightarrow> int \<Rightarrow> shared" where
  "NewSharedBackend queueDepth now =
     (let depth = (if queueDepth < 1 then sharedQueueDepth else queueDepth)
      in \<lparr>sh_depth = depth, sh_scopes = Map.empty, sh_openings = Map.empty, sh_backoff = Map.empty, sh_now = now,
          sh_ops = [], sh_heap = [], sh_sub = [], sh_callers = [], sh_obs = [], sh_crash = None\<rparr>)"

definition shared_observe :: "ObservationKind \<Rightarrow> Scope \<Rightarrow> shared \<Rightarrow> shared" where
  "shared_observe k scope b = b\<lparr>sh_obs := sh_obs b @ [obs_of k (Some scope) [] None None]\<rparr>"

section \<open>The backoff\<close>

text \<open>\<open>strings.Join\<close> with the unit separator.\<close>

definition scopeKey :: "Scope \<Rightarrow> string" where
  "scopeKey s = join_with (CHR 0x1F)
     [sc_Target s, sc_Group s, sc_Version s, sc_Resource s, sc_Namespace s, sc_Name s, sc_LabelSelector s]"

definition backoffRemainingLocked :: "string \<Rightarrow> shared \<Rightarrow> int" where
  "backoffRemainingLocked key b =
     (case sh_backoff b key of None \<Rightarrow> 0 | Some bo \<Rightarrow> time_Sub (bo_until bo) (sh_now b))"

text \<open>The sweep: an entry that has been quiet for a full period is forgotten.\<close>

definition sweep :: "int \<Rightarrow> (string \<rightharpoonup> sharedBackoff) \<Rightarrow> (string \<rightharpoonup> sharedBackoff)" where
  "sweep now m = (\<lambda>k. case m k of
     None \<Rightarrow> None | Some old \<Rightarrow> if time_Sub now (bo_until old) > sharedRetryMax then None else Some old)"

definition next_backoff :: "sharedBackoff option \<Rightarrow> sharedBackoff" where
  "next_backoff bo =
     (case bo of
        None \<Rightarrow> \<lparr>bo_until = 0, bo_delay = sharedRetryMin, bo_early = 0\<rparr>
      | Some bo \<Rightarrow> bo\<lparr>bo_delay := if bo_delay bo = 0 then sharedRetryMin else min (2 * bo_delay bo) sharedRetryMax\<rparr>)"

definition retry_wait :: "int \<Rightarrow> int option \<Rightarrow> int" where
  "retry_wait delay retryAfterMs =
     (case retryAfterMs of
        None \<Rightarrow> delay
      | Some ms \<Rightarrow>
          (let hint = wrap64 (ms * 1000000) in if hint > delay then min hint sharedRetryMax else delay))"

definition recordFailureLocked :: "string \<Rightarrow> go_error \<Rightarrow> shared \<Rightarrow> shared" where
  "recordFailureLocked key err b =
     (case as_se err of
        None \<Rightarrow> b
      | Some se \<Rightarrow>
          if se_Terminal se \<or> se_Code se \<noteq> CodeUpstreamUnavailable then b
          else
            (let swept = sweep (sh_now b) (sh_backoff b);
                 bo = next_backoff (swept key);
                 wait = retry_wait (bo_delay bo) (se_RetryAfterMs se)
             in b\<lparr>sh_backoff := swept(key \<mapsto> bo\<lparr>bo_until := sh_now b + wait\<rparr>)\<rparr>))"

definition early_unavailable :: "go_error option \<Rightarrow> StreamError" where
  "early_unavailable cause =
     StreamError CodeUpstreamUnavailable
       ''the shared upstream watch keeps ending before it is of use; retry later'' False None cause"

definition recordEarlyEndLocked :: "string \<Rightarrow> go_error option \<Rightarrow> shared \<Rightarrow> shared" where
  "recordEarlyEndLocked key cause b =
     (case sh_backoff b key of
        None \<Rightarrow> b\<lparr>sh_backoff := (sh_backoff b)(key \<mapsto> \<lparr>bo_until = sh_now b, bo_delay = 0, bo_early = 1\<rparr>)\<rparr>
      | Some bo \<Rightarrow>
          (let bo = bo\<lparr>bo_early := bo_early bo + 1\<rparr>;
               b = b\<lparr>sh_backoff := (sh_backoff b)(key \<mapsto> bo)\<rparr>
           in if bo_early bo < 2 then b
              else recordFailureLocked key (ErrStream (early_unavailable cause)) b))"

definition forget :: "nat \<Rightarrow> scopeEnd \<Rightarrow> shared \<Rightarrow> shared" where
  "forget m fin b =
     (let key = ss_key (sh_heap b ! m) in
      if sh_scopes b key \<noteq> Some m then b
      else
        (let b = b\<lparr>sh_scopes := (sh_scopes b)(key := None)\<rparr>;
             b = (if sn_useful fin then b\<lparr>sh_backoff := (sh_backoff b)(key := None)\<rparr> else b)
         in case sn_failure fin of
              Some err \<Rightarrow> recordFailureLocked key err b
            | None \<Rightarrow> if sn_early fin then recordEarlyEndLocked key (sn_cause fin) b else b))"

section \<open>Subscribers\<close>

definition scope_of_sub :: "nat \<Rightarrow> shared \<Rightarrow> Scope" where
  "scope_of_sub n b = ss_scope (sh_heap b ! sb_scope (sh_sub b ! n))"

definition end_sub :: "nat \<Rightarrow> go_error option \<Rightarrow> shared \<Rightarrow> shared" where
  "end_sub n reason b =
     (if sb_closed (sh_sub b ! n) then b
      else upd_sub n (\<lambda>sub. sub\<lparr>sb_closed := True, sb_reason := reason\<rparr>)
             (shared_observe ObservationSharedSubscriptionClosed (scope_of_sub n b) b))"

definition overflowError :: go_error where
  "overflowError = ErrStream (ResyncRequired
     ''this consumer fell too far behind the shared watch; resnapshotting from the warm cache'')"

definition offer :: "WatchEvent \<Rightarrow> nat \<Rightarrow> shared \<Rightarrow> shared" where
  "offer ev n b =
     (let sub = sh_sub b ! n in
      if sb_closed sub then b
      else if int (length (sb_ch sub)) < sh_depth b then upd_sub n (\<lambda>sub. sub\<lparr>sb_ch := sb_ch sub @ [ev]\<rparr>) b
      else end_sub n (Some overflowError) (shared_observe ObservationSharedOverflow (scope_of_sub n b) b))"

definition fanOutLocked :: "nat \<Rightarrow> WatchEvent \<Rightarrow> shared \<Rightarrow> shared" where
  "fanOutLocked m ev b =
     fold (\<lambda>n b. if sb_awaiting (sh_sub b ! n) then b else offer ev n b) (ss_subs (sh_heap b ! m)) b"

definition added_event :: "KRMObject \<Rightarrow> WatchEvent" where
  "added_event obj = \<lparr>we_Type = WatchAdded, we_Object = obj, we_InitialEventsEnd = False, we_Err = None\<rparr>"

definition boundary_event :: WatchEvent where
  "boundary_event = \<lparr>we_Type = WatchBookmark, we_Object = [], we_InitialEventsEnd = True, we_Err = None\<rparr>"

definition snapshot :: "KRMObject gmap \<Rightarrow> WatchEvent list" where
  "snapshot cache = map (\<lambda>uo. added_event (snd uo)) cache @ [boundary_event]"

definition deliverSnapshotLocked :: "nat \<Rightarrow> nat \<Rightarrow> shared \<Rightarrow> shared" where
  "deliverSnapshotLocked m n b =
     (if sb_closed (sh_sub b ! n) then b
      else upd_sub n (\<lambda>sub. sub\<lparr>sb_pending := snapshot (ss_cache (sh_heap b ! m)),
                            sb_awaiting := False, sb_ready := True\<rparr>) b)"

definition new_subscriber :: "nat \<Rightarrow> subscriber" where
  "new_subscriber m = \<lparr>sb_scope = m, sb_pending = [], sb_ready = False, sb_ch = [], sb_awaiting = True,
     sb_closed = False, sb_reason = None, sb_got = [], sb_taken = [], sb_live = [], sb_overtook = []\<rparr>"

text \<open>The new subscriber's address is the number of subscribers before.\<close>

definition attachLocked :: "nat \<Rightarrow> shared \<Rightarrow> shared" where
  "attachLocked m b =
     (let n = length (sh_sub b);
          b = b\<lparr>sh_sub := sh_sub b @ [new_subscriber m]\<rparr>;
          b = upd_scope m (\<lambda>ss. ss\<lparr>ss_subs := ss_subs ss @ [n]\<rparr>) b;
          b = shared_observe ObservationSharedSubscriptionOpened (ss_scope (sh_heap b ! m)) b
      in if ss_synced (sh_heap b ! m) then deliverSnapshotLocked m n b else b)"

section \<open>Openings\<close>

definition beginOpeningLocked :: "string \<Rightarrow> Scope \<Rightarrow> shared \<Rightarrow> shared" where
  "beginOpeningLocked key scope b =
     b\<lparr>sh_ops := sh_ops b @ [\<lparr>op_key = key, op_scope = scope, op_cancelled = False, op_done = False,
          op_waiters = 0, op_subs = [], op_err = None, op_upstream = UpOpening\<rparr>],
       sh_openings := (sh_openings b)(key \<mapsto> length (sh_ops b))\<rparr>"

definition join_opening :: "nat \<Rightarrow> shared \<Rightarrow> shared" where
  "join_opening i b = add_caller (Waiting i) (upd_op i (\<lambda>op. op\<lparr>op_waiters := op_waiters op + 1\<rparr>) b)"

text \<open>\<open>Watch\<close> up to its \<open>select\<close>, or to the call of \<open>subscribe\<close>.\<close>

definition Watch :: "Scope \<Rightarrow> go_error option \<Rightarrow> shared \<Rightarrow> shared" where
  "Watch scope ctx b =
     (case ctx of
        Some err \<Rightarrow> add_caller (Refused err) b
      | None \<Rightarrow>
          (let key = scopeKey scope in
           case sh_scopes b key of
             Some m \<Rightarrow> add_caller (Joining m) b
           | None \<Rightarrow>
               (case sh_openings b key of
                  Some i \<Rightarrow> join_opening i b
                | None \<Rightarrow>
                    (let wait = backoffRemainingLocked key b in
                     if wait > 0
                     then add_caller (Refused (ErrStream
                            (UpstreamUnavailable ''the upstream is unavailable; retry later'' wait))) b
                     else join_opening (length (sh_ops b)) (beginOpeningLocked key scope b)))))"

definition subscribe :: "nat \<Rightarrow> nat \<Rightarrow> shared \<Rightarrow> shared" where
  "subscribe c m b =
     (if ss_dead (sh_heap b ! m) then set_caller c (Refused ErrWatchClosed) b
      else set_caller c (Holding (length (sh_sub b)) None) (attachLocked m b))"

definition newSharedScope :: "string \<Rightarrow> Scope \<Rightarrow> nat \<Rightarrow> sharedScope" where
  "newSharedScope key scope i = \<lparr>ss_key = key, ss_scope = scope, ss_op = i, ss_cache = [], ss_synced = False,
     ss_syncedAt = 0, ss_dead = False, ss_subs = [], ss_pump = Pumping, ss_leaving = None\<rparr>"

text \<open>One subscription per waiter.\<close>

fun attach_waiters :: "nat \<Rightarrow> nat \<Rightarrow> nat \<Rightarrow> shared \<Rightarrow> shared" where
  "attach_waiters i m 0 b = b"
| "attach_waiters i m (Suc k) b =
     attach_waiters i m k
       (upd_op i (\<lambda>op. op\<lparr>op_subs := op_subs op @ [length (sh_sub b)]\<rparr>) (attachLocked m b))"

definition settle :: "nat \<Rightarrow> go_error option \<Rightarrow> shared \<Rightarrow> shared" where
  "settle i err b =
     (let op = sh_ops b ! i; key = op_key op in
      if sh_openings b key \<noteq> Some i
      then upd_op i (\<lambda>op. op\<lparr>op_cancelled := True, op_upstream := UpStopped\<rparr>) b
      else
        (let b = b\<lparr>sh_openings := (sh_openings b)(key := None)\<rparr> in
         case err of
           Some e \<Rightarrow>
             upd_op i (\<lambda>op. op\<lparr>op_cancelled := True, op_err := Some e, op_done := True, op_upstream := UpStopped\<rparr>)
               (recordFailureLocked key e b)
         | None \<Rightarrow>
             (let m = length (sh_heap b);
                  b = b\<lparr>sh_heap := sh_heap b @ [newSharedScope key (op_scope op) i],
                        sh_scopes := (sh_scopes b)(key \<mapsto> m)\<rparr>
              in upd_op i (\<lambda>op. op\<lparr>op_done := True, op_upstream := UpOpen\<rparr>)
                   (attach_waiters i m (nat (op_waiters op)) b))))"

text \<open>
  \<open>collect\<close> for caller \<open>c\<close>; \<open>next\<close> is what the caller does with a subscription, and
  \<open>other\<close> what it returns when the opening failed.
\<close>

definition collect :: "nat \<Rightarrow> nat \<Rightarrow> (nat \<Rightarrow> caller) \<Rightarrow> (go_error \<Rightarrow> go_error) \<Rightarrow> shared \<Rightarrow> shared" where
  "collect c i held other b =
     (let op = sh_ops b ! i in
      case op_err op of
        Some e \<Rightarrow> set_caller c (Refused (other e)) b
      | None \<Rightarrow>
          if op_subs op = [] then b\<lparr>sh_crash := Some IndexOutOfRange\<rparr>
          else set_caller c (held (List.last (op_subs op)))
                 (upd_op i (\<lambda>op. op\<lparr>op_subs := butlast (op_subs op)\<rparr>) b))"

definition abandon :: "nat \<Rightarrow> nat \<Rightarrow> go_error \<Rightarrow> shared \<Rightarrow> shared" where
  "abandon c i err b =
     (if op_done (sh_ops b ! i) then set_caller c (Abandoning i err) b
      else
        (let waiters = op_waiters (sh_ops b ! i) - 1;
             b = upd_op i (\<lambda>op. op\<lparr>op_waiters := waiters\<rparr>) b;
             key = op_key (sh_ops b ! i);
             b = (if waiters = 0 \<and> sh_openings b key = Some i then b\<lparr>sh_openings := (sh_openings b)(key := None)\<rparr> else b);
             b = (if waiters = 0 then upd_op i (\<lambda>op. op\<lparr>op_cancelled := True\<rparr>) b else b)
         in set_caller c (Refused err) b))"

section \<open>The pump\<close>

definition usefulLocked :: "nat \<Rightarrow> shared \<Rightarrow> bool" where
  "usefulLocked m b \<longleftrightarrow>
     ss_synced (sh_heap b ! m) \<and> time_Sub (sh_now b) (ss_syncedAt (sh_heap b ! m)) \<ge> minUsefulCycle"

definition set_pump :: "nat \<Rightarrow> pump \<Rightarrow> shared \<Rightarrow> shared" where
  "set_pump m p b = upd_scope m (\<lambda>ss. ss\<lparr>ss_pump := p\<rparr>) b"

text \<open>The loop that hands the cache to everyone waiting for it.\<close>

definition deliver_awaiting :: "nat \<Rightarrow> shared \<Rightarrow> shared" where
  "deliver_awaiting m b =
     fold (\<lambda>n b. if sb_awaiting (sh_sub b ! n) then deliverSnapshotLocked m n b else b) (ss_subs (sh_heap b ! m)) b"

definition pump_bookmark :: "nat \<Rightarrow> WatchEvent \<Rightarrow> shared \<Rightarrow> shared" where
  "pump_bookmark m ev b =
     (if we_InitialEventsEnd ev then
        deliver_awaiting m (upd_scope m (\<lambda>ss. ss\<lparr>ss_synced := True,
           ss_syncedAt := if ss_synced ss then ss_syncedAt ss else sh_now b\<rparr>) b)
      else b)"

definition pump_object :: "nat \<Rightarrow> WatchEvent \<Rightarrow> shared \<Rightarrow> shared" where
  "pump_object m ev b =
     (let reason = partialReason (we_Object ev) in
      if reason \<noteq> [] then set_pump m (Dying (Some (ErrStream (ResyncRequired reason)))) b
      else
        (let uid = UID (we_Object ev);
             b = (if uid \<noteq> [] then upd_scope m (\<lambda>ss. ss\<lparr>ss_cache := map_put uid (we_Object ev) (ss_cache ss)\<rparr>) b else b)
         in fanOutLocked m ev b))"

definition pump_deleted :: "nat \<Rightarrow> WatchEvent \<Rightarrow> shared \<Rightarrow> shared" where
  "pump_deleted m ev b =
     (case identityOf (we_Object ev) of
        None \<Rightarrow> set_pump m (Dying (Some (ErrStream (ResyncRequired ''deletion tombstone carried no trustworthy uid'')))) b
      | Some i \<Rightarrow> fanOutLocked m ev (upd_scope m (\<lambda>ss. ss\<lparr>ss_cache := map_delete (id_UID i) (ss_cache ss)\<rparr>) b))"

definition pump_step :: "nat \<Rightarrow> NextResult \<Rightarrow> shared \<Rightarrow> shared" where
  "pump_step m r b =
     (case r of
        NextErr err \<Rightarrow> set_pump m (Dying (Some err)) b
      | NextEvent ev \<Rightarrow>
          (case we_Type ev of
             WatchBookmark \<Rightarrow> pump_bookmark m ev b
           | WatchAdded \<Rightarrow> pump_object m ev b
           | WatchModified \<Rightarrow> pump_object m ev b
           | WatchDeleted \<Rightarrow> pump_deleted m ev b
           | WatchError \<Rightarrow> set_pump m (Dying (we_Err ev)) b
           | WatchOther _ \<Rightarrow> b))"

text \<open>
  How \<open>die\<close> reads its cause: the end it reports and the error it hands on; \<open>None\<close> when
  \<open>errors.Is\<close> panics.
\<close>

definition endedError :: go_error where
  "endedError = ErrStream (ResyncRequired ''the shared upstream watch ended; a new snapshot cycle follows'')"

definition classify_end :: "bool \<Rightarrow> go_error option \<Rightarrow> (scopeEnd \<times> go_error) option" where
  "classify_end useful cause =
     (let fin = \<lparr>sn_useful = useful, sn_early = False, sn_failure = None, sn_cause = cause\<rparr> in
      case cause of
        None \<Rightarrow> Some (fin\<lparr>sn_early := \<not> useful\<rparr>, endedError)
      | Some err \<Rightarrow>
          (case as_se err of
             Some se \<Rightarrow>
               Some (if \<not> se_Terminal se \<and> se_Code se = CodeUpstreamUnavailable then fin\<lparr>sn_failure := Some err\<rparr>
                     else if \<not> se_Terminal se \<and> se_Code se = CodeResyncRequired then fin\<lparr>sn_early := \<not> useful\<rparr>
                     else fin, err)
           | None \<Rightarrow>
               (case errors_Is err ErrWatchClosed of
                  None \<Rightarrow> None
                | Some closed \<Rightarrow>
                    Some (if closed then (fin\<lparr>sn_early := \<not> useful\<rparr>, endedError) else (fin, err)))))"

definition cancel_scope :: "nat \<Rightarrow> shared \<Rightarrow> shared" where
  "cancel_scope m b = upd_op (ss_op (sh_heap b ! m)) (\<lambda>op. op\<lparr>op_cancelled := True\<rparr>) b"

definition error_event :: "go_error \<Rightarrow> WatchEvent" where
  "error_event err = \<lparr>we_Type = WatchError, we_Object = [], we_InitialEventsEnd = False, we_Err = Some err\<rparr>"

text \<open>The loop that ends every subscriber, after a best-effort error event.\<close>

definition end_all :: "nat \<Rightarrow> go_error \<Rightarrow> shared \<Rightarrow> shared" where
  "end_all m cause b =
     fold (\<lambda>n b. end_sub n (Some cause) (offer (error_event cause) n b)) (ss_subs (sh_heap b ! m)) b"

text \<open>The three sections of \<open>die\<close>, and the deferred \<open>watcher.Stop\<close> at the end.\<close>

definition die_step :: "nat \<Rightarrow> shared \<Rightarrow> shared option" where
  "die_step m b =
     (case ss_pump (sh_heap b ! m) of
        Dying cause \<Rightarrow>
          Some (case classify_end (usefulLocked m b) cause of
                  None \<Rightarrow> b\<lparr>sh_crash := Some NilDereference\<rparr>
                | Some (fin, cause') \<Rightarrow> set_pump m (Forgetting fin cause') b)
      | Forgetting fin cause \<Rightarrow> Some (set_pump m (Ending cause) (cancel_scope m (forget m fin b)))
      | Ending cause \<Rightarrow>
          Some (let b = end_all m cause (upd_scope m (\<lambda>ss. ss\<lparr>ss_dead := True\<rparr>) b);
                    b = upd_scope m (\<lambda>ss. ss\<lparr>ss_subs := [], ss_pump := PumpReturned\<rparr>) b
                in upd_op (ss_op (sh_heap b ! m)) (\<lambda>op. op\<lparr>op_upstream := UpStopped\<rparr>) b)
      | _ \<Rightarrow> None)"

section \<open>Leaving and reading\<close>

definition leave :: "nat \<Rightarrow> shared \<Rightarrow> shared" where
  "leave n b =
     (let m = sb_scope (sh_sub b ! n);
          b = upd_scope m (\<lambda>ss. ss\<lparr>ss_subs := removeAll n (ss_subs ss)\<rparr>) b;
          b = end_sub n None b;
          empty = (ss_subs (sh_heap b ! m) = [] \<and> \<not> ss_dead (sh_heap b ! m));
          useful = usefulLocked m b
      in if empty
         then upd_scope m (\<lambda>ss. ss\<lparr>ss_dead := True,
                ss_leaving := Some \<lparr>sn_useful = useful, sn_early = False, sn_failure = None, sn_cause = None\<rparr>\<rparr>) b
         else b)"

definition leave_step :: "nat \<Rightarrow> shared \<Rightarrow> shared option" where
  "leave_step m b =
     (case ss_leaving (sh_heap b ! m) of
        None \<Rightarrow> None
      | Some fin \<Rightarrow>
          Some (cancel_scope m (forget m fin (upd_scope m (\<lambda>ss. ss\<lparr>ss_leaving := None\<rparr>) b))))"

definition nextPending :: "nat \<Rightarrow> nat \<Rightarrow> shared \<Rightarrow> shared" where
  "nextPending c n b =
     (case sb_pending (sh_sub b ! n) of
        [] \<Rightarrow> set_caller c (Selecting n) b
      | ev # rest \<Rightarrow>
          set_caller c (Holding n None)
            (upd_sub n (\<lambda>sub. sub\<lparr>sb_pending := rest, sb_got := sb_got sub @ [ev], sb_taken := sb_taken sub @ [ev]\<rparr>) b))"

text \<open>The ready cases of the \<open>select\<close> in \<open>Next\<close>; when several are, Go takes any of them.\<close>

datatype choice = TakeCtx go_error | TakeReady | TakeLive

definition next_select :: "nat \<Rightarrow> nat \<Rightarrow> choice \<Rightarrow> shared \<Rightarrow> shared option" where
  "next_select c n ch b =
     (let sub = sh_sub b ! n in
      case ch of
        TakeCtx err \<Rightarrow> Some (set_caller c (Holding n (Some err)) b)
      | TakeReady \<Rightarrow>
          if sb_ready sub then Some (set_caller c (Reading n) (upd_sub n (\<lambda>sub. sub\<lparr>sb_ready := False\<rparr>) b)) else None
      | TakeLive \<Rightarrow>
          (case sb_ch sub of
             ev # rest \<Rightarrow>
               Some (set_caller c (Holding n None)
                 (upd_sub n (\<lambda>sub. sub\<lparr>sb_ch := rest, sb_got := sb_got sub @ [ev], sb_live := sb_live sub @ [ev],
                    sb_overtook := sb_overtook sub @ (if sb_pending sub = [] then [] else [ev])\<rparr>) b))
           | [] \<Rightarrow>
               if sb_closed sub
               then Some (set_caller c (Holding n (Some (case sb_reason sub of None \<Rightarrow> ErrWatchClosed | Some e \<Rightarrow> e))) b)
               else None))"

section \<open>Actions\<close>

datatype action =
    CallWatch Scope "go_error option"
  | CallSubscribe nat
  | UpstreamReturns nat "go_error option"
  | OpeningDone nat
  | CallerDone nat go_error
  | CallCollect nat
  | CallNext nat
  | NextPending nat
  | NextSelect nat choice
  | CallStop nat
  | PumpNext nat NextResult
  | PumpDie nat
  | LeaveForget nat
  | Advance nat

definition caller_is :: "nat \<Rightarrow> shared \<Rightarrow> (caller \<Rightarrow> shared option) \<Rightarrow> shared option" where
  "caller_is c b f = (if c < length (sh_callers b) then f (sh_callers b ! c) else None)"

definition act :: "action \<Rightarrow> shared \<Rightarrow> shared option" where
  "act a b =
     (if sh_crash b \<noteq> None then None
      else case a of
        CallWatch scope ctx \<Rightarrow> Some (Watch scope ctx b)
      | CallSubscribe c \<Rightarrow> caller_is c b (\<lambda>k. case k of Joining m \<Rightarrow> Some (subscribe c m b) | _ \<Rightarrow> None)
      | UpstreamReturns i err \<Rightarrow>
          if i < length (sh_ops b) \<and> op_upstream (sh_ops b ! i) = UpOpening then Some (settle i err b) else None
      | OpeningDone c \<Rightarrow> caller_is c b (\<lambda>k. case k of
          Waiting i \<Rightarrow> if op_done (sh_ops b ! i) then Some (collect c i (\<lambda>n. Holding n None) id b) else None | _ \<Rightarrow> None)
      | CallerDone c err \<Rightarrow> caller_is c b (\<lambda>k. case k of Waiting i \<Rightarrow> Some (abandon c i err b) | _ \<Rightarrow> None)
      | CallCollect c \<Rightarrow> caller_is c b (\<lambda>k. case k of
          Abandoning i err \<Rightarrow> Some (collect c i (\<lambda>n. Dropping n err) (\<lambda>_. err) b) | _ \<Rightarrow> None)
      | CallNext c \<Rightarrow> caller_is c b (\<lambda>k. case k of Holding n _ \<Rightarrow> Some (set_caller c (Reading n) b) | _ \<Rightarrow> None)
      | NextPending c \<Rightarrow> caller_is c b (\<lambda>k. case k of Reading n \<Rightarrow> Some (nextPending c n b) | _ \<Rightarrow> None)
      | NextSelect c ch \<Rightarrow> caller_is c b (\<lambda>k. case k of Selecting n \<Rightarrow> next_select c n ch b | _ \<Rightarrow> None)
      | CallStop c \<Rightarrow> caller_is c b (\<lambda>k. case k of
          Holding n _ \<Rightarrow> Some (set_caller c Gone (leave n b))
        | Dropping n err \<Rightarrow> Some (set_caller c (Refused err) (leave n b))
        | _ \<Rightarrow> None)
      | PumpNext m r \<Rightarrow>
          if m < length (sh_heap b) \<and> ss_pump (sh_heap b ! m) = Pumping then Some (pump_step m r b) else None
      | PumpDie m \<Rightarrow> if m < length (sh_heap b) then die_step m b else None
      | LeaveForget m \<Rightarrow> if m < length (sh_heap b) then leave_step m b else None
      | Advance d \<Rightarrow> Some (b\<lparr>sh_now := sh_now b + int d\<rparr>))"

definition shared_step :: "shared \<Rightarrow> action \<Rightarrow> shared \<Rightarrow> bool" where
  "shared_step b a b' \<longleftrightarrow> act a b = Some b'"

fun acts :: "action list \<Rightarrow> shared \<Rightarrow> shared option" where
  "acts [] b = Some b"
| "acts (a # as) b = (case act a b of None \<Rightarrow> None | Some b' \<Rightarrow> acts as b')"

section \<open>What each operation changes\<close>

lemma nth_upd [simp]: "(xs[m := v]) ! j = (if j = m \<and> m < length xs then v else xs ! j)"
  by (cases "m < length xs") (auto simp: list_update_beyond)

lemma nth_snoc: "j < Suc (length xs) \<Longrightarrow> (xs @ [x]) ! j = (if j = length xs then x else xs ! j)"
  by (auto simp: nth_append)

lemma set_caller_simps [simp]:
  "sh_depth (set_caller c k b) = sh_depth b" "sh_scopes (set_caller c k b) = sh_scopes b"
  "sh_openings (set_caller c k b) = sh_openings b" "sh_backoff (set_caller c k b) = sh_backoff b"
  "sh_now (set_caller c k b) = sh_now b" "sh_ops (set_caller c k b) = sh_ops b"
  "sh_heap (set_caller c k b) = sh_heap b" "sh_sub (set_caller c k b) = sh_sub b"
  "sh_callers (set_caller c k b) = (sh_callers b)[c := k]" "sh_crash (set_caller c k b) = sh_crash b"
  by (simp_all add: set_caller_def)

lemma add_caller_simps [simp]:
  "sh_depth (add_caller k b) = sh_depth b" "sh_scopes (add_caller k b) = sh_scopes b"
  "sh_openings (add_caller k b) = sh_openings b" "sh_backoff (add_caller k b) = sh_backoff b"
  "sh_now (add_caller k b) = sh_now b" "sh_ops (add_caller k b) = sh_ops b"
  "sh_heap (add_caller k b) = sh_heap b" "sh_sub (add_caller k b) = sh_sub b"
  "sh_callers (add_caller k b) = sh_callers b @ [k]" "sh_crash (add_caller k b) = sh_crash b"
  by (simp_all add: add_caller_def)

lemma upd_op_simps [simp]:
  "sh_depth (upd_op i f b) = sh_depth b" "sh_scopes (upd_op i f b) = sh_scopes b"
  "sh_openings (upd_op i f b) = sh_openings b" "sh_backoff (upd_op i f b) = sh_backoff b"
  "sh_now (upd_op i f b) = sh_now b" "sh_ops (upd_op i f b) = (sh_ops b)[i := f (sh_ops b ! i)]"
  "sh_heap (upd_op i f b) = sh_heap b" "sh_sub (upd_op i f b) = sh_sub b"
  "sh_callers (upd_op i f b) = sh_callers b" "sh_crash (upd_op i f b) = sh_crash b"
  by (simp_all add: upd_op_def)

lemma upd_scope_simps [simp]:
  "sh_depth (upd_scope m f b) = sh_depth b" "sh_scopes (upd_scope m f b) = sh_scopes b"
  "sh_openings (upd_scope m f b) = sh_openings b" "sh_backoff (upd_scope m f b) = sh_backoff b"
  "sh_now (upd_scope m f b) = sh_now b" "sh_ops (upd_scope m f b) = sh_ops b"
  "sh_heap (upd_scope m f b) = (sh_heap b)[m := f (sh_heap b ! m)]" "sh_sub (upd_scope m f b) = sh_sub b"
  "sh_callers (upd_scope m f b) = sh_callers b" "sh_crash (upd_scope m f b) = sh_crash b"
  by (simp_all add: upd_scope_def)

lemma upd_sub_simps [simp]:
  "sh_depth (upd_sub n f b) = sh_depth b" "sh_scopes (upd_sub n f b) = sh_scopes b"
  "sh_openings (upd_sub n f b) = sh_openings b" "sh_backoff (upd_sub n f b) = sh_backoff b"
  "sh_now (upd_sub n f b) = sh_now b" "sh_ops (upd_sub n f b) = sh_ops b"
  "sh_heap (upd_sub n f b) = sh_heap b" "sh_sub (upd_sub n f b) = (sh_sub b)[n := f (sh_sub b ! n)]"
  "sh_callers (upd_sub n f b) = sh_callers b" "sh_crash (upd_sub n f b) = sh_crash b"
  by (simp_all add: upd_sub_def)

lemma shared_observe_simps [simp]:
  "sh_depth (shared_observe k s b) = sh_depth b" "sh_scopes (shared_observe k s b) = sh_scopes b"
  "sh_openings (shared_observe k s b) = sh_openings b" "sh_backoff (shared_observe k s b) = sh_backoff b"
  "sh_now (shared_observe k s b) = sh_now b" "sh_ops (shared_observe k s b) = sh_ops b"
  "sh_heap (shared_observe k s b) = sh_heap b" "sh_sub (shared_observe k s b) = sh_sub b"
  "sh_callers (shared_observe k s b) = sh_callers b" "sh_crash (shared_observe k s b) = sh_crash b"
  by (simp_all add: shared_observe_def)

text \<open>The backoff operations change nothing else; \<open>forget\<close> also unregisters.\<close>

lemma recordFailure_frame: "recordFailureLocked key e b = b\<lparr>sh_backoff := sh_backoff (recordFailureLocked key e b)\<rparr>"
  by (simp add: recordFailureLocked_def Let_def split: option.split)

lemma recordEarly_frame: "recordEarlyEndLocked key e b = b\<lparr>sh_backoff := sh_backoff (recordEarlyEndLocked key e b)\<rparr>"
proof (cases "sh_backoff b key")
  case (Some bo)
  then show ?thesis
    using recordFailure_frame [of key "ErrStream (early_unavailable e)"
        "b\<lparr>sh_backoff := (sh_backoff b)(key \<mapsto> bo\<lparr>bo_early := bo_early bo + 1\<rparr>)\<rparr>"]
    by (simp add: recordEarlyEndLocked_def Let_def)
qed (simp add: recordEarlyEndLocked_def)

definition unregister :: "nat \<Rightarrow> shared \<Rightarrow> (string \<rightharpoonup> nat)" where
  "unregister m b = (if sh_scopes b (ss_key (sh_heap b ! m)) = Some m
     then (sh_scopes b)(ss_key (sh_heap b ! m) := None) else sh_scopes b)"

lemma recordFailure_simps [simp]:
  "sh_depth (recordFailureLocked key e b) = sh_depth b" "sh_scopes (recordFailureLocked key e b) = sh_scopes b"
  "sh_openings (recordFailureLocked key e b) = sh_openings b" "sh_now (recordFailureLocked key e b) = sh_now b"
  "sh_ops (recordFailureLocked key e b) = sh_ops b" "sh_heap (recordFailureLocked key e b) = sh_heap b"
  "sh_sub (recordFailureLocked key e b) = sh_sub b" "sh_callers (recordFailureLocked key e b) = sh_callers b"
  "sh_crash (recordFailureLocked key e b) = sh_crash b"
  by (subst recordFailure_frame, simp)+

lemma recordEarly_simps [simp]:
  "sh_depth (recordEarlyEndLocked key e b) = sh_depth b" "sh_scopes (recordEarlyEndLocked key e b) = sh_scopes b"
  "sh_openings (recordEarlyEndLocked key e b) = sh_openings b" "sh_now (recordEarlyEndLocked key e b) = sh_now b"
  "sh_ops (recordEarlyEndLocked key e b) = sh_ops b" "sh_heap (recordEarlyEndLocked key e b) = sh_heap b"
  "sh_sub (recordEarlyEndLocked key e b) = sh_sub b" "sh_callers (recordEarlyEndLocked key e b) = sh_callers b"
  "sh_crash (recordEarlyEndLocked key e b) = sh_crash b"
  by (subst recordEarly_frame, simp)+

lemma forget_simps [simp]:
  "sh_depth (forget m fin b) = sh_depth b" "sh_scopes (forget m fin b) = unregister m b"
  "sh_openings (forget m fin b) = sh_openings b" "sh_now (forget m fin b) = sh_now b"
  "sh_ops (forget m fin b) = sh_ops b" "sh_heap (forget m fin b) = sh_heap b"
  "sh_sub (forget m fin b) = sh_sub b" "sh_callers (forget m fin b) = sh_callers b"
  "sh_crash (forget m fin b) = sh_crash b"
  by (simp_all add: forget_def unregister_def Let_def split: option.split)

subsection \<open>Operations on subscribers\<close>

text \<open>Everything but the subscribers and the observations is as before.\<close>

definition sub_only :: "shared \<Rightarrow> shared \<Rightarrow> bool" where
  "sub_only b b' \<longleftrightarrow>
     sh_depth b' = sh_depth b \<and> sh_scopes b' = sh_scopes b \<and> sh_openings b' = sh_openings b \<and>
     sh_backoff b' = sh_backoff b \<and> sh_now b' = sh_now b \<and> sh_ops b' = sh_ops b \<and> sh_heap b' = sh_heap b \<and>
     sh_callers b' = sh_callers b \<and> sh_crash b' = sh_crash b"

lemma sub_only_refl [simp]: "sub_only b b"
  by (simp add: sub_only_def)

lemma sub_only_trans: "sub_only b b' \<Longrightarrow> sub_only b' b'' \<Longrightarrow> sub_only b b''"
  by (simp add: sub_only_def)

lemma sub_only_upd [simp]: "sub_only b (upd_sub n f b)" "sub_only b (shared_observe k s b)"
  by (simp_all add: sub_only_def)

definition ended :: "go_error option \<Rightarrow> subscriber \<Rightarrow> subscriber" where
  "ended reason sub = (if sb_closed sub then sub else sub\<lparr>sb_closed := True, sb_reason := reason\<rparr>)"

definition offered :: "int \<Rightarrow> WatchEvent \<Rightarrow> subscriber \<Rightarrow> subscriber" where
  "offered depth ev sub =
     (if sb_closed sub then sub
      else if int (length (sb_ch sub)) < depth then sub\<lparr>sb_ch := sb_ch sub @ [ev]\<rparr>
      else sub\<lparr>sb_closed := True, sb_reason := Some overflowError\<rparr>)"

definition handed :: "KRMObject gmap \<Rightarrow> subscriber \<Rightarrow> subscriber" where
  "handed cache sub = (if sb_closed sub then sub
     else sub\<lparr>sb_pending := snapshot cache, sb_awaiting := False, sb_ready := True\<rparr>)"

lemma end_sub_sub: "sub_only b (end_sub n r b) \<and> sh_sub (end_sub n r b) = (sh_sub b)[n := ended r (sh_sub b ! n)]"
  by (simp add: end_sub_def ended_def sub_only_def)

lemma offer_sub:
  "sub_only b (offer ev n b) \<and> sh_sub (offer ev n b) = (sh_sub b)[n := offered (sh_depth b) ev (sh_sub b ! n)]"
  using end_sub_sub [of "shared_observe ObservationSharedOverflow (scope_of_sub n b) b" n "Some overflowError"]
  by (simp add: offer_def offered_def ended_def Let_def sub_only_def)

lemma deliver_sub:
  "sub_only b (deliverSnapshotLocked m n b) \<and>
   sh_sub (deliverSnapshotLocked m n b) = (sh_sub b)[n := handed (ss_cache (sh_heap b ! m)) (sh_sub b ! n)]"
  by (simp add: deliverSnapshotLocked_def handed_def)

text \<open>A loop over subscribers changes each of them once.\<close>

lemma fold_subs:
  assumes "\<And>n b'. sub_only b b' \<Longrightarrow> sub_only b' (g n b') \<and> sh_sub (g n b') = (sh_sub b')[n := h (sh_sub b' ! n)]"
    and "distinct ns"
  shows "sub_only b (fold g ns b) \<and> length (sh_sub (fold g ns b)) = length (sh_sub b) \<and>
    (\<forall>j < length (sh_sub b). sh_sub (fold g ns b) ! j = (if j \<in> set ns then h (sh_sub b ! j) else sh_sub b ! j))"
  using assms
proof (induction ns arbitrary: b)
  case (Cons n ns)
  note step = Cons.prems(1) [OF sub_only_refl, of n]
  have "sub_only (g n b) b' \<Longrightarrow> sub_only b b'" for b' using step sub_only_trans by blast
  then have "sub_only (g n b) (fold g ns (g n b)) \<and> length (sh_sub (fold g ns (g n b))) = length (sh_sub (g n b)) \<and>
    (\<forall>j < length (sh_sub (g n b)). sh_sub (fold g ns (g n b)) ! j = (if j \<in> set ns then h (sh_sub (g n b) ! j) else sh_sub (g n b) ! j))"
    using Cons.prems by (intro Cons.IH) auto
  then show ?case using step Cons.prems(2) sub_only_trans by auto
qed simp

definition fanned :: "int \<Rightarrow> WatchEvent \<Rightarrow> subscriber \<Rightarrow> subscriber" where
  "fanned depth ev sub = (if sb_awaiting sub then sub else offered depth ev sub)"

lemma fan_sub:
  assumes "distinct (ss_subs (sh_heap b ! m))"
  shows "sub_only b (fanOutLocked m ev b) \<and> length (sh_sub (fanOutLocked m ev b)) = length (sh_sub b) \<and>
    (\<forall>j < length (sh_sub b). sh_sub (fanOutLocked m ev b) ! j =
       (if j \<in> set (ss_subs (sh_heap b ! m)) then fanned (sh_depth b) ev (sh_sub b ! j) else sh_sub b ! j))"
  unfolding fanOutLocked_def
  by (rule fold_subs [OF _ assms]) (use offer_sub in \<open>auto simp: fanned_def sub_only_def\<close>)

definition woken :: "KRMObject gmap \<Rightarrow> subscriber \<Rightarrow> subscriber" where
  "woken cache sub = (if sb_awaiting sub then handed cache sub else sub)"

lemma wake_sub:
  assumes "distinct (ss_subs (sh_heap b ! m))"
  shows "sub_only b (deliver_awaiting m b) \<and> length (sh_sub (deliver_awaiting m b)) = length (sh_sub b) \<and>
    (\<forall>j < length (sh_sub b). sh_sub (deliver_awaiting m b) ! j =
       (if j \<in> set (ss_subs (sh_heap b ! m)) then woken (ss_cache (sh_heap b ! m)) (sh_sub b ! j) else sh_sub b ! j))"
  unfolding deliver_awaiting_def
  by (rule fold_subs [OF _ assms]) (use deliver_sub in \<open>auto simp: woken_def sub_only_def\<close>)

definition buried :: "int \<Rightarrow> go_error \<Rightarrow> subscriber \<Rightarrow> subscriber" where
  "buried depth cause sub = ended (Some cause) (offered depth (error_event cause) sub)"

lemma bury_sub:
  assumes "distinct (ss_subs (sh_heap b ! m))"
  shows "sub_only b (end_all m cause b) \<and> length (sh_sub (end_all m cause b)) = length (sh_sub b) \<and>
    (\<forall>j < length (sh_sub b). sh_sub (end_all m cause b) ! j =
       (if j \<in> set (ss_subs (sh_heap b ! m)) then buried (sh_depth b) cause (sh_sub b ! j) else sh_sub b ! j))"
  unfolding end_all_def
proof (rule fold_subs [OF _ assms])
  fix n b'
  assume "sub_only b b'"
  then show "sub_only b' (end_sub n (Some cause) (offer (error_event cause) n b')) \<and>
      sh_sub (end_sub n (Some cause) (offer (error_event cause) n b')) = (sh_sub b')[n := buried (sh_depth b) cause (sh_sub b' ! n)]"
    using end_sub_sub [of "offer (error_event cause) n b'" n "Some cause"] offer_sub [of b' "error_event cause" n]
    by (cases "n < length (sh_sub b')") (simp_all add: sub_only_def buried_def list_update_beyond)
qed

definition joined :: "nat \<Rightarrow> sharedScope \<Rightarrow> subscriber" where
  "joined m ss = (if ss_synced ss then handed (ss_cache ss) (new_subscriber m) else new_subscriber m)"

text \<open>What the backend looks like apart from the parts that a step rewrote.\<close>

definition attached :: "nat \<Rightarrow> nat \<Rightarrow> shared \<Rightarrow> shared \<Rightarrow> bool" where
  "attached m k b b' \<longleftrightarrow>
     sh_depth b' = sh_depth b \<and> sh_scopes b' = sh_scopes b \<and> sh_openings b' = sh_openings b \<and>
     sh_backoff b' = sh_backoff b \<and> sh_now b' = sh_now b \<and> sh_callers b' = sh_callers b \<and> sh_crash b' = sh_crash b \<and>
     sh_heap b' = (sh_heap b)[m := (sh_heap b ! m)\<lparr>ss_subs := ss_subs (sh_heap b ! m) @ [length (sh_sub b)..<length (sh_sub b) + k]\<rparr>] \<and>
     sh_sub b' = sh_sub b @ replicate k (joined m (sh_heap b ! m))"

lemma attach_one:
  assumes "m < length (sh_heap b)"
  shows "attached m 1 b (attachLocked m b) \<and> sh_ops (attachLocked m b) = sh_ops b"
  using assms by (simp add: attached_def attachLocked_def joined_def handed_def deliverSnapshotLocked_def Let_def nth_append)

lemma attach_many:
  assumes "m < length (sh_heap b)" and "i < length (sh_ops b)"
  shows "attached m k b (attach_waiters i m k b) \<and>
    sh_ops (attach_waiters i m k b) =
      (sh_ops b)[i := (sh_ops b ! i)\<lparr>op_subs := op_subs (sh_ops b ! i) @ [length (sh_sub b)..<length (sh_sub b) + k]\<rparr>]"
  using assms
proof (induction k arbitrary: b)
  case (Suc k)
  let ?b = "upd_op i (\<lambda>op. op\<lparr>op_subs := op_subs op @ [length (sh_sub b)]\<rparr>) (attachLocked m b)"
  note one = attach_one [OF Suc.prems(1)]
  have "m < length (sh_heap ?b)" "i < length (sh_ops ?b)" using one Suc.prems by (simp_all add: attached_def)
  note IH = Suc.IH [OF this]
  have seg: "n # [Suc n..<Suc (n + k)] = [n..<Suc (n + k)]" for n :: nat by (simp add: upt_conv_Cons)
  have j: "joined m (ss\<lparr>ss_subs := xs\<rparr>) = joined m ss" for ss xs by (simp add: joined_def)
  have one_upt: "[n..<Suc n] = [n]" for n :: nat by simp
  show ?case using IH one Suc.prems seg [of "length (sh_sub b)"]
    by (simp add: attached_def j one_upt del: upt_Suc)
qed (simp add: attached_def)

end
