(* ===== verification/Shared_Safety.thy ===== *)
theory Shared_Safety
  imports Shared
begin

text \<open>
  Invariants of the shared backend.
\<close>

section \<open>The registry\<close>

text \<open>The number of callers that still have to take their share of an opening.\<close>

definition waits :: "nat \<Rightarrow> caller \<Rightarrow> bool" where
  "waits i k \<longleftrightarrow> k = Waiting i \<or> (\<exists>e. k = Abandoning i e)"

definition waiting :: "nat \<Rightarrow> shared \<Rightarrow> nat" where
  "waiting i b = length (filter (waits i) (sh_callers b))"

definition holds :: "nat \<Rightarrow> caller \<Rightarrow> bool" where
  "holds n k \<longleftrightarrow> (\<exists>e. k = Holding n e) \<or> k = Reading n \<or> k = Selecting n \<or> (\<exists>e. k = Dropping n e)"

lemma filter_update:
  "c < length xs \<Longrightarrow>
   length (filter P (xs[c := k])) + (if P (xs ! c) then 1 else 0) = length (filter P xs) + (if P k then 1 else 0)"
proof (induction xs arbitrary: c)
  case (Cons x xs)
  then show ?case using Cons.IH [of "c - 1"] by (cases c) (auto split: if_splits)
qed simp

lemma waiting_set:
  assumes "c < length (sh_callers b)"
  shows "waiting i (set_caller c k b) + (if waits i (sh_callers b ! c) then 1 else 0) = waiting i b + (if waits i k then 1 else 0)"
  using filter_update [OF assms, of "waits i" k] by (simp add: waiting_def)

lemma waiting_add: "waiting i (add_caller k b) = waiting i b + (if waits i k then 1 else 0)"
  by (simp add: waiting_def)

text \<open>An opening that became a scope whose end is still to come, and one whose pump still runs.\<close>

definition live :: "shared \<Rightarrow> nat \<Rightarrow> bool" where
  "live b i \<longleftrightarrow> (\<exists>m < length (sh_heap b). ss_op (sh_heap b ! m) = i \<and>
     (\<not> ss_dead (sh_heap b ! m) \<or> ss_leaving (sh_heap b ! m) \<noteq> None))"

definition pumped :: "shared \<Rightarrow> nat \<Rightarrow> bool" where
  "pumped b i \<longleftrightarrow> (\<exists>m < length (sh_heap b). ss_op (sh_heap b ! m) = i \<and> ss_pump (sh_heap b ! m) \<noteq> PumpReturned)"

definition owned :: "shared \<Rightarrow> nat \<Rightarrow> bool" where
  "owned b n \<longleftrightarrow> (\<exists>c < length (sh_callers b). holds n (sh_callers b ! c)) \<or>
     (\<exists>i < length (sh_ops b). n \<in> set (op_subs (sh_ops b ! i)))"

text \<open>One opening by itself: \<open>w\<close> callers wait, and \<open>ab\<close> says whether one left after it settled.\<close>

definition op_shape :: "sharedOpening \<Rightarrow> nat \<Rightarrow> bool \<Rightarrow> bool" where
  "op_shape op w ab \<longleftrightarrow>
     (\<not> op_done op \<longrightarrow> op_waiters op = int w \<and> \<not> ab) \<and>
     (op_done op \<and> op_err op = None \<longrightarrow> length (op_subs op) = w) \<and>
     (\<not> op_done op \<or> op_err op \<noteq> None \<longrightarrow> op_subs op = []) \<and> (op_err op \<noteq> None \<longrightarrow> op_done op) \<and>
     (op_done op \<longrightarrow> op_upstream op \<noteq> UpOpening)"

definition abandoned :: "shared \<Rightarrow> nat \<Rightarrow> bool" where
  "abandoned b i \<longleftrightarrow> (\<exists>e. Abandoning i e \<in> set (sh_callers b))"

definition opening_ok :: "shared \<Rightarrow> nat \<Rightarrow> bool" where
  "opening_ok b i \<longleftrightarrow>
     (let op = sh_ops b ! i in
      op_shape op (waiting i b) (abandoned b i) \<and>
      (\<not> op_cancelled op \<longrightarrow> sh_openings b (op_key op) = Some i \<or> live b i) \<and>
      (op_upstream op = UpOpen \<longrightarrow> pumped b i) \<and>
      set (op_subs op) \<subseteq> {..<length (sh_sub b)})"

definition registered_ok :: "shared \<Rightarrow> string \<Rightarrow> bool" where
  "registered_ok b key \<longleftrightarrow>
     (\<forall>i. sh_openings b key = Some i \<longrightarrow>
        i < length (sh_ops b) \<and> op_key (sh_ops b ! i) = key \<and> \<not> op_done (sh_ops b ! i) \<and>
        \<not> op_cancelled (sh_ops b ! i) \<and> op_waiters (sh_ops b ! i) \<ge> 1 \<and> op_upstream (sh_ops b ! i) = UpOpening \<and>
        sh_scopes b key = None) \<and>
     (\<forall>m. sh_scopes b key = Some m \<longrightarrow>
        m < length (sh_heap b) \<and> ss_key (sh_heap b ! m) = key \<and>
        (\<not> ss_dead (sh_heap b ! m) \<or> ss_leaving (sh_heap b ! m) \<noteq> None))"

definition scope_ok :: "shared \<Rightarrow> nat \<Rightarrow> bool" where
  "scope_ok b m \<longleftrightarrow>
     (let ss = sh_heap b ! m in
      ss_op ss < length (sh_ops b) \<and> op_done (sh_ops b ! ss_op ss) \<and>
      (ss_leaving ss \<noteq> None \<longrightarrow> ss_dead ss) \<and>
      (ss_dead ss \<longleftrightarrow> ss_subs ss = []) \<and> distinct (ss_subs ss) \<and>
      ((\<exists>e. ss_pump ss = Ending e) \<or> ss_pump ss = PumpReturned \<longrightarrow>
         op_cancelled (sh_ops b ! ss_op ss) \<and> sh_scopes b (ss_key ss) \<noteq> Some m) \<and>
      (ss_pump ss = PumpReturned \<longrightarrow> ss_dead ss) \<and>
      (\<forall>n \<in> set (ss_subs ss). n < length (sh_sub b) \<and> sb_scope (sh_sub b ! n) = m \<and> owned b n))"

fun caller_ok :: "shared \<Rightarrow> caller \<Rightarrow> bool" where
  "caller_ok b (Joining m) \<longleftrightarrow> m < length (sh_heap b)"
| "caller_ok b (Waiting i) \<longleftrightarrow> i < length (sh_ops b)"
| "caller_ok b (Abandoning i e) \<longleftrightarrow> i < length (sh_ops b)"
| "caller_ok b (Dropping n e) \<longleftrightarrow> n < length (sh_sub b)"
| "caller_ok b (Holding n e) \<longleftrightarrow> n < length (sh_sub b)"
| "caller_ok b (Reading n) \<longleftrightarrow> n < length (sh_sub b)"
| "caller_ok b (Selecting n) \<longleftrightarrow> n < length (sh_sub b)"
| "caller_ok b (Refused e) \<longleftrightarrow> True"
| "caller_ok b Gone \<longleftrightarrow> True"

definition registry :: "shared \<Rightarrow> bool" where
  "registry b \<longleftrightarrow>
     (\<forall>i < length (sh_ops b). opening_ok b i) \<and> (\<forall>key. registered_ok b key) \<and>
     (\<forall>m < length (sh_heap b). scope_ok b m) \<and> (\<forall>k \<in> set (sh_callers b). caller_ok b k) \<and>
     (\<forall>n < length (sh_sub b). sb_scope (sh_sub b ! n) < length (sh_heap b)) \<and>
     sh_crash b \<noteq> Some IndexOutOfRange"

lemma op_shape_mono: "op_shape op w ab \<Longrightarrow> (ab' \<Longrightarrow> ab) \<Longrightarrow> op_shape op w ab'"
  by (auto simp: op_shape_def)

lemma opening_frame:
  assumes "opening_ok b j" and "sh_ops b' ! j = sh_ops b ! j" and "waiting j b' = waiting j b"
    and "abandoned b' j \<Longrightarrow> abandoned b j"
    and "sh_openings b (op_key (sh_ops b ! j)) = Some j \<Longrightarrow> sh_openings b' (op_key (sh_ops b ! j)) = Some j"
    and "live b j \<Longrightarrow> live b' j" and "pumped b j \<Longrightarrow> pumped b' j" and "length (sh_sub b) \<le> length (sh_sub b')"
  shows "opening_ok b' j"
proof -
  have "set xs \<subseteq> {..<length (sh_sub b)} \<Longrightarrow> set xs \<subseteq> {..<length (sh_sub b')}" for xs using assms(8) by auto
  then show ?thesis using assms(1,5-7) op_shape_mono [OF _ assms(4)] by (auto simp: opening_ok_def Let_def assms(2,3))
qed

lemma live_frame:
  assumes "live b j"
    and "\<And>k. k < length (sh_heap b) \<Longrightarrow> ss_op (sh_heap b ! k) = j \<Longrightarrow> \<not> ss_dead (sh_heap b ! k) \<or> ss_leaving (sh_heap b ! k) \<noteq> None \<Longrightarrow>
      k < length (sh_heap b') \<and> ss_op (sh_heap b' ! k) = j \<and> (\<not> ss_dead (sh_heap b' ! k) \<or> ss_leaving (sh_heap b' ! k) \<noteq> None)"
  shows "live b' j"
  using assms unfolding live_def by blast

lemma pumped_frame:
  assumes "pumped b j"
    and "\<And>k. k < length (sh_heap b) \<Longrightarrow> ss_op (sh_heap b ! k) = j \<Longrightarrow> ss_pump (sh_heap b ! k) \<noteq> PumpReturned \<Longrightarrow>
      k < length (sh_heap b') \<and> ss_op (sh_heap b' ! k) = j \<and> ss_pump (sh_heap b' ! k) \<noteq> PumpReturned"
  shows "pumped b' j"
  using assms unfolding pumped_def by blast

lemma owned_mono:
  assumes "owned b n"
    and "\<And>c. c < length (sh_callers b) \<Longrightarrow> holds n (sh_callers b ! c) \<Longrightarrow> \<exists>c' < length (sh_callers b'). holds n (sh_callers b' ! c')"
    and "\<And>i. i < length (sh_ops b) \<Longrightarrow> n \<in> set (op_subs (sh_ops b ! i)) \<Longrightarrow> \<exists>i' < length (sh_ops b'). n \<in> set (op_subs (sh_ops b' ! i'))"
  shows "owned b' n"
  using assms by (auto simp: owned_def)

lemma owned_ops:
  "owned b n \<Longrightarrow> sh_callers b' = sh_callers b \<Longrightarrow> length (sh_ops b') = length (sh_ops b) \<Longrightarrow>
   (\<And>i. op_subs (sh_ops b' ! i) = op_subs (sh_ops b ! i)) \<Longrightarrow> owned b' n"
  by (simp add: owned_def)

subsection \<open>Steps that leave the registry as it is\<close>

definition skel :: "sharedScope \<Rightarrow> string \<times> nat \<times> bool \<times> nat list \<times> pump \<times> scopeEnd option" where
  "skel ss = (ss_key ss, ss_op ss, ss_dead ss, ss_subs ss, ss_pump ss, ss_leaving ss)"

definition same_skel :: "shared \<Rightarrow> shared \<Rightarrow> bool" where
  "same_skel b b' \<longleftrightarrow>
     sh_ops b' = sh_ops b \<and> sh_openings b' = sh_openings b \<and> sh_scopes b' = sh_scopes b \<and>
     sh_callers b' = sh_callers b \<and> (sh_crash b' = sh_crash b \<or> sh_crash b' \<noteq> Some IndexOutOfRange) \<and>
     map skel (sh_heap b') = map skel (sh_heap b) \<and> map sb_scope (sh_sub b') = map sb_scope (sh_sub b)"

lemma same_skelD:
  assumes "same_skel b b'"
  shows "length (sh_heap b') = length (sh_heap b)" "length (sh_sub b') = length (sh_sub b)"
    "m < length (sh_heap b) \<Longrightarrow> skel (sh_heap b' ! m) = skel (sh_heap b ! m)"
    "n < length (sh_sub b) \<Longrightarrow> sb_scope (sh_sub b' ! n) = sb_scope (sh_sub b ! n)"
proof -
  have h: "map skel (sh_heap b') = map skel (sh_heap b)" and u: "map sb_scope (sh_sub b') = map sb_scope (sh_sub b)"
    using assms by (simp_all add: same_skel_def)
  show l: "length (sh_heap b') = length (sh_heap b)" "length (sh_sub b') = length (sh_sub b)"
    using map_eq_imp_length_eq [OF h] map_eq_imp_length_eq [OF u] by simp_all
  show "m < length (sh_heap b) \<Longrightarrow> skel (sh_heap b' ! m) = skel (sh_heap b ! m)"
    using arg_cong [OF h, of "\<lambda>xs. xs ! m"] l by simp
  show "n < length (sh_sub b) \<Longrightarrow> sb_scope (sh_sub b' ! n) = sb_scope (sh_sub b ! n)"
    using arg_cong [OF u, of "\<lambda>xs. xs ! n"] l by simp
qed

lemma same_skelI:
  assumes "sub_only (upd_scope m f b) b'" and "\<And>ss. skel (f ss) = skel ss" and "length (sh_sub b') = length (sh_sub b)"
    and "\<And>j. j < length (sh_sub b) \<Longrightarrow> sb_scope (sh_sub b' ! j) = sb_scope (sh_sub b ! j)"
  shows "same_skel b b'"
  using assms by (auto simp: same_skel_def sub_only_def intro!: nth_equalityI)

lemma registry_skel:
  assumes "registry b" and "same_skel b b'"
  shows "registry b'"
proof -
  note d = same_skelD [OF assms(2)]
  have heap: "ss_key (sh_heap b' ! m) = ss_key (sh_heap b ! m)" "ss_op (sh_heap b' ! m) = ss_op (sh_heap b ! m)"
      "ss_dead (sh_heap b' ! m) = ss_dead (sh_heap b ! m)" "ss_subs (sh_heap b' ! m) = ss_subs (sh_heap b ! m)"
      "ss_pump (sh_heap b' ! m) = ss_pump (sh_heap b ! m)" "ss_leaving (sh_heap b' ! m) = ss_leaving (sh_heap b ! m)"
    if "m < length (sh_heap b)" for m using d(3) [OF that] by (simp_all add: skel_def)
  have same: "sh_ops b' = sh_ops b" "sh_openings b' = sh_openings b" "sh_scopes b' = sh_scopes b"
    "sh_callers b' = sh_callers b"
    using assms(2) by (simp_all add: same_skel_def)
  have "live b' i = live b i" for i using heap d(1) unfolding live_def by metis
  moreover have "pumped b' i = pumped b i" for i using heap d(1) unfolding pumped_def by metis
  ultimately have "opening_ok b' i = opening_ok b i" for i
    by (simp add: opening_ok_def waiting_def abandoned_def same d(2))
  moreover have "registered_ok b' key = registered_ok b key" for key
    using heap by (cases "sh_scopes b key") (simp_all add: registered_ok_def same d(1), metis)
  moreover have "scope_ok b' m = scope_ok b m" if "m < length (sh_heap b)" for m
    using d(4) by (auto simp: scope_ok_def Let_def owned_def same heap [OF that] d(2))
  moreover have "caller_ok b' k = caller_ok b k" for k
    by (cases k) (simp_all add: d same)
  moreover have "sh_crash b' \<noteq> Some IndexOutOfRange" using assms by (auto simp: same_skel_def registry_def)
  ultimately show ?thesis using assms(1) by (simp add: registry_def d same)
qed

lemma registry_caller:
  assumes "registry b" and "c < length (sh_callers b)"
    and "\<And>i. \<not> waits i k" and "\<And>i. \<not> waits i (sh_callers b ! c)" and "caller_ok b k"
    and "\<And>n m. m < length (sh_heap b) \<Longrightarrow> n \<in> set (ss_subs (sh_heap b ! m)) \<Longrightarrow> holds n (sh_callers b ! c) \<Longrightarrow> holds n k"
  shows "registry (set_caller c k b)"
proof -
  have w: "waiting i (set_caller c k b) = waiting i b" for i
    using waiting_set [OF assms(2), of i k] assms(3,4) by simp
  have ab: "Abandoning i e \<in> set ((sh_callers b)[c := k]) \<Longrightarrow> Abandoning i e \<in> set (sh_callers b)" for i e
    using set_update_subset_insert [of "sh_callers b" c k] assms(3) [of i] by (auto simp: waits_def)
  have "opening_ok b i \<Longrightarrow> opening_ok (set_caller c k b) i" for i
    using ab by (elim opening_frame) (auto simp: w live_def pumped_def abandoned_def)
  moreover have "registered_ok (set_caller c k b) key = registered_ok b key" for key
    by (simp add: registered_ok_def)
  moreover have o: "owned (set_caller c k b) n" if "owned b n" "m < length (sh_heap b)" "n \<in> set (ss_subs (sh_heap b ! m))" for n m
    using that(1)
  proof (rule owned_mono)
    fix j
    assume "j < length (sh_callers b)" "holds n (sh_callers b ! j)"
    then show "\<exists>c' < length (sh_callers (set_caller c k b)). holds n (sh_callers (set_caller c k b) ! c')"
      using assms(2) assms(6) [OF that(2,3)] by (intro exI [of _ j]) auto
  qed auto
  then have "scope_ok b m \<Longrightarrow> m < length (sh_heap b) \<Longrightarrow> scope_ok (set_caller c k b) m" for m
    by (auto simp: scope_ok_def Let_def)
  moreover have "caller_ok (set_caller c k b) j = caller_ok b j" for j by (cases j) simp_all
  ultimately show ?thesis using assms(1,5) set_update_subset_insert [of "sh_callers b" c k]
    by (auto simp: registry_def)
qed

subsection \<open>Watch\<close>

lemma caller_ok_grow:
  "caller_ok b k \<Longrightarrow> length (sh_heap b) \<le> length (sh_heap b') \<Longrightarrow> length (sh_ops b) \<le> length (sh_ops b') \<Longrightarrow>
   length (sh_sub b) \<le> length (sh_sub b') \<Longrightarrow> caller_ok b' k"
  by (cases k) auto

lemma callers_grow:
  assumes "registry b" and "k' \<in> set ((sh_callers b)[c := k])" and "caller_ok b k"
    and "length (sh_heap b) \<le> length (sh_heap b')" and "length (sh_ops b) \<le> length (sh_ops b')"
    and "length (sh_sub b) \<le> length (sh_sub b')"
  shows "caller_ok b' k'"
proof -
  have "k' = k \<or> k' \<in> set (sh_callers b)"
    using assms(2) set_update_subset_insert [of "sh_callers b" c k] by auto
  then have "caller_ok b k'" using assms(1,3) by (auto simp: registry_def)
  then show ?thesis using assms(4-6) by (rule caller_ok_grow)
qed

lemma registryD:
  assumes "registry b"
  shows "i < length (sh_ops b) \<Longrightarrow> opening_ok b i" "registered_ok b key" "m < length (sh_heap b) \<Longrightarrow> scope_ok b m"
    "k \<in> set (sh_callers b) \<Longrightarrow> caller_ok b k" "n < length (sh_sub b) \<Longrightarrow> sb_scope (sh_sub b ! n) < length (sh_heap b)"
    "c < length (sh_callers b) \<Longrightarrow> caller_ok b (sh_callers b ! c)"
  using assms by (auto simp: registry_def)

lemma registryI:
  assumes "\<And>i. i < length (sh_ops b) \<Longrightarrow> opening_ok b i" and "\<And>key. registered_ok b key"
    and "\<And>m. m < length (sh_heap b) \<Longrightarrow> scope_ok b m" and "\<And>k. k \<in> set (sh_callers b) \<Longrightarrow> caller_ok b k"
    and "\<And>n. n < length (sh_sub b) \<Longrightarrow> sb_scope (sh_sub b ! n) < length (sh_heap b)"
    and "sh_crash b \<noteq> Some IndexOutOfRange"
  shows "registry b"
  using assms by (simp add: registry_def)

lemma owned_add: "owned b n \<Longrightarrow> owned (add_caller k b) n"
  by (auto simp: owned_def nth_append intro: less_SucI)

lemma registry_add:
  assumes "registry b" and "\<And>i. \<not> waits i k" and "caller_ok b k"
  shows "registry (add_caller k b)"
proof (rule registryI)
  note d = registryD [OF assms(1)]
  have ab: "Abandoning i e \<noteq> k" for i e using assms(2) [of i] by (auto simp: waits_def)
  show "opening_ok (add_caller k b) i" if "i < length (sh_ops (add_caller k b))" for i
    using that assms(2) [of i] ab by (intro opening_frame [OF d(1) [of i]]) (auto simp: waiting_def live_def pumped_def abandoned_def)
  show "registered_ok (add_caller k b) key" for key using d(2) [of key] by (simp add: registered_ok_def)
  show "scope_ok (add_caller k b) m" if "m < length (sh_heap (add_caller k b))" for m
    using d(3) [of m] that owned_add by (auto simp: scope_ok_def Let_def)
  show "caller_ok (add_caller k b) j" if "j \<in> set (sh_callers (add_caller k b))" for j
    using d(4) [of j] that assms(3) by (auto intro: caller_ok_grow [of b])
  show "sb_scope (sh_sub (add_caller k b) ! n) < length (sh_heap (add_caller k b))" if "n < length (sh_sub (add_caller k b))" for n
    using d(5) [of n] that by simp
qed (use assms(1) in \<open>simp add: registry_def\<close>)

lemma waits_Waiting [simp]: "waits j (Waiting i) \<longleftrightarrow> j = i" "waits j (Abandoning i e) \<longleftrightarrow> j = i"
  by (auto simp: waits_def)

lemma waits_other [simp]:
  "\<not> waits i (Joining m)" "\<not> waits i (Dropping n e)" "\<not> waits i (Holding n e')" "\<not> waits i (Reading n)"
  "\<not> waits i (Selecting n)" "\<not> waits i (Refused e)" "\<not> waits i Gone"
  by (simp_all add: waits_def)

lemma holds_simps [simp]:
  "holds n (Holding j e) \<longleftrightarrow> j = n" "holds n (Reading j) \<longleftrightarrow> j = n" "holds n (Selecting j) \<longleftrightarrow> j = n" "holds n (Dropping j x) \<longleftrightarrow> j = n"
  "\<not> holds n (Joining m)" "\<not> holds n (Waiting i)" "\<not> holds n (Abandoning i x)" "\<not> holds n (Refused x)" "\<not> holds n Gone"
  by (auto simp: holds_def)

lemma registry_join:
  assumes "registry b" and "sh_openings b key = Some i"
  shows "registry (join_opening i b)"
proof (rule registryI)
  note d = registryD [OF assms(1)]
  have i: "i < length (sh_ops b)" "\<not> op_done (sh_ops b ! i)" using d(2) [of key] assms(2) by (auto simp: registered_ok_def)
  let ?b = "join_opening i b"
  have o: "owned b n \<Longrightarrow> owned ?b n" for n
    unfolding join_opening_def using i by (intro owned_add) (auto simp: owned_def)
  show "opening_ok ?b j" if "j < length (sh_ops ?b)" for j
  proof (cases "j = i")
    case True
    then show ?thesis using d(1) [OF i(1)] i by (simp add: join_opening_def opening_ok_def op_shape_def Let_def waiting_def live_def pumped_def abandoned_def)
  next
    case False
    then show ?thesis using that by (intro opening_frame [OF d(1) [of j]]) (auto simp: join_opening_def waiting_def live_def pumped_def abandoned_def)
  qed
  show "registered_ok ?b key" for key using d(2) [of key] by (auto simp: join_opening_def registered_ok_def)
  show "scope_ok ?b m" if "m < length (sh_heap ?b)" for m
    using d(3) [of m] that o by (auto simp: join_opening_def scope_ok_def Let_def)
  show "caller_ok ?b k" if "k \<in> set (sh_callers ?b)" for k
    using d(4) [of k] that i by (auto simp: join_opening_def intro: caller_ok_grow [of b])
  show "sb_scope (sh_sub ?b ! n) < length (sh_heap ?b)" if "n < length (sh_sub ?b)" for n
    using d(5) [of n] that by (simp add: join_opening_def)
qed (use assms(1) in \<open>simp add: registry_def join_opening_def\<close>)

lemma waiting_fresh: "registry b \<Longrightarrow> length (sh_ops b) \<le> i \<Longrightarrow> filter (waits i) (sh_callers b) = []"
  using registryD(4) by (fastforce simp: filter_empty_conv waits_def)

lemma registry_begin:
  assumes "registry b" and "sh_openings b key = None" and "sh_scopes b key = None"
  shows "registry (join_opening (length (sh_ops b)) (beginOpeningLocked key scope b))"
proof (rule registryI)
  note d = registryD [OF assms(1)]
  let ?b = "join_opening (length (sh_ops b)) (beginOpeningLocked key scope b)"
  note defs = join_opening_def beginOpeningLocked_def nth_append
  have o: "owned b n \<Longrightarrow> owned ?b n" for n
    unfolding join_opening_def by (intro owned_add) (auto simp: owned_def defs)
  have ab: "Abandoning (length (sh_ops b)) e \<notin> set (sh_callers b)" for e using d(4) by fastforce
  show "opening_ok ?b j" if "j < length (sh_ops ?b)" for j
    using d(1) [of j] that waiting_fresh [OF assms(1) le_refl] ab assms(2)
    by (auto simp: defs opening_ok_def op_shape_def abandoned_def Let_def waiting_def live_def pumped_def less_Suc_eq)
  show "registered_ok ?b key'" for key' using d(2) [of key'] assms(3) by (auto simp: defs registered_ok_def)
  show "scope_ok ?b m" if "m < length (sh_heap ?b)" for m
    using d(3) [of m] that o by (auto simp: defs scope_ok_def Let_def)
  show "caller_ok ?b k" if "k \<in> set (sh_callers ?b)" for k
    using d(4) [of k] that by (auto simp: defs intro: caller_ok_grow [of b])
  show "sb_scope (sh_sub ?b ! n) < length (sh_heap ?b)" if "n < length (sh_sub ?b)" for n
    using d(5) [of n] that by (simp add: defs)
qed (use assms(1) in \<open>simp add: registry_def join_opening_def beginOpeningLocked_def\<close>)

lemma registry_Watch: "registry b \<Longrightarrow> registry (Watch scope ctx b)"
proof -
  assume r: "registry b"
  have "m < length (sh_heap b)" if "sh_scopes b key = Some m" for key m
    using registryD(2) [OF r, of key] that by (simp add: registered_ok_def)
  then show ?thesis
    using registry_add [OF r] registry_join [OF r] registry_begin [OF r]
    by (auto simp: Watch_def Let_def split: option.split)
qed

subsection \<open>Attaching\<close>

lemma joined_scope [simp]: "sb_scope (joined m ss) = m"
  by (simp add: joined_def handed_def new_subscriber_def)

lemma registry_subscribe:
  assumes "registry b" and "c < length (sh_callers b)" and "sh_callers b ! c = Joining m"
  shows "registry (subscribe c m b)"
proof (cases "ss_dead (sh_heap b ! m)")
  case True
  then show ?thesis using registry_caller [OF assms(1,2), of "Refused ErrWatchClosed"] assms(3)
    by (simp add: subscribe_def)
next
  case False
  note d = registryD [OF assms(1)]
  have m: "m < length (sh_heap b)" using d(6) [OF assms(2)] assms(3) by simp
  let ?n = "length (sh_sub b)" let ?b = "subscribe c m b"
  have at: "attached m 1 b (attachLocked m b)" "sh_ops (attachLocked m b) = sh_ops b" using attach_one [OF m] by auto
  have b: "sh_depth ?b = sh_depth b" "sh_scopes ?b = sh_scopes b" "sh_openings ?b = sh_openings b" "sh_ops ?b = sh_ops b"
    "sh_crash ?b = sh_crash b" "sh_callers ?b = (sh_callers b)[c := Holding ?n None]"
    "sh_heap ?b = (sh_heap b)[m := (sh_heap b ! m)\<lparr>ss_subs := ss_subs (sh_heap b ! m) @ [?n]\<rparr>]"
    "sh_sub ?b = sh_sub b @ [joined m (sh_heap b ! m)]"
    using at False by (simp_all add: subscribe_def attached_def)
  have live: "live ?b i = live b i" "pumped ?b i = pumped b i" for i
    unfolding live_def pumped_def b by (auto simp: if_distrib cong: conj_cong)
  have w: "waiting i ?b = waiting i b" for i
    using filter_update [OF assms(2), of "waits i" "Holding ?n None"] by (simp add: waiting_def b assms(3))
  have ab: "Abandoning i e \<in> set (sh_callers ?b) \<Longrightarrow> Abandoning i e \<in> set (sh_callers b)" for i e
    using set_update_subset_insert [of "sh_callers b" c "Holding ?n None"] by (auto simp: b)
  have o: "owned ?b n" if "owned b n" for n
  proof (rule owned_mono [OF that])
    fix j
    assume "j < length (sh_callers b)" "holds n (sh_callers b ! j)"
    moreover from this have "j \<noteq> c" using assms(3) by auto
    ultimately show "\<exists>c' < length (sh_callers ?b). holds n (sh_callers ?b ! c')" by (intro exI [of _ j]) (simp add: b)
  qed (auto simp: b)
  have o': "owned ?b ?n" unfolding owned_def b using assms(2) by (auto intro: exI [of _ c])
  show ?thesis
  proof (rule registryI)
    show "opening_ok ?b j" if "j < length (sh_ops ?b)" for j
      using that ab by (intro opening_frame [OF d(1) [of j]]) (simp_all add: live w, auto simp: abandoned_def b)
    show "registered_ok ?b key" for key using d(2) [of key] by (auto simp: registered_ok_def b)
    show "scope_ok ?b j" if "j < length (sh_heap ?b)" for j
      using d(3) [of j] that o o' False m by (auto simp: scope_ok_def Let_def b nth_append)
    show "caller_ok ?b k" if "k \<in> set (sh_callers ?b)" for k
    proof -
      have "k = Holding ?n None \<or> k \<in> set (sh_callers b)"
        using that set_update_subset_insert [of "sh_callers b" c "Holding ?n None"] by (auto simp: b)
      then show ?thesis using d(4) [of k] by (auto simp: b intro: caller_ok_grow [of b])
    qed
    show "sb_scope (sh_sub ?b ! n) < length (sh_heap ?b)" if "n < length (sh_sub ?b)" for n
      using d(5) [of n] that m by (auto simp: b nth_append less_Suc_eq)
  qed (use assms(1) in \<open>simp add: registry_def b\<close>)
qed

lemma registry_discard:
  assumes "registry b" and "i < length (sh_ops b)" and "op_upstream (sh_ops b ! i) = UpOpening"
    and "sh_openings b (op_key (sh_ops b ! i)) \<noteq> Some i"
  shows "registry (upd_op i (\<lambda>op. op\<lparr>op_cancelled := True, op_upstream := UpStopped\<rparr>) b)"
proof (rule registryI)
  note d = registryD [OF assms(1)]
  let ?b = "upd_op i (\<lambda>op. op\<lparr>op_cancelled := True, op_upstream := UpStopped\<rparr>) b"
  have o: "owned b n \<Longrightarrow> owned ?b n" for n by (auto simp: owned_def)
  show "opening_ok ?b j" if "j < length (sh_ops ?b)" for j
    using d(1) [of j] that by (auto simp: opening_ok_def op_shape_def abandoned_def Let_def waiting_def live_def pumped_def)
  show "registered_ok ?b key" for key using d(2) [of key] assms(4) by (auto simp: registered_ok_def)
  show "scope_ok ?b m" if "m < length (sh_heap ?b)" for m
    using d(3) [of m] that o by (auto simp: scope_ok_def Let_def)
  show "caller_ok ?b k" if "k \<in> set (sh_callers ?b)" for k
    using d(4) [of k] that by (auto intro: caller_ok_grow [of b])
  show "sb_scope (sh_sub ?b ! n) < length (sh_heap ?b)" if "n < length (sh_sub ?b)" for n
    using d(5) [of n] that by simp
qed (use assms(1) in \<open>simp add: registry_def\<close>)

lemma registry_failed:
  assumes "registry b" and "sh_openings b (op_key (sh_ops b ! i)) = Some i"
  shows "registry (settle i (Some e) b)"
proof (rule registryI)
  note d = registryD [OF assms(1)]
  let ?b = "settle i (Some e) b"
  have i: "i < length (sh_ops b)" "\<not> op_done (sh_ops b ! i)" "op_upstream (sh_ops b ! i) = UpOpening"
    using d(2) [of "op_key (sh_ops b ! i)"] assms(2) by (auto simp: registered_ok_def)
  have b: "sh_scopes ?b = sh_scopes b" "sh_openings ?b = (sh_openings b)(op_key (sh_ops b ! i) := None)"
    "sh_ops ?b = (sh_ops b)[i := (sh_ops b ! i)\<lparr>op_cancelled := True, op_err := Some e, op_done := True, op_upstream := UpStopped\<rparr>]"
    "sh_crash ?b = sh_crash b" "sh_callers ?b = sh_callers b" "sh_heap ?b = sh_heap b" "sh_sub ?b = sh_sub b"
    using assms(2) by (simp_all add: settle_def Let_def)
  have o: "owned b n \<Longrightarrow> owned ?b n" for n using i(1) by (auto simp: owned_def b)
  show "opening_ok ?b j" if "j < length (sh_ops ?b)" for j
  proof (cases "j = i")
    case True
    then show ?thesis using d(1) [OF i(1)] i by (simp add: opening_ok_def op_shape_def abandoned_def Let_def waiting_def live_def pumped_def b)
  next
    case False
    then have "sh_openings b (op_key (sh_ops b ! j)) = Some j \<Longrightarrow> op_key (sh_ops b ! j) \<noteq> op_key (sh_ops b ! i)"
      using assms(2) by auto
    then show ?thesis using that False by (intro opening_frame [OF d(1) [of j]]) (simp_all add: waiting_def live_def pumped_def abandoned_def b)
  qed
  show "registered_ok ?b key" for key
  proof (cases "key = op_key (sh_ops b ! i)")
    case True
    then have "sh_scopes b key = None" using d(2) [of key] assms(2) by (simp add: registered_ok_def)
    then show ?thesis by (simp add: registered_ok_def b True)
  next
    case False
    then have "sh_openings b key \<noteq> Some i" using d(2) [of key] by (auto simp: registered_ok_def)
    then show ?thesis using d(2) [of key] False by (auto simp: registered_ok_def b)
  qed
  show "scope_ok ?b m" if "m < length (sh_heap ?b)" for m
    using d(3) [of m] that o by (auto simp: scope_ok_def Let_def b)
  show "caller_ok ?b k" if "k \<in> set (sh_callers ?b)" for k
    using d(4) [of k] that by (auto simp: b intro: caller_ok_grow [of b])
  show "sb_scope (sh_sub ?b ! n) < length (sh_heap ?b)" if "n < length (sh_sub ?b)" for n
    using d(5) [of n] that by (simp add: b)
qed (use assms in \<open>simp add: registry_def settle_def Let_def\<close>)

lemma registry_opened:
  assumes "registry b" and "sh_openings b (op_key (sh_ops b ! i)) = Some i"
  shows "registry (settle i None b)"
proof (rule registryI)
  note d = registryD [OF assms(1)]
  let ?b = "settle i None b" let ?key = "op_key (sh_ops b ! i)" let ?m = "length (sh_heap b)"
  let ?k = "nat (op_waiters (sh_ops b ! i))" let ?new = "[length (sh_sub b)..<length (sh_sub b) + ?k]"
  let ?ss = "newSharedScope ?key (op_scope (sh_ops b ! i)) i"
  have i: "i < length (sh_ops b)" "\<not> op_done (sh_ops b ! i)" "op_upstream (sh_ops b ! i) = UpOpening"
      "op_waiters (sh_ops b ! i) \<ge> 1" "sh_scopes b ?key = None" "\<not> op_cancelled (sh_ops b ! i)"
    using d(2) [of ?key] assms(2) by (auto simp: registered_ok_def)
  have oi: "op_subs (sh_ops b ! i) = []" "?k = waiting i b" "op_err (sh_ops b ! i) = None"
    using d(1) [OF i(1)] i(2) by (auto simp: opening_ok_def op_shape_def Let_def)
  define b1 where "b1 = b\<lparr>sh_openings := (sh_openings b)(?key := None), sh_heap := sh_heap b @ [?ss], sh_scopes := (sh_scopes b)(?key \<mapsto> ?m)\<rparr>"
  have "?m < length (sh_heap b1)" "i < length (sh_ops b1)" using i by (simp_all add: b1_def)
  note at = attach_many [OF this, of ?k]
  have bdef: "?b = upd_op i (\<lambda>op. op\<lparr>op_done := True, op_upstream := UpOpen\<rparr>) (attach_waiters i ?m ?k b1)"
    using assms(2) by (simp add: settle_def Let_def b1_def)
  have b: "sh_scopes ?b = (sh_scopes b)(?key \<mapsto> ?m)" "sh_openings ?b = (sh_openings b)(?key := None)"
    "sh_ops ?b = (sh_ops b)[i := (sh_ops b ! i)\<lparr>op_subs := ?new, op_done := True, op_upstream := UpOpen\<rparr>]"
    "sh_crash ?b = sh_crash b" "sh_callers ?b = sh_callers b" "sh_heap ?b = sh_heap b @ [?ss\<lparr>ss_subs := ?new\<rparr>]"
    "sh_sub ?b = sh_sub b @ replicate ?k (joined ?m ?ss)"
    using at i(1) unfolding bdef attached_def
    by (simp_all add: b1_def oi newSharedScope_def)
  have lv: "live b j \<Longrightarrow> live ?b j" "pumped b j \<Longrightarrow> pumped ?b j" for j
    by (auto simp: live_def pumped_def b nth_append intro: less_SucI)
  have li: "live ?b i" "pumped ?b i" unfolding live_def pumped_def b
    by (auto intro!: exI [of _ ?m] simp: newSharedScope_def)
  show "opening_ok ?b j" if "j < length (sh_ops ?b)" for j
  proof (cases "j = i")
    case True
    then show ?thesis using i oi li by (simp add: opening_ok_def op_shape_def Let_def waiting_def b subset_iff)
  next
    case False
    then have nk: "sh_openings b (op_key (sh_ops b ! j)) = Some j \<Longrightarrow> op_key (sh_ops b ! j) \<noteq> ?key"
      using assms(2) by auto
    have j: "opening_ok b j" using d(1) that by (simp add: b)
    have "sh_ops ?b ! j = sh_ops b ! j" using False by (simp add: b)
    then show ?thesis using nk lv [of j] by (intro opening_frame [OF j]) (simp_all add: waiting_def abandoned_def b)
  qed
  show "registered_ok ?b key" for key
  proof (cases "key = ?key")
    case True
    then show ?thesis by (simp add: registered_ok_def b newSharedScope_def nth_append)
  next
    case False
    then have "sh_openings b key \<noteq> Some i" using d(2) [of key] by (auto simp: registered_ok_def)
    then show ?thesis using d(2) [of key] False by (auto simp: registered_ok_def b nth_append)
  qed
  have o: "owned ?b n" if "owned b n" for n
  proof -
    have "\<exists>j < length (sh_ops ?b). n \<in> set (op_subs (sh_ops ?b ! j))"
      if "j < length (sh_ops b)" "n \<in> set (op_subs (sh_ops b ! j))" for j
      using that oi(1) by (intro exI [of _ j]) (auto simp: b)
    then show ?thesis using that unfolding owned_def b(5) by blast
  qed
  have o': "n \<in> set ?new \<Longrightarrow> owned ?b n" for n using i(1) by (auto simp: owned_def b)
  show "scope_ok ?b m" if "m < length (sh_heap ?b)" for m
  proof (cases "m = ?m")
    case True
    then show ?thesis using i o' by (auto simp: scope_ok_def Let_def b newSharedScope_def nth_append)
  next
    case False
    then show ?thesis using d(3) [of m] that o i(5) by (auto simp: scope_ok_def Let_def b nth_append)
  qed
  show "caller_ok ?b k" if "k \<in> set (sh_callers ?b)" for k
    using d(4) [of k] that by (auto simp: b intro: caller_ok_grow [of b])
  show "sb_scope (sh_sub ?b ! n) < length (sh_heap ?b)" if "n < length (sh_sub ?b)" for n
    using d(5) [of n] that by (auto simp: b nth_append)
  show "sh_crash ?b \<noteq> Some IndexOutOfRange" using assms(1) by (simp add: registry_def b)
qed

lemma registry_settle:
  assumes "registry b" and "i < length (sh_ops b)" and "op_upstream (sh_ops b ! i) = UpOpening"
  shows "registry (settle i err b)"
proof (cases "sh_openings b (op_key (sh_ops b ! i)) = Some i")
  case True
  then show ?thesis using registry_opened [OF assms(1)] registry_failed [OF assms(1)] by (cases err) auto
next
  case False
  then show ?thesis using registry_discard [OF assms] by (simp add: settle_def Let_def)
qed

subsection \<open>Leaving the wait\<close>

lemma waits_unique: "waits i k \<Longrightarrow> waits j k \<Longrightarrow> i = j"
  by (auto simp: waits_def)

lemma waits_not_holds: "waits i k \<Longrightarrow> \<not> holds n k"
  by (auto simp: waits_def)

lemma waiting_pos: "c < length (sh_callers b) \<Longrightarrow> waits i (sh_callers b ! c) \<Longrightarrow> waiting i b > 0"
  unfolding waiting_def by (metis length_greater_0_conv filter_empty_conv nth_mem)

lemma waiting_drop:
  assumes "c < length (sh_callers b)" and "waits i (sh_callers b ! c)" and "\<And>j. \<not> waits j k"
  shows "length (filter (waits j) ((sh_callers b)[c := k])) = (if j = i then waiting i b - 1 else waiting j b)"
proof (cases "j = i")
  case True
  then show ?thesis using filter_update [OF assms(1), of "waits i" k] assms(2,3) by (simp add: waiting_def)
next
  case False
  then have "\<not> waits j (sh_callers b ! c)" using waits_unique [OF assms(2)] by blast
  then show ?thesis using filter_update [OF assms(1), of "waits j" k] assms(3) False by (simp add: waiting_def)
qed

text \<open>A caller that waited for opening \<open>i\<close> stops waiting; the opening becomes \<open>op\<close>.\<close>

lemma registry_take:
  assumes "registry b" and "c < length (sh_callers b)" and "waits i (sh_callers b ! c)" and "\<And>j. \<not> waits j k"
    and "sh_callers b' = (sh_callers b)[c := k]" and "sh_ops b' = (sh_ops b)[i := op]"
    and "sh_openings b' = sh_openings b" "sh_scopes b' = sh_scopes b" "sh_heap b' = sh_heap b" "sh_sub b' = sh_sub b"
      "sh_crash b' = sh_crash b"
    and "op = (sh_ops b ! i)\<lparr>op_subs := xs\<rparr>" and "op_shape op (waiting i b - 1) (abandoned b i)" and "op_done op"
    and "set (op_subs (sh_ops b ! i)) \<subseteq> set xs \<union> {n. holds n k}" and "set xs \<subseteq> set (op_subs (sh_ops b ! i))"
    and "caller_ok b k"
  shows "registry b'"
proof (rule registryI)
  note d = registryD [OF assms(1)]
  have i: "i < length (sh_ops b)" using d(6) [OF assms(2)] assms(3) by (auto simp: waits_def)
  have ab: "abandoned b' j \<Longrightarrow> abandoned b j" for j
    using set_update_subset_insert [of "sh_callers b" c k] assms(4) [of j] by (auto simp: abandoned_def assms(5) waits_def)
  have w: "waiting j b' = (if j = i then waiting i b - 1 else waiting j b)" for j
    unfolding waiting_def assms(5) by (rule waiting_drop [unfolded waiting_def, OF assms(2-4)])
  have lv: "live b' j = live b j" "pumped b' j = pumped b j" for j by (simp_all add: live_def pumped_def assms(9))
  show "opening_ok b' j" if "j < length (sh_ops b')" for j
  proof (cases "j = i")
    case True
    have "set xs \<subseteq> {..<length (sh_sub b)}" using d(1) [OF i] assms(16) by (auto simp: opening_ok_def Let_def)
    then show ?thesis using d(1) [OF i] i True op_shape_mono [OF assms(13), of "abandoned b' i"] ab [of i]
      by (simp add: opening_ok_def Let_def w lv assms)
  next
    case False
    then show ?thesis using that ab by (intro opening_frame [OF d(1) [of j]]) (simp_all add: w lv assms)
  qed
  show "registered_ok b' key" for key
    using d(2) [of key] assms(14) by (auto simp: registered_ok_def assms(6-9,12))
  have o: "owned b' n" if "owned b n" for n
  proof -
    from that consider j where "j < length (sh_callers b)" "holds n (sh_callers b ! j)"
      | j where "j < length (sh_ops b)" "n \<in> set (op_subs (sh_ops b ! j))" by (auto simp: owned_def)
    then show ?thesis
    proof cases
      case 1
      then have "j \<noteq> c" using waits_not_holds [OF assms(3)] by auto
      then show ?thesis using 1 unfolding owned_def assms(5) by (intro disjI1 exI [of _ j]) simp
    next
      case 2
      then have "n \<in> set (op_subs (sh_ops b' ! j)) \<or> holds n k" using assms(6,12,15) by auto
      then show ?thesis
      proof
        assume "holds n k"
        then show ?thesis using assms(2) unfolding owned_def assms(5) by (intro disjI1 exI [of _ c]) simp
      next
        assume "n \<in> set (op_subs (sh_ops b' ! j))"
        then show ?thesis using 2 unfolding owned_def by (intro disjI2 exI [of _ j]) (simp add: assms(6))
      qed
    qed
  qed
  show "scope_ok b' m" if "m < length (sh_heap b')" for m
    using d(3) [of m] that o i by (auto simp: scope_ok_def Let_def assms(6-10,12))
  show "caller_ok b' k'" if "k' \<in> set (sh_callers b')" for k'
    using that assms(17) by (intro callers_grow [OF assms(1), of k' c k]) (simp_all add: assms(5,6,9,10))
  show "sb_scope (sh_sub b' ! n) < length (sh_heap b')" if "n < length (sh_sub b')" for n
    using d(5) [of n] that by (simp add: assms(9,10))
  show "sh_crash b' \<noteq> Some IndexOutOfRange" using assms(1,11) by (simp add: registry_def)
qed

lemma registry_collect:
  assumes "registry b" and "c < length (sh_callers b)" and "waits i (sh_callers b ! c)" and "op_done (sh_ops b ! i)"
    and "\<And>n j. \<not> waits j (held n)" and "\<And>n. holds n (held n)" and "\<And>n b. caller_ok b (held n) = (n < length (sh_sub b))"
  shows "registry (collect c i held other b)"
proof -
  let ?op = "sh_ops b ! i"
  have i: "i < length (sh_ops b)" using registryD(6) [OF assms(1,2)] assms(3) by (auto simp: waits_def)
  have ok: "op_shape ?op (waiting i b) (abandoned b i)" "set (op_subs ?op) \<subseteq> {..<length (sh_sub b)}"
    using registryD(1) [OF assms(1) i] by (auto simp: opening_ok_def Let_def)
  show ?thesis
  proof (cases "op_err ?op")
    case (Some e)
    then have "op_subs ?op = []" using ok(1) by (simp add: op_shape_def)
    then show ?thesis using Some assms(4) ok(1)
      by (intro registry_take [OF assms(1-3), of "Refused (other e)" _ ?op "[]"])
         (simp_all add: collect_def op_shape_def list_update_id)
  next
    case None
    have len: "length (op_subs ?op) = waiting i b" using ok(1) None assms(4) by (simp add: op_shape_def)
    then have ne: "op_subs ?op \<noteq> []" using waiting_pos [OF assms(2,3)] by auto
    have split: "set (op_subs ?op) = insert (List.last (op_subs ?op)) (set (butlast (op_subs ?op)))"
      using ne by (metis append_butlast_last_id list.simps(15) set_append Un_insert_right append_Nil2 list.set(1) sup_bot_right)
    show ?thesis using None assms(4-7) ok ne len i split
      by (intro registry_take [OF assms(1-3), of "held (List.last (op_subs ?op))" _ "?op\<lparr>op_subs := butlast (op_subs ?op)\<rparr>" "butlast (op_subs ?op)"])
         (auto simp: collect_def op_shape_def)
  qed
qed

lemma registry_abandon:
  assumes "registry b" and "c < length (sh_callers b)" and "sh_callers b ! c = Waiting i"
  shows "registry (abandon c i err b)"
proof (cases "op_done (sh_ops b ! i)")
  case True
  note d = registryD [OF assms(1)]
  have i: "i < length (sh_ops b)" using d(6) [OF assms(2)] assms(3) by simp
  let ?b = "set_caller c (Abandoning i err) b"
  have w: "waiting j ?b = waiting j b" for j
    using waiting_set [OF assms(2), of j "Abandoning i err"] assms(3) by (auto split: if_splits)
  have ab: "abandoned ?b j \<Longrightarrow> j \<noteq> i \<Longrightarrow> abandoned b j" for j
    using set_update_subset_insert [of "sh_callers b" c "Abandoning i err"] by (auto simp: abandoned_def)
  have lv: "live ?b j = live b j" "pumped ?b j = pumped b j" for j by (simp_all add: live_def pumped_def)
  have o: "owned ?b n" if "owned b n" for n
  proof (rule owned_mono [OF that])
    fix j
    assume "j < length (sh_callers b)" "holds n (sh_callers b ! j)"
    moreover from this have "j \<noteq> c" using assms(3) by auto
    ultimately show "\<exists>c' < length (sh_callers ?b). holds n (sh_callers ?b ! c')" by (intro exI [of _ j]) simp
  qed auto
  have "registry ?b"
  proof (rule registryI)
    show "opening_ok ?b j" if "j < length (sh_ops ?b)" for j
    proof (cases "j = i")
      case True
      then show ?thesis using d(1) [OF i] \<open>op_done (sh_ops b ! i)\<close>
        by (simp add: opening_ok_def op_shape_def Let_def w lv)
    next
      case False
      then show ?thesis using that ab by (intro opening_frame [OF d(1) [of j]]) (simp_all add: w lv)
    qed
    show "registered_ok ?b key" for key using d(2) [of key] by (simp add: registered_ok_def)
    show "scope_ok ?b m" if "m < length (sh_heap ?b)" for m
      using d(3) [of m] that o by (auto simp: scope_ok_def Let_def)
    show "caller_ok ?b k'" if "k' \<in> set (sh_callers ?b)" for k'
      using that i by (intro callers_grow [OF assms(1), of k' c "Abandoning i err"]) simp_all
    show "sb_scope (sh_sub ?b ! n) < length (sh_heap ?b)" if "n < length (sh_sub ?b)" for n
      using d(5) [of n] that by simp
  qed (use assms(1) in \<open>simp add: registry_def\<close>)
  then show ?thesis using True by (simp add: abandon_def)
next
  case False
  note d = registryD [OF assms(1)]
  let ?b = "abandon c i err b" let ?w = "op_waiters (sh_ops b ! i) - 1" let ?key = "op_key (sh_ops b ! i)"
  have i: "i < length (sh_ops b)" using d(6) [OF assms(2)] assms(3) by simp
  have oi: "op_waiters (sh_ops b ! i) = int (waiting i b)" using d(1) [OF i] False by (simp add: opening_ok_def op_shape_def Let_def)
  have pos: "waiting i b > 0" using waiting_pos [OF assms(2)] assms(3) by simp
  have b: "sh_callers ?b = (sh_callers b)[c := Refused err]" "sh_scopes ?b = sh_scopes b" "sh_heap ?b = sh_heap b"
    "sh_sub ?b = sh_sub b" "sh_crash ?b = sh_crash b"
    "sh_ops ?b = (sh_ops b)[i := (sh_ops b ! i)\<lparr>op_waiters := ?w, op_cancelled := op_cancelled (sh_ops b ! i) \<or> ?w = 0\<rparr>]"
    "sh_openings ?b = (if ?w = 0 \<and> sh_openings b ?key = Some i then (sh_openings b)(?key := None) else sh_openings b)"
    using False i by (simp_all add: abandon_def Let_def)
  have w: "waiting j ?b = (if j = i then waiting i b - 1 else waiting j b)" for j
    unfolding waiting_def b by (rule waiting_drop [unfolded waiting_def, OF assms(2)]) (simp_all add: assms(3))
  have ab: "abandoned ?b j \<Longrightarrow> abandoned b j" for j
    using set_update_subset_insert [of "sh_callers b" c "Refused err"] by (auto simp: abandoned_def b)
  have lv: "live ?b j = live b j" "pumped ?b j = pumped b j" for j by (simp_all add: live_def pumped_def b)
  have o: "owned ?b n" if "owned b n" for n
  proof (rule owned_mono [OF that])
    fix j
    assume "j < length (sh_callers b)" "holds n (sh_callers b ! j)"
    moreover from this have "j \<noteq> c" using assms(3) by auto
    ultimately show "\<exists>c' < length (sh_callers ?b). holds n (sh_callers ?b ! c')" by (intro exI [of _ j]) (simp add: b)
  next
    fix j
    assume "j < length (sh_ops b)" "n \<in> set (op_subs (sh_ops b ! j))"
    then show "\<exists>i' < length (sh_ops ?b). n \<in> set (op_subs (sh_ops ?b ! i'))" by (intro exI [of _ j]) (auto simp: b)
  qed
  show ?thesis
  proof (rule registryI)
    show "opening_ok ?b j" if "j < length (sh_ops ?b)" for j
    proof (cases "j = i")
      case True
      have shape: "op_shape (sh_ops ?b ! i) (waiting i ?b) (abandoned ?b i)"
        using d(1) [OF i] False oi pos i ab [of i] by (auto simp: opening_ok_def op_shape_def Let_def w b of_nat_diff)
      show ?thesis using d(1) [OF i] shape True i by (auto simp: opening_ok_def Let_def lv b)
    next
      case False
      then have "sh_openings b (op_key (sh_ops b ! j)) = Some j \<Longrightarrow> sh_openings ?b (op_key (sh_ops b ! j)) = Some j"
        by (auto simp: b)
      then show ?thesis using that False ab
        by (intro opening_frame [OF d(1) [of j]]) (simp_all add: w lv b(4,6))
    qed
    show "registered_ok ?b key" for key
    proof -
      have sub: "sh_openings b key = Some j" if "sh_openings ?b key = Some j" for j
        using that by (simp add: b(7) split: if_splits)
      have kept: "?w \<noteq> 0" if "sh_openings ?b key = Some i"
      proof
        assume "?w = 0"
        moreover have "key = ?key" using sub [OF that] d(2) [of key] by (simp add: registered_ok_def)
        ultimately show False using that sub [OF that] by (simp add: b(7))
      qed
      have "op_waiters (sh_ops b ! i) \<ge> 1" using oi pos by simp
      with kept have "sh_openings ?b key = Some i \<Longrightarrow> ?w \<ge> 1" by simp
      then show ?thesis using d(2) [of key] sub kept unfolding registered_ok_def b(2,3,6) by simp
    qed
    show "scope_ok ?b m" if "m < length (sh_heap ?b)" for m
      using d(3) [of m] that o by (auto simp: scope_ok_def Let_def b)
    show "caller_ok ?b k'" if "k' \<in> set (sh_callers ?b)" for k'
      using that by (intro callers_grow [OF assms(1), of k' c "Refused err"]) (simp_all add: b)
    show "sb_scope (sh_sub ?b ! n) < length (sh_heap ?b)" if "n < length (sh_sub ?b)" for n
      using d(5) [of n] that by (simp add: b)
    show "sh_crash ?b \<noteq> Some IndexOutOfRange" using assms(1) by (simp add: registry_def b)
  qed
qed

subsection \<open>The end of a scope\<close>

lemma registry_pump:
  assumes "registry b" and "m < length (sh_heap b)"
    and "ss_pump (sh_heap b ! m) \<noteq> PumpReturned" and "p \<noteq> PumpReturned" and "\<And>e. p \<noteq> Ending e"
  shows "registry (set_pump m p b)"
proof (rule registryI)
  note d = registryD [OF assms(1)]
  let ?b = "set_pump m p b"
  have b: "sh_heap ?b = (sh_heap b)[m := (sh_heap b ! m)\<lparr>ss_pump := p\<rparr>]" "sh_scopes ?b = sh_scopes b"
    "sh_openings ?b = sh_openings b" "sh_ops ?b = sh_ops b" "sh_callers ?b = sh_callers b" "sh_crash ?b = sh_crash b"
    "sh_sub ?b = sh_sub b" by (simp_all add: set_pump_def)
  have lv: "live ?b j = live b j" "pumped ?b j = pumped b j" for j
    unfolding live_def pumped_def b using assms(2-4) by (auto simp: if_distrib cong: conj_cong)
  show "opening_ok ?b j" if "j < length (sh_ops ?b)" for j
    using that by (intro opening_frame [OF d(1) [of j]]) (simp_all add: lv waiting_def abandoned_def b)
  show "registered_ok ?b key" for key using d(2) [of key] by (auto simp: registered_ok_def b)
  show "scope_ok ?b j" if "j < length (sh_heap ?b)" for j
    using d(3) [of j] that assms(4,5) by (auto simp: scope_ok_def Let_def owned_def b)
  show "caller_ok ?b k" if "k \<in> set (sh_callers ?b)" for k
    using d(4) [of k] that by (auto simp: b intro: caller_ok_grow [of b])
  show "sb_scope (sh_sub ?b ! n) < length (sh_heap ?b)" if "n < length (sh_sub ?b)" for n
    using d(5) [of n] that by (simp add: b)
  show "sh_crash ?b \<noteq> Some IndexOutOfRange" using assms(1) by (simp add: registry_def b)
qed

lemma unregister_Some: "unregister m b key = Some j \<longleftrightarrow> sh_scopes b key = Some j \<and> (key = ss_key (sh_heap b ! m) \<longrightarrow> j \<noteq> m)"
  by (auto simp: unregister_def)

lemma unregister_None: "sh_scopes b key = None \<Longrightarrow> unregister m b key = None"
  by (simp add: unregister_def)

text \<open>\<open>forget\<close> and \<open>cancel\<close>, with whatever else happens to the scope's own record.\<close>

lemma registry_forget:
  assumes "registry b" and "m < length (sh_heap b)"
    and "sh_heap b' = (sh_heap b)[m := f (sh_heap b ! m)]" and "sh_scopes b' = unregister m b"
    and "sh_openings b' = sh_openings b" and "sh_callers b' = sh_callers b" and "sh_crash b' = sh_crash b" and "sh_sub b' = sh_sub b"
    and "sh_ops b' = (sh_ops b)[ss_op (sh_heap b ! m) := (sh_ops b ! ss_op (sh_heap b ! m))\<lparr>op_cancelled := True\<rparr>]"
    and "\<And>ss. ss_key (f ss) = ss_key ss" "\<And>ss. ss_op (f ss) = ss_op ss" "\<And>ss. ss_dead (f ss) = ss_dead ss" "\<And>ss. ss_subs (f ss) = ss_subs ss"
    and "ss_leaving (f (sh_heap b ! m)) \<noteq> None \<Longrightarrow> ss_leaving (sh_heap b ! m) \<noteq> None"
    and "ss_pump (f (sh_heap b ! m)) = PumpReturned \<longleftrightarrow> ss_pump (sh_heap b ! m) = PumpReturned"
  shows "registry b'"
proof (rule registryI)
  note d = registryD [OF assms(1)]
  let ?o = "ss_op (sh_heap b ! m)"
  have dm: "scope_ok b m" using d(3) [OF assms(2)] .
  have lv: "live b j \<Longrightarrow> j \<noteq> ?o \<Longrightarrow> live b' j" "pumped b j \<Longrightarrow> pumped b' j" for j
    using assms(11,12,15) by (auto elim!: live_frame pumped_frame simp: assms(3) split: if_splits)
  have ops: "sh_ops b' ! j = (sh_ops b ! j)\<lparr>op_cancelled := op_cancelled (sh_ops b ! j) \<or> j = ?o\<rparr>" if "j < length (sh_ops b)" for j
    using that by (simp add: assms(9))
  have same: "waiting j b' = waiting j b" "abandoned b' j = abandoned b j" for j
    by (simp_all add: waiting_def abandoned_def assms(6))
  show "opening_ok b' j" if "j < length (sh_ops b')" for j
  proof (cases "j = ?o")
    case True
    then show ?thesis using d(1) [of j] that lv(2) [of j] by (simp add: opening_ok_def op_shape_def Let_def same ops assms(8,9))
  next
    case False
    then show ?thesis using that lv by (intro opening_frame [OF d(1) [of j]]) (simp_all add: same ops assms(5,8,9))
  qed
  show "registered_ok b' key" for key
  proof -
    have "j \<noteq> m" if "sh_scopes b' key = Some j" for j
      using that d(2) [of key] by (auto simp: assms(4) unregister_Some registered_ok_def)
    moreover have "sh_openings b key = Some i \<Longrightarrow> i \<noteq> ?o" for i
      using d(2) [of key] dm by (auto simp: registered_ok_def scope_ok_def Let_def)
    ultimately show ?thesis using d(2) [of key]
      by (auto simp: registered_ok_def assms(3,5,9) assms(4) unregister_Some unregister_None)
  qed
  have o: "owned b n \<Longrightarrow> owned b' n" for n
    by (erule owned_ops) (simp_all add: assms(6,9))
  show "scope_ok b' j" if "j < length (sh_heap b')" for j
    using d(3) [of j] that o assms(2,10-15) by (auto simp: scope_ok_def Let_def assms(3,4,8,9) unregister_Some)
  show "caller_ok b' k" if "k \<in> set (sh_callers b')" for k
    using d(4) [of k] that by (auto simp: assms(3,6,8,9) intro: caller_ok_grow [of b])
  show "sb_scope (sh_sub b' ! n) < length (sh_heap b')" if "n < length (sh_sub b')" for n
    using d(5) [of n] that by (simp add: assms(3,8))
  show "sh_crash b' \<noteq> Some IndexOutOfRange" using assms(1) by (simp add: registry_def assms(7))
qed

lemma registry_leave_step:
  assumes "registry b" and "m < length (sh_heap b)" and "leave_step m b = Some b'"
  shows "registry b'"
proof -
  obtain fin where b': "b' = cancel_scope m (forget m fin (upd_scope m (\<lambda>ss. ss\<lparr>ss_leaving := None\<rparr>) b))"
    and l: "ss_leaving (sh_heap b ! m) = Some fin"
    using assms(3) by (auto simp: leave_step_def split: option.splits)
  show ?thesis unfolding b'
    by (rule registry_forget [OF assms(1,2), where f = "\<lambda>ss. ss\<lparr>ss_leaving := None\<rparr>"])
       (simp_all add: cancel_scope_def unregister_def assms(2))
qed

lemma registry_die_forget:
  assumes "registry b" and "m < length (sh_heap b)" and "ss_pump (sh_heap b ! m) = Forgetting fin cause" and "die_step m b = Some b'"
  shows "registry b'"
proof -
  have b': "b' = set_pump m (Ending cause) (cancel_scope m (forget m fin b))" using assms(3,4) by (simp add: die_step_def)
  show ?thesis unfolding b'
    by (rule registry_forget [OF assms(1,2), where f = "\<lambda>ss. ss\<lparr>ss_pump := Ending cause\<rparr>"])
       (simp_all add: cancel_scope_def set_pump_def unregister_def assms(3))
qed

lemma bury_scope [simp]: "sb_scope (buried depth cause sub) = sb_scope sub" "sb_scope (ended r sub) = sb_scope sub"
  "sb_scope (offered depth ev sub) = sb_scope sub" "sb_scope (fanned depth ev sub) = sb_scope sub"
  "sb_scope (handed cache sub) = sb_scope sub" "sb_scope (woken cache sub) = sb_scope sub"
  by (simp_all add: buried_def ended_def offered_def fanned_def handed_def woken_def)

text \<open>A scope loses all its subscribers, or its last one: it is dead then.\<close>

lemma registry_close:
  assumes "registry b" and "m < length (sh_heap b)"
    and "sh_heap b' = (sh_heap b)[m := ss]" and "sh_scopes b' = sh_scopes b"
    and "sh_openings b' = sh_openings b" and "sh_crash b' = sh_crash b"
    and "length (sh_sub b') = length (sh_sub b)" and "\<And>n. n < length (sh_sub b) \<Longrightarrow> sb_scope (sh_sub b' ! n) = sb_scope (sh_sub b ! n)"
    and "ss_key ss = ss_key (sh_heap b ! m)" "ss_op ss = ss_op (sh_heap b ! m)"
    and "sh_ops b' = sh_ops b \<or> sh_ops b' = (sh_ops b)[ss_op ss := (sh_ops b ! ss_op ss)\<lparr>op_upstream := UpStopped\<rparr>]"
    and "op_upstream (sh_ops b' ! ss_op ss) = UpOpen \<Longrightarrow> ss_pump ss = PumpReturned \<longleftrightarrow> ss_pump (sh_heap b ! m) = PumpReturned"
    and "sh_callers b' = sh_callers b"
    and "scope_ok b' m" and "\<not> ss_dead ss \<or> ss_leaving ss \<noteq> None \<or> (ss_dead (sh_heap b ! m) \<and> ss_leaving (sh_heap b ! m) = None) \<or>
      (op_cancelled (sh_ops b ! ss_op ss) \<and> sh_scopes b (ss_key ss) \<noteq> Some m)"
  shows "registry b'"
proof (rule registryI)
  note d = registryD [OF assms(1)]
  let ?o = "ss_op (sh_heap b ! m)"
  have len: "length (sh_ops b') = length (sh_ops b)" using assms(11) by auto
  have ops: "sh_ops b' ! j = (sh_ops b ! j)\<lparr>op_upstream := op_upstream (sh_ops b' ! j)\<rparr>" for j
    using assms(11) by auto
  have ops': "sh_ops b' ! j = sh_ops b ! j" if "j \<noteq> ?o" for j using that assms(10,11) by auto
  have dm: "scope_ok b m" using d(3) [OF assms(2)] .
  have dn: "op_done (sh_ops b ! ?o)" "?o < length (sh_ops b)" using dm by (simp_all add: scope_ok_def Let_def)
  have lv: "live b' j" if "live b j" "j \<noteq> ?o \<or> \<not> op_cancelled (sh_ops b ! ?o)" for j
    using that(1) by (rule live_frame) (use that(2) assms(10,15) in \<open>auto simp: assms(3) split: if_splits\<close>)
  have pm: "pumped b' j" if "pumped b j" "op_upstream (sh_ops b' ! ?o) = UpOpen \<or> j \<noteq> ?o" for j
    using that(1) by (rule pumped_frame) (use that(2) assms(10,12) in \<open>auto simp: assms(3) split: if_splits\<close>)
  have same: "waiting j b' = waiting j b" "abandoned b' j = abandoned b j" for j
    by (simp_all add: waiting_def abandoned_def assms(13))
  show "opening_ok b' j" if "j < length (sh_ops b')" for j
  proof (cases "j = ?o")
    case True
    have ok: "opening_ok b ?o" using d(1) dn(2) by simp
    have up: "op_upstream (sh_ops b' ! ?o) = UpOpen \<Longrightarrow> sh_ops b' = sh_ops b"
      using assms(10,11) dn(2) by auto
    have ne: "op_upstream (sh_ops b' ! ?o) \<noteq> UpOpening" using assms(10,11) dn ok
      by (auto simp: opening_ok_def op_shape_def Let_def)
    have p: "pumped b' ?o" if "op_upstream (sh_ops b' ! ?o) = UpOpen"
      using pm [of ?o] ok up [OF that] that by (simp add: opening_ok_def Let_def)
    have l: "sh_openings b' (op_key (sh_ops b ! ?o)) = Some ?o \<or> live b' ?o" if "\<not> op_cancelled (sh_ops b ! ?o)"
      using ok that lv [of ?o] assms(5) by (auto simp: opening_ok_def Let_def)
    obtain u where u: "sh_ops b' ! ?o = (sh_ops b ! ?o)\<lparr>op_upstream := u\<rparr>" using ops by blast
    show ?thesis unfolding True using ok ne p l unfolding opening_ok_def Let_def u
      by (simp add: op_shape_def same assms(7))
  next
    case False
    then show ?thesis using that lv pm by (intro opening_frame [OF d(1) [of j]]) (simp_all add: same ops' assms(5,7) len)
  qed
  show "registered_ok b' key" for key
  proof -
    have "sh_openings b key = Some i \<Longrightarrow> i \<noteq> ?o" for i
      using d(2) [of key] dn by (auto simp: registered_ok_def)
    then show ?thesis using d(2) [of key] assms(9,15) ops' len
      by (auto simp: registered_ok_def assms(3,4,5))
  qed
  have subs: "op_subs (sh_ops b' ! j) = op_subs (sh_ops b ! j)" for j by (subst ops) simp
  have o: "owned b n \<Longrightarrow> owned b' n" for n by (erule owned_ops) (simp_all add: assms(13) len subs)
  show "scope_ok b' j" if "j < length (sh_heap b')" for j
  proof (cases "j = m")
    case True
    then show ?thesis using assms(14) by simp
  next
    case False
    have "op_cancelled (sh_ops b' ! i) = op_cancelled (sh_ops b ! i)" "op_done (sh_ops b' ! i) = op_done (sh_ops b ! i)" for i
      by (subst ops, simp)+
    then show ?thesis using d(3) [of j] that False o assms(8) by (auto simp: scope_ok_def Let_def len assms(3,4,7))
  qed
  show "caller_ok b' k" if "k \<in> set (sh_callers b')" for k
    using d(4) [of k] that by (auto simp: assms(3,7,13) len intro: caller_ok_grow [of b])
  show "sb_scope (sh_sub b' ! n) < length (sh_heap b')" if "n < length (sh_sub b')" for n
    using d(5) [of n] that by (simp add: assms(3,7,8))
  show "sh_crash b' \<noteq> Some IndexOutOfRange" using assms(1) by (simp add: registry_def assms(6))
qed

lemma registry_die_end:
  assumes "registry b" and "m < length (sh_heap b)" and "ss_pump (sh_heap b ! m) = Ending cause" and "die_step m b = Some b'"
  shows "registry b'"
proof -
  have dm: "scope_ok b m" using registryD(3) [OF assms(1,2)] .
  define b1 where "b1 = upd_scope m (\<lambda>ss. ss\<lparr>ss_dead := True\<rparr>) b"
  define b2 where "b2 = end_all m cause b1"
  have "distinct (ss_subs (sh_heap b1 ! m))" using dm by (simp add: b1_def scope_ok_def Let_def)
  from bury_sub [OF this, of cause]
  have b2: "sub_only b1 b2" "length (sh_sub b2) = length (sh_sub b)"
    "\<And>j. j < length (sh_sub b) \<Longrightarrow> sb_scope (sh_sub b2 ! j) = sb_scope (sh_sub b ! j)"
    by (simp_all add: b2_def [symmetric], simp_all add: b1_def)
  have hb: "sh_heap b2 = sh_heap b1" using b2(1) by (simp add: sub_only_def)
  have so: "ss_op (sh_heap b2 ! m) = ss_op (sh_heap b ! m)" "length (sh_heap b2) = length (sh_heap b)" by (simp_all add: hb b1_def)
  have b': "b' = upd_op (ss_op (sh_heap b ! m)) (\<lambda>op. op\<lparr>op_upstream := UpStopped\<rparr>)
      (upd_scope m (\<lambda>ss. ss\<lparr>ss_subs := [], ss_pump := PumpReturned\<rparr>) b2)"
    using assms(2-4) by (simp add: die_step_def Let_def b1_def [symmetric] b2_def [symmetric] so)
  have heap: "sh_heap b2 = (sh_heap b)[m := (sh_heap b ! m)\<lparr>ss_dead := True\<rparr>]" using b2(1) by (simp add: sub_only_def b1_def)
  have eqs: "sh_ops b2 = sh_ops b" "sh_openings b2 = sh_openings b" "sh_scopes b2 = sh_scopes b" "sh_callers b2 = sh_callers b"
    "sh_crash b2 = sh_crash b" using b2(1) by (simp_all add: sub_only_def b1_def)
  show ?thesis unfolding b'
    by (rule registry_close [OF assms(1,2), where ss = "(sh_heap b ! m)\<lparr>ss_dead := True, ss_subs := [], ss_pump := PumpReturned\<rparr>"])
       (use dm assms(2,3) b2(2,3) in \<open>simp_all add: heap eqs, simp_all add: scope_ok_def Let_def heap eqs\<close>)
qed

lemma registry_die:
  assumes "registry b" and "m < length (sh_heap b)" and "die_step m b = Some b'"
  shows "registry b'"
proof (cases "ss_pump (sh_heap b ! m)")
  case (Dying cause)
  show ?thesis
  proof (cases "classify_end (usefulLocked m b) cause")
    case None
    have "registry (b\<lparr>sh_crash := Some NilDereference\<rparr>)"
      by (rule registry_skel [OF assms(1)]) (simp add: same_skel_def)
    then show ?thesis using Dying None assms(3) by (simp add: die_step_def)
  next
    case (Some r)
    obtain fin e where "r = (fin, e)" by (cases r)
    then have "b' = set_pump m (Forgetting fin e) b" using Dying Some assms(3) by (simp add: die_step_def)
    then show ?thesis using Dying registry_pump [OF assms(1,2), of "Forgetting fin e"] by simp
  qed
next
  case (Forgetting fin cause)
  then show ?thesis using registry_die_forget [OF assms(1,2) _ assms(3)] by blast
next
  case (Ending cause)
  then show ?thesis using registry_die_end [OF assms(1,2) _ assms(3)] by blast
qed (use assms(3) in \<open>simp_all add: die_step_def\<close>)

lemma pump_step_shape:
  assumes "registry b" and "m < length (sh_heap b)"
  shows "same_skel b (pump_step m r b) \<or> (\<exists>e. pump_step m r b = set_pump m (Dying e) b)"
proof -
  have dist: "distinct (ss_subs (sh_heap b ! m))" using registryD(3) [OF assms(1,2)] by (simp add: scope_ok_def Let_def)
  have fan: "same_skel b (fanOutLocked m ev (upd_scope m f b))"
    if "\<And>ss. skel (f ss) = skel ss" for ev f
  proof -
    have "distinct (ss_subs (sh_heap (upd_scope m f b) ! m))" using dist that by (auto simp: skel_def)
    from fan_sub [OF this, of ev] that show ?thesis by (intro same_skelI [of m f]) auto
  qed
  have wake: "same_skel b (pump_bookmark m ev b)" for ev
  proof (cases "we_InitialEventsEnd ev")
    case True
    let ?f = "\<lambda>ss. ss\<lparr>ss_synced := True, ss_syncedAt := if ss_synced ss then ss_syncedAt ss else sh_now b\<rparr>"
    have "distinct (ss_subs (sh_heap (upd_scope m ?f b) ! m))" using dist by simp
    from wake_sub [OF this] True show ?thesis
      by (intro same_skelI [of m ?f]) (auto simp: pump_bookmark_def skel_def)
  qed (simp add: pump_bookmark_def same_skel_def)
  have id: "upd_scope m (\<lambda>ss. ss) b = b" by (simp add: upd_scope_def)
  have obj: "same_skel b (pump_object m ev b) \<or> (\<exists>e. pump_object m ev b = set_pump m (Dying e) b)" for ev
    using fan [of "\<lambda>ss. ss\<lparr>ss_cache := map_put (UID (we_Object ev)) (we_Object ev) (ss_cache ss)\<rparr>" ev] fan [of "\<lambda>ss. ss" ev]
    by (auto simp: pump_object_def Let_def skel_def id)
  have del: "same_skel b (pump_deleted m ev b) \<or> (\<exists>e. pump_deleted m ev b = set_pump m (Dying e) b)" for ev
    using fan [of "\<lambda>ss. ss\<lparr>ss_cache := map_delete u (ss_cache ss)\<rparr>" ev for u]
    by (auto simp: pump_deleted_def skel_def split: option.split)
  have "same_skel b b" by (simp add: same_skel_def)
  then show ?thesis using obj del wake
    by (auto simp: pump_step_def split: NextResult.split WatchEventType.split)
qed

lemma registry_pump_step:
  assumes "registry b" and "m < length (sh_heap b)" and "ss_pump (sh_heap b ! m) = Pumping"
  shows "registry (pump_step m r b)"
  using pump_step_shape [OF assms(1,2), of r] registry_skel [OF assms(1)] registry_pump [OF assms(1,2)] assms(3) by auto

subsection \<open>Stop\<close>

lemma registry_leave:
  assumes "registry b" and "n < length (sh_sub b)"
  shows "registry (leave n b) \<and> (\<forall>m < length (sh_heap b). n \<notin> set (ss_subs (sh_heap (leave n b) ! m))) \<and>
    length (sh_heap (leave n b)) = length (sh_heap b) \<and> length (sh_sub (leave n b)) = length (sh_sub b) \<and>
    sh_callers (leave n b) = sh_callers b"
proof -
  note d = registryD [OF assms(1)]
  define m where "m = sb_scope (sh_sub b ! n)"
  have m: "m < length (sh_heap b)" using d(5) [OF assms(2)] by (simp add: m_def)
  have dm: "scope_ok b m" using d(3) [OF m] .
  let ?subs = "removeAll n (ss_subs (sh_heap b ! m))"
  define b1 where "b1 = end_sub n None (upd_scope m (\<lambda>ss. ss\<lparr>ss_subs := removeAll n (ss_subs ss)\<rparr>) b)"
  have b1: "sub_only (upd_scope m (\<lambda>ss. ss\<lparr>ss_subs := removeAll n (ss_subs ss)\<rparr>) b) b1" "sh_sub b1 = (sh_sub b)[n := ended None (sh_sub b ! n)]"
    using end_sub_sub [of "upd_scope m (\<lambda>ss. ss\<lparr>ss_subs := removeAll n (ss_subs ss)\<rparr>) b" n None] by (simp_all add: b1_def)
  have eqs: "sh_ops b1 = sh_ops b" "sh_openings b1 = sh_openings b" "sh_scopes b1 = sh_scopes b" "sh_callers b1 = sh_callers b"
    "sh_crash b1 = sh_crash b" "sh_heap b1 = (sh_heap b)[m := (sh_heap b ! m)\<lparr>ss_subs := ?subs\<rparr>]"
    using b1(1) by (simp_all add: sub_only_def)
  let ?dead = "?subs = [] \<and> \<not> ss_dead (sh_heap b ! m)"
  let ?fin = "\<lparr>sn_useful = usefulLocked m b1, sn_early = False, sn_failure = None, sn_cause = None\<rparr>"
  define ss where "ss = (if ?dead then (sh_heap b ! m)\<lparr>ss_subs := ?subs, ss_dead := True, ss_leaving := Some ?fin\<rparr>
      else (sh_heap b ! m)\<lparr>ss_subs := ?subs\<rparr>)"
  have lv: "leave n b = (if ?dead then upd_scope m (\<lambda>ss. ss\<lparr>ss_dead := True, ss_leaving := Some ?fin\<rparr>) b1 else b1)"
    using m by (simp add: leave_def Let_def m_def [symmetric]) (auto simp: b1_def [symmetric] eqs m)
  have l: "sh_heap (leave n b) = (sh_heap b)[m := ss]" "sh_sub (leave n b) = (sh_sub b)[n := ended None (sh_sub b ! n)]"
    "sh_ops (leave n b) = sh_ops b" "sh_openings (leave n b) = sh_openings b" "sh_scopes (leave n b) = sh_scopes b"
    "sh_callers (leave n b) = sh_callers b" "sh_crash (leave n b) = sh_crash b"
    using m by (simp_all add: lv eqs b1(2) ss_def)
  have own: "owned (leave n b) k = owned b k" for k by (simp add: owned_def l)
  have dead: "ss_dead ss \<longleftrightarrow> ?subs = []" using dm by (auto simp: ss_def scope_ok_def Let_def)
  have fields: "ss_subs ss = ?subs" "ss_op ss = ss_op (sh_heap b ! m)" "ss_pump ss = ss_pump (sh_heap b ! m)"
    "ss_key ss = ss_key (sh_heap b ! m)" "ss_leaving ss \<noteq> None \<Longrightarrow> ss_dead ss"
    "ss_pump ss = PumpReturned \<Longrightarrow> ss_dead ss"
    using dm by (simp_all add: ss_def scope_ok_def Let_def split: if_splits)
  have subs: "sb_scope (sh_sub (leave n b) ! k) = sb_scope (sh_sub b ! k)" for k by (simp add: l)
  have dist: "distinct ?subs" "set ?subs \<subseteq> set (ss_subs (sh_heap b ! m))" using dm by (auto simp: scope_ok_def Let_def distinct_removeAll)
  have ok: "scope_ok (leave n b) m"
    using dm m fields(5,6) dist unfolding scope_ok_def Let_def own subs
    by (simp add: l(1,3,5) l(2) fields(1-4) dead)
  have alive: "\<not> ss_dead ss \<or> ss_leaving ss \<noteq> None \<or> (ss_dead (sh_heap b ! m) \<and> ss_leaving (sh_heap b ! m) = None) \<or>
      (op_cancelled (sh_ops b ! ss_op ss) \<and> sh_scopes b (ss_key ss) \<noteq> Some m)"
    by (auto simp: ss_def)
  have "registry (leave n b)"
    by (rule registry_close [OF assms(1) m l(1,5,4,7) _ _ _ _ _ _ l(6) ok alive]) (simp_all add: l(2,3) fields(2-4))
  moreover have "n \<notin> set (ss_subs (sh_heap (leave n b) ! j))" if "j < length (sh_heap b)" for j
    using d(3) [OF that] m that by (auto simp: scope_ok_def Let_def l ss_def m_def split: if_splits)
  ultimately show ?thesis by (simp add: l)
qed

subsection \<open>Every action\<close>

lemma caller_isE:
  assumes "caller_is c b f = Some b'"
  shows "c < length (sh_callers b) \<and> f (sh_callers b ! c) = Some b'"
  using assms by (simp add: caller_is_def split: if_splits)

lemma registry_stop:
  assumes "registry b" and "c < length (sh_callers b)" and "sh_callers b ! c = Holding n e \<or> sh_callers b ! c = Dropping n x"
    and "\<And>i. \<not> waits i k" and "\<And>b. caller_ok b k"
  shows "registry (set_caller c k (leave n b))"
proof -
  have n: "n < length (sh_sub b)" using registryD(6) [OF assms(1,2)] assms(3) by auto
  note l = registry_leave [OF assms(1) n]
  show ?thesis
    by (rule registry_caller) (use l assms in auto)
qed

lemma same_skel_upd_sub: "(\<And>sub. sb_scope (f sub) = sb_scope sub) \<Longrightarrow> same_skel b (upd_sub n f b)"
  by (auto simp: same_skel_def intro!: nth_equalityI)

lemma registry_reader:
  assumes "registry b" and "c < length (sh_callers b)" and "holds n (sh_callers b ! c)" and "holds n k"
    and "\<And>sub. sb_scope (f sub) = sb_scope sub"
  shows "registry (set_caller c k (upd_sub n f b))" "registry (set_caller c k b)"
proof -
  have h: "holds j (sh_callers b ! c) \<Longrightarrow> j = n" for j using assms(3) by (auto simp: holds_def)
  have w: "\<not> waits i k" "\<not> waits i (sh_callers b ! c)" for i using assms(3,4) waits_not_holds by blast+
  have "n < length (sh_sub b)" using registryD(6) [OF assms(1,2)] assms(3) by (auto simp: holds_def)
  then have ok: "caller_ok b k" using assms(4) by (auto simp: holds_def)
  show "registry (set_caller c k b)" using assms(4) h by (intro registry_caller [OF assms(1,2) w ok]) auto
  have r: "registry (upd_sub n f b)" by (rule registry_skel [OF assms(1) same_skel_upd_sub [OF assms(5)]])
  have "caller_ok (upd_sub n f b) k" by (rule caller_ok_grow [OF ok]) simp_all
  then show "registry (set_caller c k (upd_sub n f b))"
    using assms(2,4) h w by (intro registry_caller [OF r]) auto
qed

lemma registry_act:
  assumes "registry b" and "act a b = Some b'"
  shows "registry b'"
proof -
  have crash: "sh_crash b = None" using assms(2) by (simp add: act_def split: if_splits)
  note act = assms(2) [unfolded act_def, simplified crash, simplified]
  show ?thesis
  proof (cases a)
    case (CallWatch scope ctx)
    then show ?thesis using act registry_Watch [OF assms(1)] by auto
  next
    case (CallSubscribe c)
    then show ?thesis using act registry_subscribe [OF assms(1)] by (auto dest!: caller_isE split: caller.splits)
  next
    case (UpstreamReturns i err)
    then show ?thesis using act registry_settle [OF assms(1)] by (auto split: if_splits)
  next
    case (OpeningDone c)
    then obtain i where i: "c < length (sh_callers b)" "sh_callers b ! c = Waiting i" "op_done (sh_ops b ! i)"
      "b' = collect c i (\<lambda>n. Holding n None) id b"
      using act by (auto dest!: caller_isE split: caller.splits if_splits)
    show ?thesis unfolding i(4) by (rule registry_collect [OF assms(1) i(1) _ i(3)]) (simp_all add: i(2))
  next
    case (CallerDone c err)
    then show ?thesis using act registry_abandon [OF assms(1)] by (auto dest!: caller_isE split: caller.splits)
  next
    case (CallCollect c)
    then obtain i err where i: "c < length (sh_callers b)" "sh_callers b ! c = Abandoning i err"
      "b' = collect c i (\<lambda>n. Dropping n err) (\<lambda>_. err) b"
      using act by (auto dest!: caller_isE split: caller.splits)
    have "i < length (sh_ops b)" using registryD(6) [OF assms(1) i(1)] i(2) by simp
    then have "opening_ok b i" by (rule registryD(1) [OF assms(1)])
    moreover have "abandoned b i" unfolding abandoned_def using i(1,2) nth_mem by metis
    ultimately have "op_done (sh_ops b ! i)" by (auto simp: opening_ok_def op_shape_def Let_def)
    then show ?thesis unfolding i(3) by (intro registry_collect [OF assms(1) i(1)]) (simp_all add: i(2))
  next
    case (CallNext c)
    then show ?thesis using act registry_reader(2) [OF assms(1), of c _ _ "\<lambda>s. s"]
      by (auto dest!: caller_isE split: caller.splits)
  next
    case (NextPending c)
    then show ?thesis using act registry_reader [OF assms(1), of c]
      by (auto simp: nextPending_def dest!: caller_isE split: caller.splits list.splits)
  next
    case (NextSelect c ch)
    then show ?thesis using act registry_reader [OF assms(1), of c]
      by (auto simp: next_select_def Let_def dest!: caller_isE split: caller.splits list.splits choice.splits if_splits)
  next
    case (CallStop c)
    then show ?thesis using act registry_stop [OF assms(1)] by (auto dest!: caller_isE split: caller.splits)
  next
    case (PumpNext m r)
    then show ?thesis using act registry_pump_step [OF assms(1)] by (auto split: if_splits)
  next
    case (PumpDie m)
    then show ?thesis using act registry_die [OF assms(1)] by (auto split: if_splits)
  next
    case (LeaveForget m)
    then show ?thesis using act registry_leave_step [OF assms(1)] by (auto split: if_splits)
  next
    case (Advance d)
    then have "same_skel b b'" using act by (auto simp: same_skel_def)
    then show ?thesis using registry_skel [OF assms(1)] by blast
  qed
qed

lemma registry_new: "registry (NewSharedBackend depth now)"
  by (simp add: registry_def NewSharedBackend_def registered_ok_def Let_def)

end
