(* ===== verification/Shared_Views.thy ===== *)
theory Shared_Views
  imports Shared_Safety
begin

text \<open>
  The backoff of the shared backend and what its subscribers see, on top of the registry
  invariant; then the properties of \<open>gateway/shared.go\<close>.
\<close>

section \<open>The backoff\<close>

lemma time_Sub_pos: "time_Sub t u > 0 \<longleftrightarrow> t > u"
  by (auto simp: time_Sub_def)

definition backoff_ok :: "shared \<Rightarrow> bool" where
  "backoff_ok b \<longleftrightarrow> (\<forall>k bo. sh_backoff b k = Some bo \<longrightarrow>
     (bo_delay bo = 0 \<or> sharedRetryMin \<le> bo_delay bo) \<and> bo_delay bo \<le> sharedRetryMax \<and> 0 \<le> bo_early bo \<and>
     bo_until bo \<le> sh_now b + sharedRetryMax \<and>
     (bo_until bo > sh_now b \<longrightarrow> sh_scopes b k = None \<and> sh_openings b k = None))"

lemma backoff_okD:
  assumes "backoff_ok b" and "sh_backoff b k = Some bo"
  shows "bo_delay bo = 0 \<or> sharedRetryMin \<le> bo_delay bo" "bo_delay bo \<le> sharedRetryMax" "0 \<le> bo_early bo" "bo_until bo \<le> sh_now b + sharedRetryMax"
    "bo_until bo > sh_now b \<Longrightarrow> sh_scopes b k = None" "bo_until bo > sh_now b \<Longrightarrow> sh_openings b k = None"
  using assms by (auto simp: backoff_ok_def)

lemma backoff_frame:
  assumes "backoff_ok b" and "sh_backoff b' = sh_backoff b" and "sh_now b \<le> sh_now b'"
    and "\<And>k. sh_scopes b k = None \<Longrightarrow> sh_openings b k = None \<Longrightarrow> sh_scopes b' k = None \<and> sh_openings b' k = None"
  shows "backoff_ok b'"
  unfolding backoff_ok_def
proof (intro allI impI)
  fix k bo
  assume "sh_backoff b' k = Some bo"
  then have "sh_backoff b k = Some bo" by (simp add: assms(2))
  note d = backoff_okD [OF assms(1) this]
  show "(bo_delay bo = 0 \<or> sharedRetryMin \<le> bo_delay bo) \<and> bo_delay bo \<le> sharedRetryMax \<and> 0 \<le> bo_early bo \<and> bo_until bo \<le> sh_now b' + sharedRetryMax \<and>
      (bo_until bo > sh_now b' \<longrightarrow> sh_scopes b' k = None \<and> sh_openings b' k = None)"
    using d assms(3) assms(4) [of k] by auto
qed

text \<open>The wait is at least the delay and never more than the maximum, whatever the hint.\<close>

lemma retry_wait_bounds:
  assumes "0 \<le> d" and "d \<le> sharedRetryMax"
  shows "d \<le> retry_wait d r" "retry_wait d r \<le> sharedRetryMax"
  using assms by (auto simp: retry_wait_def Let_def split: option.split)

lemma sweep_Some: "sweep now m k = Some bo \<Longrightarrow> m k = Some bo"
  by (auto simp: sweep_def split: option.splits if_splits)

lemma next_backoff_bounds:
  assumes "\<And>bo. o' = Some bo \<Longrightarrow> (bo_delay bo = 0 \<or> sharedRetryMin \<le> bo_delay bo) \<and> bo_delay bo \<le> sharedRetryMax \<and> 0 \<le> bo_early bo"
  shows "sharedRetryMin \<le> bo_delay (next_backoff o')" "bo_delay (next_backoff o') \<le> sharedRetryMax" "0 \<le> bo_early (next_backoff o')"
  using assms by (fastforce simp: next_backoff_def sharedRetryMin_def sharedRetryMax_def split: option.split)+

text \<open>The entry that a retryable failure leaves behind.\<close>

lemma recordFailure_entry:
  assumes "backoff_ok b" and "as_se e = Some se" and "\<not> se_Terminal se" and "se_Code se = CodeUpstreamUnavailable"
  shows "\<exists>bo. sh_backoff (recordFailureLocked key e b) = (sweep (sh_now b) (sh_backoff b))(key \<mapsto> bo) \<and>
    bo_delay bo = bo_delay (next_backoff (sweep (sh_now b) (sh_backoff b) key)) \<and>
    sharedRetryMin \<le> bo_delay bo \<and> bo_delay bo \<le> sharedRetryMax \<and> 0 \<le> bo_early bo \<and>
    sh_now b + bo_delay bo \<le> bo_until bo \<and> bo_until bo \<le> sh_now b + sharedRetryMax"
proof -
  let ?s = "sweep (sh_now b) (sh_backoff b)" let ?bo = "next_backoff (?s key)"
  let ?wait = "retry_wait (bo_delay ?bo) (se_RetryAfterMs se)"
  have nb: "sharedRetryMin \<le> bo_delay ?bo" "bo_delay ?bo \<le> sharedRetryMax" "0 \<le> bo_early ?bo"
    by (rule next_backoff_bounds; use backoff_okD(1-3) [OF assms(1)] sweep_Some in blast)+
  have w: "bo_delay ?bo \<le> ?wait" "?wait \<le> sharedRetryMax"
    using retry_wait_bounds [of "bo_delay ?bo" "se_RetryAfterMs se"] nb by (simp_all add: sharedRetryMin_def)
  show ?thesis
    by (intro exI [of _ "?bo\<lparr>bo_until := sh_now b + ?wait\<rparr>"]) (use assms nb w in \<open>simp add: recordFailureLocked_def Let_def\<close>)
qed

lemma recordFailure_ok:
  assumes "backoff_ok b" and "sh_scopes b key = None" and "sh_openings b key = None"
  shows "backoff_ok (recordFailureLocked key e b)"
proof (cases "\<exists>se. as_se e = Some se \<and> \<not> se_Terminal se \<and> se_Code se = CodeUpstreamUnavailable")
  case True
  then obtain se where se: "as_se e = Some se" "\<not> se_Terminal se" "se_Code se = CodeUpstreamUnavailable" by blast
  obtain bo where eq: "sh_backoff (recordFailureLocked key e b) = (sweep (sh_now b) (sh_backoff b))(key \<mapsto> bo)"
    and bo: "sharedRetryMin \<le> bo_delay bo" "bo_delay bo \<le> sharedRetryMax" "0 \<le> bo_early bo" "bo_until bo \<le> sh_now b + sharedRetryMax"
    using recordFailure_entry [OF assms(1) se] by blast
  have "sh_backoff b k = Some bo'" if "sweep (sh_now b) (sh_backoff b) k = Some bo'" for k bo' using sweep_Some that by fast
  then show ?thesis using bo backoff_okD [OF assms(1)] assms(2,3)
    unfolding backoff_ok_def eq recordFailure_simps by (simp split: if_splits) blast
next
  case False
  then have "recordFailureLocked key e b = b" by (auto simp: recordFailureLocked_def split: option.split)
  then show ?thesis using assms(1) by simp
qed

lemma recordEarly_ok:
  assumes "backoff_ok b" and "sh_scopes b key = None" and "sh_openings b key = None"
  shows "backoff_ok (recordEarlyEndLocked key e b)"
proof (cases "sh_backoff b key")
  case None
  then show ?thesis using assms by (auto simp: recordEarlyEndLocked_def backoff_ok_def sharedRetryMax_def)
next
  case (Some bo)
  let ?b = "b\<lparr>sh_backoff := (sh_backoff b)(key \<mapsto> bo\<lparr>bo_early := bo_early bo + 1\<rparr>)\<rparr>"
  have "backoff_ok ?b" using assms(1) backoff_okD [OF assms(1) Some] assms(2,3) by (auto simp: backoff_ok_def)
  then show ?thesis using Some recordFailure_ok [of ?b key] assms(2,3) by (simp add: recordEarlyEndLocked_def Let_def)
qed

lemma registry_excl: "registry b \<Longrightarrow> sh_scopes b k = Some m \<Longrightarrow> sh_openings b k = None"
  using registryD(2) [of b k] by (cases "sh_openings b k") (auto simp: registered_ok_def)

lemma forget_ok:
  assumes "backoff_ok b" and "\<And>k m. sh_scopes b k = Some m \<Longrightarrow> sh_openings b k = None"
  shows "backoff_ok (forget m fin b)"
proof (cases "sh_scopes b (ss_key (sh_heap b ! m)) = Some m")
  case True
  let ?key = "ss_key (sh_heap b ! m)"
  define c where "c = (let b = b\<lparr>sh_scopes := (sh_scopes b)(?key := None)\<rparr>
      in if sn_useful fin then b\<lparr>sh_backoff := (sh_backoff b)(?key := None)\<rparr> else b)"
  have op: "sh_openings b ?key = None" using assms(2) [OF True] .
  have b: "backoff_ok c" "sh_scopes c ?key = None" "sh_openings c ?key = None"
    using assms(1) op by (auto simp: backoff_ok_def c_def Let_def)
  have "forget m fin b = (case sn_failure fin of Some err \<Rightarrow> recordFailureLocked ?key err c
      | None \<Rightarrow> if sn_early fin then recordEarlyEndLocked ?key (sn_cause fin) c else c)"
    using True by (simp add: forget_def Let_def c_def split: option.split)
  then show ?thesis using recordFailure_ok [OF b] recordEarly_ok [OF b] b(1)
    by (cases "sn_failure fin") simp_all
qed (use assms in \<open>simp add: forget_def Let_def\<close>)

definition quiet :: "shared \<Rightarrow> shared \<Rightarrow> bool" where
  "quiet b b' \<longleftrightarrow> sh_backoff b' = sh_backoff b \<and> sh_now b' = sh_now b \<and> sh_scopes b' = sh_scopes b \<and> sh_openings b' = sh_openings b"

lemma quiet_ok: "backoff_ok b \<Longrightarrow> quiet b b' \<Longrightarrow> backoff_ok b'"
  by (simp add: backoff_ok_def quiet_def)

lemma sub_only_quiet: "sub_only b b' \<Longrightarrow> quiet b b'"
  by (simp add: sub_only_def quiet_def)

lemma quiet_refl [simp]: "quiet b b"
  by (simp add: quiet_def)

lemma quiet_upd [simp]:
  "quiet b (set_caller c k b') = quiet b b'" "quiet b (add_caller k b') = quiet b b'" "quiet b (upd_op i f b') = quiet b b'"
  "quiet b (upd_scope m g b') = quiet b b'" "quiet b (upd_sub n h b') = quiet b b'"
  by (simp_all add: quiet_def)

lemma quiet_from [simp]: "quiet (upd_scope m g b) b' = quiet b b'"
  by (simp add: quiet_def)

lemma end_sub_quiet [simp]: "quiet b (end_sub n r b') = quiet b b'"
  by (simp add: end_sub_def quiet_def)

lemma leave_quiet: "quiet b (leave n b)"
  by (simp add: leave_def Let_def)

lemma offer_quiet [simp]: "quiet b (offer ev n b') = quiet b b'"
  using offer_sub [of b' ev n] by (simp add: quiet_def sub_only_def)

lemma deliver_quiet [simp]: "quiet b (deliverSnapshotLocked m n b') = quiet b b'"
  using deliver_sub [of b' m n] by (simp add: quiet_def sub_only_def)

lemma fold_quiet: "(\<And>n b'. quiet b b' \<Longrightarrow> quiet b (g n b')) \<Longrightarrow> quiet b b' \<Longrightarrow> quiet b (fold g ns b')"
  by (induction ns arbitrary: b') auto

lemma fan_quiet [simp]: "quiet b b' \<Longrightarrow> quiet b (fanOutLocked m ev b')"
  unfolding fanOutLocked_def by (rule fold_quiet) auto

lemma deliver_awaiting_quiet [simp]: "quiet b b' \<Longrightarrow> quiet b (deliver_awaiting m b')"
  unfolding deliver_awaiting_def by (rule fold_quiet) auto

lemma end_all_quiet [simp]: "quiet b b' \<Longrightarrow> quiet b (end_all m cause b')"
  unfolding end_all_def by (rule fold_quiet) auto

lemma pump_quiet: "quiet b (pump_step m r b)"
  by (auto simp: pump_step_def pump_bookmark_def pump_object_def pump_deleted_def set_pump_def Let_def
      split: NextResult.split WatchEventType.split option.split)

lemma attach_quiet: "quiet b (attachLocked m b)"
  by (simp add: attachLocked_def Let_def) (simp add: quiet_def)

lemma attach_waiters_quiet: "quiet b b' \<Longrightarrow> quiet b (attach_waiters i m k b')"
proof (induction k arbitrary: b')
  case (Suc k)
  then show ?case using attach_quiet [of b' m] by (simp add: quiet_def)
qed simp

lemma backoff_die:
  assumes "backoff_ok b" and "registry b" and "die_step m b = Some b'"
  shows "backoff_ok b'"
proof -
  have "backoff_ok (set_pump m (Ending cause) (cancel_scope m (forget m fin b)))" for cause fin
    by (rule quiet_ok [OF forget_ok [OF assms(1), of m fin]])
       (use registry_excl [OF assms(2)] in \<open>simp_all add: set_pump_def cancel_scope_def\<close>)
  moreover have "quiet b (b\<lparr>sh_crash := x\<rparr>)" for x by (simp add: quiet_def)
  ultimately show ?thesis using assms(3) quiet_ok [OF assms(1)]
    by (auto simp: die_step_def set_pump_def Let_def split: pump.splits option.splits prod.splits)
qed

lemma backoff_settle:
  assumes "backoff_ok b" and "registry b"
  shows "backoff_ok (settle i err b)"
proof (cases "sh_openings b (op_key (sh_ops b ! i)) = Some i")
  case True
  let ?key = "op_key (sh_ops b ! i)" let ?b = "b\<lparr>sh_openings := (sh_openings b)(?key := None)\<rparr>"
  have sc: "sh_scopes b ?key = None" using registryD(2) [OF assms(2), of ?key] True by (simp add: registered_ok_def)
  have b: "backoff_ok ?b" by (rule backoff_frame [OF assms(1)]) auto
  show ?thesis
  proof (cases err)
    case None
    let ?b2 = "?b\<lparr>sh_heap := sh_heap b @ [newSharedScope ?key (op_scope (sh_ops b ! i)) i], sh_scopes := (sh_scopes b)(?key \<mapsto> length (sh_heap b))\<rparr>"
    have "backoff_ok ?b2" by (rule backoff_frame [OF assms(1)]) (use True in auto)
    then show ?thesis using True None quiet_ok [OF _ attach_waiters_quiet [OF quiet_refl]]
      by (simp add: settle_def Let_def) (rule quiet_ok, assumption, simp add: attach_waiters_quiet)
  next
    case (Some e)
    have "backoff_ok (recordFailureLocked ?key e ?b)" by (rule recordFailure_ok [OF b]) (simp_all add: sc)
    then show ?thesis using True Some by (simp add: settle_def Let_def) (rule quiet_ok, assumption, simp)
  qed
qed (use assms quiet_ok in \<open>auto simp: settle_def Let_def\<close>)

lemma backoff_Watch:
  assumes "backoff_ok b"
  shows "backoff_ok (Watch scope ctx b)"
proof -
  let ?key = "scopeKey scope"
  have opens: "backoff_ok (join_opening (length (sh_ops b)) (beginOpeningLocked ?key scope b))"
    if "\<not> backoffRemainingLocked ?key b > 0"
  proof -
    have "bo_until bo \<le> sh_now b" if "sh_backoff b ?key = Some bo" for bo
      using that \<open>\<not> backoffRemainingLocked ?key b > 0\<close> time_Sub_pos [of "bo_until bo" "sh_now b"]
      by (simp add: backoffRemainingLocked_def)
    then have "backoff_ok (beginOpeningLocked ?key scope b)"
      using assms by (fastforce simp: backoff_ok_def beginOpeningLocked_def)
    then show ?thesis by (rule quiet_ok) (simp add: join_opening_def)
  qed
  have "quiet b (join_opening i b)" for i by (simp add: join_opening_def)
  then show ?thesis using opens quiet_ok [OF assms]
    by (auto simp: Watch_def Let_def split: option.split)
qed

lemma backoff_act:
  assumes "backoff_ok b" and "registry b" and "act a b = Some b'"
  shows "backoff_ok b'"
proof -
  have crash: "sh_crash b = None" using assms(3) by (simp add: act_def split: if_splits)
  note act = assms(3) [unfolded act_def, simplified crash, simplified]
  note q = quiet_ok [OF assms(1)]
  show ?thesis
  proof (cases a)
    case (CallWatch scope ctx)
    then show ?thesis using act backoff_Watch [OF assms(1)] by auto
  next
    case (CallSubscribe c)
    then show ?thesis using act q attach_quiet by (auto simp: subscribe_def dest!: caller_isE split: caller.splits if_splits)
  next
    case (UpstreamReturns i err)
    then show ?thesis using act backoff_settle [OF assms(1,2)] by (auto split: if_splits)
  next
    case (OpeningDone c)
    then show ?thesis using act q
      by (auto simp: collect_def Let_def quiet_def dest!: caller_isE split: caller.splits if_splits option.splits)
  next
    case (CallerDone c err)
    then obtain i where b': "b' = abandon c i err b" using act by (auto dest!: caller_isE split: caller.splits)
    show ?thesis unfolding b'
      by (rule backoff_frame [OF assms(1)]) (auto simp: abandon_def Let_def)
  next
    case (CallCollect c)
    then show ?thesis using act q
      by (auto simp: collect_def Let_def quiet_def dest!: caller_isE split: caller.splits if_splits option.splits)
  next
    case (CallNext c)
    then show ?thesis using act q by (auto dest!: caller_isE split: caller.splits)
  next
    case (NextPending c)
    then show ?thesis using act q by (auto simp: nextPending_def dest!: caller_isE split: caller.splits list.splits)
  next
    case (NextSelect c ch)
    then show ?thesis using act q
      by (auto simp: next_select_def Let_def dest!: caller_isE split: caller.splits list.splits choice.splits if_splits)
  next
    case (CallStop c)
    then show ?thesis using act q leave_quiet by (auto dest!: caller_isE split: caller.splits)
  next
    case (PumpNext m r)
    then show ?thesis using act q [OF pump_quiet] by (auto split: if_splits)
  next
    case (PumpDie m)
    then show ?thesis using act backoff_die [OF assms(1,2)] by (auto split: if_splits)
  next
    case (LeaveForget m)
    then obtain fin where b': "b' = cancel_scope m (forget m fin (upd_scope m (\<lambda>ss. ss\<lparr>ss_leaving := None\<rparr>) b))"
      using act by (auto simp: leave_step_def split: if_splits option.splits)
    let ?b = "upd_scope m (\<lambda>ss. ss\<lparr>ss_leaving := None\<rparr>) b"
    have "backoff_ok ?b" using q by simp
    then have "backoff_ok (forget m fin ?b)" by (rule forget_ok) (use registry_excl [OF assms(2)] in simp)
    then show ?thesis unfolding b' cancel_scope_def by (rule quiet_ok) simp
  next
    case (Advance d)
    then show ?thesis using act by (intro backoff_frame [OF assms(1)]) auto
  qed
qed

section \<open>One upstream per scope\<close>

text \<open>An upstream context that was not cancelled is the registered opening or scope of its key.\<close>

definition single :: "shared \<Rightarrow> bool" where
  "single b \<longleftrightarrow> (\<forall>i < length (sh_ops b). \<not> op_cancelled (sh_ops b ! i) \<longrightarrow>
     sh_openings b (op_key (sh_ops b ! i)) = Some i \<or>
     (\<exists>m. sh_scopes b (op_key (sh_ops b ! i)) = Some m \<and> ss_op (sh_heap b ! m) = i))"

lemma single_frame:
  assumes "single b" and "length (sh_ops b') = length (sh_ops b)"
    and "\<And>i. i < length (sh_ops b) \<Longrightarrow> op_key (sh_ops b' ! i) = op_key (sh_ops b ! i) \<and> (op_cancelled (sh_ops b ! i) \<longrightarrow> op_cancelled (sh_ops b' ! i))"
    and "\<And>i. i < length (sh_ops b) \<Longrightarrow> \<not> op_cancelled (sh_ops b' ! i) \<Longrightarrow> sh_openings b (op_key (sh_ops b ! i)) = Some i \<Longrightarrow>
      sh_openings b' (op_key (sh_ops b ! i)) = Some i"
    and "\<And>i m. i < length (sh_ops b) \<Longrightarrow> \<not> op_cancelled (sh_ops b' ! i) \<Longrightarrow> sh_scopes b (op_key (sh_ops b ! i)) = Some m \<Longrightarrow>
      ss_op (sh_heap b ! m) = i \<Longrightarrow> sh_scopes b' (op_key (sh_ops b ! i)) = Some m \<and> ss_op (sh_heap b' ! m) = i"
  shows "single b'"
  unfolding single_def
proof (intro allI impI)
  fix i
  assume i: "i < length (sh_ops b')" "\<not> op_cancelled (sh_ops b' ! i)"
  then have j: "i < length (sh_ops b)" "op_key (sh_ops b' ! i) = op_key (sh_ops b ! i)" "\<not> op_cancelled (sh_ops b ! i)"
    using assms(2,3) by auto
  then show "sh_openings b' (op_key (sh_ops b' ! i)) = Some i \<or> (\<exists>m. sh_scopes b' (op_key (sh_ops b' ! i)) = Some m \<and> ss_op (sh_heap b' ! m) = i)"
    using assms(1,4,5) i(2) unfolding single_def by metis
qed

lemma single_quiet:
  assumes "single b" and "sh_openings b' = sh_openings b" and "sh_scopes b' = sh_scopes b" and "map ss_op (sh_heap b') = map ss_op (sh_heap b)"
    and "length (sh_ops b') = length (sh_ops b)"
    and "\<And>i. op_key (sh_ops b' ! i) = op_key (sh_ops b ! i)" and "\<And>i. op_cancelled (sh_ops b ! i) \<Longrightarrow> op_cancelled (sh_ops b' ! i)"
    and "registry b"
  shows "single b'"
proof (rule single_frame [OF assms(1)])
  fix i m
  assume m: "sh_scopes b (op_key (sh_ops b ! i)) = Some m" "ss_op (sh_heap b ! m) = i"
  then have "m < length (sh_heap b)" using registryD(2) [OF assms(8), of "op_key (sh_ops b ! i)"] by (simp add: registered_ok_def)
  then have "ss_op (sh_heap b' ! m) = ss_op (sh_heap b ! m)"
    using arg_cong [OF assms(4), of "\<lambda>xs. xs ! m"] map_eq_imp_length_eq [OF assms(4)] by simp
  then show "sh_scopes b' (op_key (sh_ops b ! i)) = Some m \<and> ss_op (sh_heap b' ! m) = i" using m by (simp add: assms(3))
qed (use assms in simp_all)

lemma single_begin:
  assumes "single b" and "sh_openings b key = None" and "registry b"
  shows "single (join_opening (length (sh_ops b)) (beginOpeningLocked key scope b))"
  unfolding single_def
proof (intro allI impI)
  let ?b = "join_opening (length (sh_ops b)) (beginOpeningLocked key scope b)"
  fix i
  assume i: "i < length (sh_ops ?b)" "\<not> op_cancelled (sh_ops ?b ! i)"
  show "sh_openings ?b (op_key (sh_ops ?b ! i)) = Some i \<or> (\<exists>m. sh_scopes ?b (op_key (sh_ops ?b ! i)) = Some m \<and> ss_op (sh_heap ?b ! m) = i)"
  proof (cases "i = length (sh_ops b)")
    case True
    then show ?thesis by (simp add: join_opening_def beginOpeningLocked_def nth_append)
  next
    case False
    then have j: "i < length (sh_ops b)" "sh_ops ?b ! i = sh_ops b ! i"
      using i by (simp_all add: join_opening_def beginOpeningLocked_def nth_append)
    then show ?thesis using assms(1,2) i(2) by (auto simp: single_def join_opening_def beginOpeningLocked_def)
  qed
qed

lemma single_Watch:
  assumes "single b" and "registry b"
  shows "single (Watch scope ctx b)"
proof -
  have q: "single (add_caller k b)" "single (join_opening i b)" for k i
    by (rule single_quiet [OF assms(1) _ _ _ _ _ _ assms(2)]; auto simp: join_opening_def)+
  then show ?thesis using single_begin [OF assms(1) _ assms(2)]
    by (auto simp: Watch_def Let_def split: option.split)
qed

lemma single_settle:
  assumes "single b" and "registry b" and "i < length (sh_ops b)"
  shows "single (settle i err b)"
proof (cases "sh_openings b (op_key (sh_ops b ! i)) = Some i \<and> err = None")
  case True
  let ?key = "op_key (sh_ops b ! i)" let ?m = "length (sh_heap b)" let ?k = "nat (op_waiters (sh_ops b ! i))"
  let ?ss = "newSharedScope ?key (op_scope (sh_ops b ! i)) i" let ?b = "settle i err b"
  define b1 where "b1 = b\<lparr>sh_openings := (sh_openings b)(?key := None), sh_heap := sh_heap b @ [?ss], sh_scopes := (sh_scopes b)(?key \<mapsto> ?m)\<rparr>"
  have "?m < length (sh_heap b1)" "i < length (sh_ops b1)" using assms(3) by (simp_all add: b1_def)
  note at = attach_many [OF this, of ?k]
  have bdef: "?b = upd_op i (\<lambda>op. op\<lparr>op_done := True, op_upstream := UpOpen\<rparr>) (attach_waiters i ?m ?k b1)"
    using True by (simp add: settle_def Let_def b1_def)
  have b: "sh_scopes ?b = (sh_scopes b)(?key \<mapsto> ?m)" "sh_openings ?b = (sh_openings b)(?key := None)"
    "length (sh_ops ?b) = length (sh_ops b)" "\<And>j. op_key (sh_ops ?b ! j) = op_key (sh_ops b ! j)"
    "\<And>j. op_cancelled (sh_ops ?b ! j) = op_cancelled (sh_ops b ! j)"
    "\<And>j. j < ?m \<Longrightarrow> ss_op (sh_heap ?b ! j) = ss_op (sh_heap b ! j)" "ss_op (sh_heap ?b ! ?m) = i"
    using at assms(3) unfolding bdef attached_def by (auto simp: b1_def newSharedScope_def nth_append)
  show ?thesis unfolding single_def
  proof (intro allI impI)
    fix j
    assume j: "j < length (sh_ops ?b)" "\<not> op_cancelled (sh_ops ?b ! j)"
    show "sh_openings ?b (op_key (sh_ops ?b ! j)) = Some j \<or> (\<exists>m. sh_scopes ?b (op_key (sh_ops ?b ! j)) = Some m \<and> ss_op (sh_heap ?b ! m) = j)"
    proof (cases "op_key (sh_ops b ! j) = ?key")
      case k: True
      have "sh_scopes b ?key = None" using registryD(2) [OF assms(2), of ?key] True by (simp add: registered_ok_def)
      moreover have "j < length (sh_ops b)" "\<not> op_cancelled (sh_ops b ! j)" using j by (simp_all add: b(3,5))
      then have "sh_openings b ?key = Some j \<or> (\<exists>m. sh_scopes b ?key = Some m \<and> ss_op (sh_heap b ! m) = j)"
        using assms(1) k unfolding single_def by metis
      ultimately have "j = i" using True by simp
      then show ?thesis by (simp add: b)
    next
      case False
      then have "sh_openings b (op_key (sh_ops b ! j)) = Some j \<or> (\<exists>m. sh_scopes b (op_key (sh_ops b ! j)) = Some m \<and> ss_op (sh_heap b ! m) = j)"
        using assms(1) j by (auto simp: single_def b(3,5))
      moreover have "m < ?m" if "sh_scopes b (op_key (sh_ops b ! j)) = Some m" for m
        using registryD(2) [OF assms(2), of "op_key (sh_ops b ! j)"] that by (simp add: registered_ok_def)
      ultimately show ?thesis using False by (auto simp: b)
    qed
  qed
next
  case False
  show ?thesis
  proof (rule single_frame [OF assms(1)])
    fix j
    assume "\<not> op_cancelled (sh_ops (settle i err b) ! j)" "sh_openings b (op_key (sh_ops b ! j)) = Some j"
    then show "sh_openings (settle i err b) (op_key (sh_ops b ! j)) = Some j"
      using False assms(3) by (cases "j = i") (auto simp: settle_def Let_def split: option.splits if_splits)
  qed (use False assms(3) in \<open>auto simp: settle_def Let_def split: option.split if_splits\<close>)
qed

text \<open>Unregistering a scope and cancelling its context.\<close>

lemma single_forget:
  assumes "single b" and "registry b" and "m < length (sh_heap b)" and "sh_openings b' = sh_openings b" and "sh_scopes b' = unregister m b"
    and "sh_ops b' = (sh_ops b)[ss_op (sh_heap b ! m) := (sh_ops b ! ss_op (sh_heap b ! m))\<lparr>op_cancelled := True\<rparr>]"
    and "\<And>j. ss_op (sh_heap b' ! j) = ss_op (sh_heap b ! j)"
  shows "single b'"
proof (rule single_frame [OF assms(1)])
  fix i j
  assume i: "i < length (sh_ops b)" "\<not> op_cancelled (sh_ops b' ! i)" "sh_scopes b (op_key (sh_ops b ! i)) = Some j" "ss_op (sh_heap b ! j) = i"
  then have "j \<noteq> m" by (auto simp: assms(6))
  then show "sh_scopes b' (op_key (sh_ops b ! i)) = Some j \<and> ss_op (sh_heap b' ! j) = i"
    using i by (simp add: assms(5,7) unregister_Some)
qed (use assms(4,6) in auto)

lemma same_skel_op: "same_skel b b' \<Longrightarrow> map ss_op (sh_heap b') = map ss_op (sh_heap b)"
  using same_skelD [of b b'] by (auto simp: skel_def intro!: nth_equalityI)

lemma single_die:
  assumes "single b" and "registry b" and "m < length (sh_heap b)" and "die_step m b = Some b'"
  shows "single b'"
proof (cases "ss_pump (sh_heap b ! m)")
  case (Dying cause)
  have "single (set_pump m p b)" "single (b\<lparr>sh_crash := x\<rparr>)" for p x
    by (rule single_quiet [OF assms(1) _ _ _ _ _ _ assms(2)]; auto simp: set_pump_def intro!: nth_equalityI)+
  then show ?thesis using Dying assms(4) by (auto simp: die_step_def split: option.splits prod.splits)
next
  case (Forgetting fin cause)
  then have b': "b' = set_pump m (Ending cause) (cancel_scope m (forget m fin b))" using assms(4) by (simp add: die_step_def)
  show ?thesis unfolding b'
    by (rule single_forget [OF assms(1-3)]) (auto simp: cancel_scope_def set_pump_def)
next
  case (Ending cause)
  let ?b1 = "upd_scope m (\<lambda>ss. ss\<lparr>ss_dead := True\<rparr>) b"
  have "distinct (ss_subs (sh_heap ?b1 ! m))" using registryD(3) [OF assms(2,3)] by (simp add: scope_ok_def Let_def)
  from bury_sub [OF this, of cause] show ?thesis using Ending assms(3,4)
    by (intro single_quiet [OF assms(1) _ _ _ _ _ _ assms(2)])
       (auto simp: die_step_def Let_def sub_only_def intro!: nth_equalityI)
qed (use assms(4) in \<open>simp_all add: die_step_def\<close>)

lemma end_sub_keeps:
  "sh_ops (end_sub n r b) = sh_ops b" "sh_scopes (end_sub n r b) = sh_scopes b" "sh_openings (end_sub n r b) = sh_openings b"
  "sh_heap (end_sub n r b) = sh_heap b"
  using end_sub_sub [of b n r] by (simp_all add: sub_only_def)

lemma leave_keeps:
  "sh_ops (leave n b) = sh_ops b" "sh_scopes (leave n b) = sh_scopes b" "sh_openings (leave n b) = sh_openings b"
  "length (sh_heap (leave n b)) = length (sh_heap b)" "ss_op (sh_heap (leave n b) ! j) = ss_op (sh_heap b ! j)"
  by (simp_all add: leave_def Let_def end_sub_keeps)

lemma single_act:
  assumes "single b" and "registry b" and "act a b = Some b'"
  shows "single b'"
proof -
  have crash: "sh_crash b = None" using assms(3) by (simp add: act_def split: if_splits)
  note act = assms(3) [unfolded act_def, simplified crash, simplified]
  note q = single_quiet [OF assms(1) _ _ _ _ _ _ assms(2)]
  have skel: "single c" if "same_skel b c" for c
    using that same_skel_op [OF that] by (intro q) (simp_all add: same_skel_def)
  have pump: "single (set_pump m p b)" for m p
    by (rule q) (auto simp: set_pump_def intro!: nth_equalityI)
  have collect: "single (collect c i held other b)" for c i held other
    by (rule q) (auto simp: collect_def Let_def split: option.split)
  show ?thesis
  proof (cases a)
    case (CallWatch scope ctx)
    then show ?thesis using act single_Watch [OF assms(1,2)] by auto
  next
    case (CallSubscribe c)
    then obtain m where m: "c < length (sh_callers b)" "sh_callers b ! c = Joining m" "b' = subscribe c m b"
      using act by (auto dest!: caller_isE split: caller.splits)
    have "m < length (sh_heap b)" using registryD(6) [OF assms(2) m(1)] m(2) by simp
    from attach_one [OF this] show ?thesis unfolding m(3)
      by (intro q) (auto simp: subscribe_def attached_def intro!: nth_equalityI)
  next
    case (UpstreamReturns i err)
    then show ?thesis using act single_settle [OF assms(1,2)] by (auto split: if_splits)
  next
    case (OpeningDone c)
    then show ?thesis using act collect by (auto dest!: caller_isE split: caller.splits if_splits)
  next
    case (CallerDone c err)
    then obtain i where b': "b' = abandon c i err b" using act by (auto dest!: caller_isE split: caller.splits)
    show ?thesis unfolding b'
      by (rule single_frame [OF assms(1)]) (auto simp: abandon_def Let_def split: if_splits)
  next
    case (CallCollect c)
    then show ?thesis using act collect by (auto dest!: caller_isE split: caller.splits)
  next
    case (CallNext c)
    then show ?thesis using act by (auto intro!: q dest!: caller_isE split: caller.splits)
  next
    case (NextPending c)
    then show ?thesis using act
      by (auto simp: nextPending_def intro!: q dest!: caller_isE split: caller.splits list.splits)
  next
    case (NextSelect c ch)
    then show ?thesis using act
      by (auto simp: next_select_def Let_def intro!: q dest!: caller_isE split: caller.splits list.splits choice.splits if_splits)
  next
    case (CallStop c)
    have "single (set_caller c k (leave n b))" for n k
      by (rule q) (simp_all add: leave_keeps, simp add: leave_keeps list_eq_iff_nth_eq)
    then show ?thesis using CallStop act by (auto dest!: caller_isE split: caller.splits)
  next
    case (PumpNext m r)
    then have "m < length (sh_heap b)" "b' = pump_step m r b" using act by (auto split: if_splits)
    then show ?thesis using pump_step_shape [OF assms(2), of m r] skel pump by auto
  next
    case (PumpDie m)
    then have m: "m < length (sh_heap b)" "die_step m b = Some b'" using act by (auto split: if_splits)
    show ?thesis using single_die [OF assms(1,2) m] .
  next
    case (LeaveForget m)
    then obtain fin where b': "m < length (sh_heap b)" "b' = cancel_scope m (forget m fin (upd_scope m (\<lambda>ss. ss\<lparr>ss_leaving := None\<rparr>) b))"
      using act by (auto simp: leave_step_def split: if_splits option.splits)
    show ?thesis unfolding b'(2)
      by (rule single_forget [OF assms(1,2) b'(1)]) (auto simp: cancel_scope_def unregister_def b'(1))
  next
    case (Advance d)
    then show ?thesis using act by (auto intro!: q)
  qed
qed

section \<open>What a subscriber sees\<close>

text \<open>The view a consumer builds from the events it received.\<close>

definition apply_event :: "WatchEvent \<Rightarrow> (string \<rightharpoonup> KRMObject) \<Rightarrow> (string \<rightharpoonup> KRMObject)" where
  "apply_event ev v =
     (case we_Type ev of
        WatchAdded \<Rightarrow> v(UID (we_Object ev) \<mapsto> we_Object ev)
      | WatchModified \<Rightarrow> v(UID (we_Object ev) \<mapsto> we_Object ev)
      | WatchDeleted \<Rightarrow> v(UID (we_Object ev) := None)
      | _ \<Rightarrow> v)"

definition view :: "WatchEvent list \<Rightarrow> (string \<rightharpoonup> KRMObject)" where
  "view evs = fold apply_event evs Map.empty"

lemma view_snoc [simp]: "view (evs @ [ev]) = apply_event ev (view evs)"
  by (simp add: view_def)

text \<open>Only the events about an object change what is seen of it.\<close>

abbreviation about :: "string \<Rightarrow> WatchEvent list \<Rightarrow> WatchEvent list" where
  "about u \<equiv> filter (\<lambda>ev. UID (we_Object ev) = u)"

lemma fold_apply_about: "v u = v' u \<Longrightarrow> fold apply_event evs v u = fold apply_event (about u evs) v' u"
proof (induction evs arbitrary: v v')
  case (Cons ev evs)
  have "apply_event ev v u = (if UID (we_Object ev) = u then apply_event ev v' u else v' u)"
    using Cons.prems by (auto simp: apply_event_def split: WatchEventType.split)
  then show ?case using Cons.IH [of "apply_event ev v" "apply_event ev v'"] Cons.IH [of "apply_event ev v" v']
    by (cases "UID (we_Object ev) = u") simp_all
qed simp

lemma view_about: "about u evs = about u evs' \<Longrightarrow> view evs u = view evs' u"
  unfolding view_def using fold_apply_about [of Map.empty u Map.empty] by metis

text \<open>Reading one more event of either source.\<close>

lemma shuffles_snoc_Nil: "ys @ [z] \<in> shuffles [z] ys"
  by (induction ys) (auto intro: Cons_in_shuffles_rightI)

lemma shuffles_snoc_left: "zs \<in> shuffles xs ys \<Longrightarrow> zs @ [z] \<in> shuffles (xs @ [z]) ys"
proof (induction xs ys arbitrary: zs rule: shuffles.induct)
  case (1 ys)
  then show ?case by (simp add: shuffles_snoc_Nil)
next
  case (3 x xs y ys)
  from "3.prems" consider ws where "zs = x # ws" "ws \<in> shuffles xs (y # ys)" | ws where "zs = y # ws" "ws \<in> shuffles (x # xs) ys"
    by auto
  then show ?case
  proof cases
    case 1
    with "3.IH"(1) [of ws] show ?thesis by (simp add: Cons_in_shuffles_leftI)
  next
    case 2
    with "3.IH"(2) [of ws] show ?thesis by (simp add: Cons_in_shuffles_rightI)
  qed
qed simp

lemma shuffles_snoc_right: "zs \<in> shuffles xs ys \<Longrightarrow> zs @ [z] \<in> shuffles xs (ys @ [z])"
  using shuffles_snoc_left [of zs ys xs z] by (simp add: shuffles_commutes)

definition cache_ok :: "KRMObject gmap \<Rightarrow> bool" where
  "cache_ok cache \<longleftrightarrow> map_wf cache \<and> (\<forall>(u, o') \<in> set cache. UID o' = u)"

lemma cache_ok_Nil [simp]: "cache_ok []"
  by (simp add: cache_ok_def)

lemma cache_put: "cache_ok c \<Longrightarrow> cache_ok (map_put (UID o') o' c)"
  using set_map_put_subset [of "UID o'" o' c] by (auto simp: cache_ok_def)

lemma cache_delete: "cache_ok c \<Longrightarrow> cache_ok (map_delete u c)"
  using set_map_delete_subset [of u c] by (auto simp: cache_ok_def)

lemma apply_added [simp]: "apply_event (added_event o') v = v(UID o' \<mapsto> o')"
  by (simp add: apply_event_def added_event_def)

lemma view_added: "cache_ok c \<Longrightarrow> fold apply_event (map (\<lambda>uo. added_event (snd uo)) c) v = v ++ map_of c"
proof (induction c arbitrary: v)
  case (Cons uo c)
  then have c: "cache_ok c" "UID (snd uo) = fst uo" "map_of c (fst uo) = None"
    by (auto simp: cache_ok_def map_wf_def map_of_eq_None_iff)
  have "(v(fst uo \<mapsto> snd uo)) ++ map_of c = v ++ (map_of c)(fst uo \<mapsto> snd uo)"
    using c(3) by (auto simp: map_add_def fun_eq_iff split: option.split)
  then show ?case using Cons.IH [OF c(1), of "v(fst uo \<mapsto> snd uo)"] c(2)
    by (simp only: list.map fold_Cons o_apply apply_added map_of.simps(2))
qed simp

text \<open>A snapshot shows exactly the cache.\<close>

lemma view_snapshot: "cache_ok c \<Longrightarrow> view (snapshot c) = map_of c"
  using view_added [of c Map.empty] by (simp add: snapshot_def view_def apply_event_def boundary_event_def)

text \<open>
  What an open subscriber has: the snapshot, taken and still pending, and then the live events,
  taken and still queued, build the cache; what \<open>Next\<close> returned is an interleaving of the two,
  and for every object no overtaking event was about, it is in that order.
\<close>

definition sees :: "subscriber \<Rightarrow> (string \<rightharpoonup> KRMObject) \<Rightarrow> bool" where
  "sees sub cache \<longleftrightarrow>
     view (sb_taken sub @ sb_pending sub @ sb_live sub @ sb_ch sub) = cache \<and>
     sb_got sub \<in> shuffles (sb_taken sub) (sb_live sub) \<and>
     (\<forall>u. about u (sb_overtook sub) = [] \<longrightarrow>
        about u (sb_got sub @ sb_pending sub @ sb_ch sub) =
        about u (sb_taken sub @ sb_pending sub @ sb_live sub @ sb_ch sub))"

definition sub_ok :: "int \<Rightarrow> sharedScope \<Rightarrow> subscriber \<Rightarrow> bool" where
  "sub_ok depth ss sub \<longleftrightarrow>
     (\<not> sb_closed sub \<longrightarrow>
        (sb_awaiting sub \<longleftrightarrow> \<not> ss_synced ss) \<and>
        (sb_awaiting sub \<longrightarrow> sb_pending sub = [] \<and> sb_ch sub = [] \<and> sb_got sub = [] \<and> sb_taken sub = [] \<and> sb_live sub = []) \<and>
        (\<not> sb_awaiting sub \<longrightarrow> sees sub (map_of (ss_cache ss))))"

lemma sees_ready [simp]: "sees (sub\<lparr>sb_ready := r\<rparr>) cache = sees sub cache"
  by (simp add: sees_def)

lemma sees_order:
  assumes "sees sub cache" and "about u (sb_overtook sub) = []"
  shows "view (sb_got sub @ sb_pending sub @ sb_ch sub) u = cache u"
  using assms view_about unfolding sees_def by metis

text \<open>One more event offered, one taken from the snapshot, one taken from the queue.\<close>

lemma sees_offered:
  "sees sub cache \<Longrightarrow> sees (sub\<lparr>sb_ch := sb_ch sub @ [ev]\<rparr>) (apply_event ev cache)"
  using view_snoc [of "sb_taken sub @ sb_pending sub @ sb_live sub @ sb_ch sub" ev] by (auto simp: sees_def)

lemma sees_pending:
  assumes "sees sub cache" and "sb_pending sub = ev # rest"
  shows "sees (sub\<lparr>sb_pending := rest, sb_got := sb_got sub @ [ev], sb_taken := sb_taken sub @ [ev]\<rparr>) cache"
  using assms by (simp add: sees_def shuffles_snoc_left)

lemma sees_live:
  assumes "sees sub cache" and "sb_ch sub = ev # rest"
  shows "sees (sub\<lparr>sb_ch := rest, sb_got := sb_got sub @ [ev], sb_live := sb_live sub @ [ev],
    sb_overtook := sb_overtook sub @ (if sb_pending sub = [] then [] else [ev])\<rparr>) cache"
  using assms by (auto simp: sees_def shuffles_snoc_right)

lemma sees_snapshot:
  assumes "cache_ok cache" and "sb_ch sub = []" and "sb_got sub = []" and "sb_taken sub = []" and "sb_live sub = []"
  shows "sees (sub\<lparr>sb_pending := snapshot cache, sb_awaiting := False\<rparr>) (map_of cache)"
  using assms view_snapshot [OF assms(1)] by (simp add: sees_def)

definition views :: "shared \<Rightarrow> bool" where
  "views b \<longleftrightarrow>
     (\<forall>m < length (sh_heap b). cache_ok (ss_cache (sh_heap b ! m)) \<and>
        (\<forall>n \<in> set (ss_subs (sh_heap b ! m)). sub_ok (sh_depth b) (sh_heap b ! m) (sh_sub b ! n))) \<and>
     (\<forall>n < length (sh_sub b). int (length (sb_ch (sh_sub b ! n))) \<le> sh_depth b) \<and> sh_depth b > 0"

lemma viewsD:
  assumes "views b"
  shows "m < length (sh_heap b) \<Longrightarrow> cache_ok (ss_cache (sh_heap b ! m))"
    "m < length (sh_heap b) \<Longrightarrow> n \<in> set (ss_subs (sh_heap b ! m)) \<Longrightarrow> sub_ok (sh_depth b) (sh_heap b ! m) (sh_sub b ! n)"
    "n < length (sh_sub b) \<Longrightarrow> int (length (sb_ch (sh_sub b ! n))) \<le> sh_depth b" "sh_depth b > 0"
  using assms by (auto simp: views_def)

lemma viewsI:
  assumes "\<And>m. m < length (sh_heap b) \<Longrightarrow> cache_ok (ss_cache (sh_heap b ! m))"
    and "\<And>m n. m < length (sh_heap b) \<Longrightarrow> n \<in> set (ss_subs (sh_heap b ! m)) \<Longrightarrow> sub_ok (sh_depth b) (sh_heap b ! m) (sh_sub b ! n)"
    and "\<And>n. n < length (sh_sub b) \<Longrightarrow> int (length (sb_ch (sh_sub b ! n))) \<le> sh_depth b" and "sh_depth b > 0"
  shows "views b"
  using assms by (simp add: views_def)

text \<open>Steps that touch neither the scopes' contents nor the subscribers.\<close>

definition contents :: "sharedScope \<Rightarrow> KRMObject gmap \<times> bool \<times> nat list" where
  "contents ss = (ss_cache ss, ss_synced ss, ss_subs ss)"

lemma sub_ok_contents: "ss_cache ss' = ss_cache ss \<Longrightarrow> ss_synced ss' = ss_synced ss \<Longrightarrow> sub_ok d ss' sub = sub_ok d ss sub"
  by (simp add: sub_ok_def)

lemma views_frame:
  assumes "views b" and "map contents (sh_heap b') = map contents (sh_heap b)" and "sh_sub b' = sh_sub b" and "sh_depth b' = sh_depth b"
  shows "views b'"
proof (rule viewsI)
  have l: "length (sh_heap b') = length (sh_heap b)" using map_eq_imp_length_eq [OF assms(2)] .
  have c: "ss_cache (sh_heap b' ! m) = ss_cache (sh_heap b ! m)" "ss_synced (sh_heap b' ! m) = ss_synced (sh_heap b ! m)"
      "ss_subs (sh_heap b' ! m) = ss_subs (sh_heap b ! m)" if "m < length (sh_heap b)" for m
    using arg_cong [OF assms(2), of "\<lambda>xs. xs ! m"] that l by (simp_all add: contents_def)
  show "cache_ok (ss_cache (sh_heap b' ! m))" if "m < length (sh_heap b')" for m
    using viewsD(1) [OF assms(1)] c that l by simp
  show "sub_ok (sh_depth b') (sh_heap b' ! m) (sh_sub b' ! n)"
    if "m < length (sh_heap b')" "n \<in> set (ss_subs (sh_heap b' ! m))" for m n
    using viewsD(2) [OF assms(1), of m n] that c [of m] l sub_ok_contents [of "sh_heap b' ! m" "sh_heap b ! m"] by (simp add: assms)
  show "int (length (sb_ch (sh_sub b' ! n))) \<le> sh_depth b'" if "n < length (sh_sub b')" for n
    using viewsD(3) [OF assms(1)] that by (simp add: assms)
  show "sh_depth b' > 0" using viewsD(4) [OF assms(1)] by (simp add: assms)
qed

text \<open>Steps of one scope: its contents and its own subscribers change together.\<close>

lemma scope_subs_disjoint:
  assumes "registry b" and "j < length (sh_heap b)" and "n \<in> set (ss_subs (sh_heap b ! j))"
  shows "n < length (sh_sub b)" "sb_scope (sh_sub b ! n) = j"
  using registryD(3) [OF assms(1,2)] assms(3) by (auto simp: scope_ok_def Let_def)

lemma views_scope:
  assumes "views b" and "registry b" and "m < length (sh_heap b)" and "sh_depth b' = sh_depth b"
    and "sh_heap b' = (sh_heap b)[m := ss]"
    and "\<And>n. n < length (sh_sub b) \<Longrightarrow> sb_scope (sh_sub b ! n) \<noteq> m \<Longrightarrow> sh_sub b' ! n = sh_sub b ! n"
    and "cache_ok (ss_cache ss)" and "\<And>n. n \<in> set (ss_subs ss) \<Longrightarrow> sub_ok (sh_depth b) ss (sh_sub b' ! n)"
    and "\<And>n. n < length (sh_sub b') \<Longrightarrow> int (length (sb_ch (sh_sub b' ! n))) \<le> sh_depth b"
  shows "views b'"
proof (rule viewsI)
  show "cache_ok (ss_cache (sh_heap b' ! j))" if "j < length (sh_heap b')" for j
    using viewsD(1) [OF assms(1), of j] that assms(3,7) by (simp add: assms(5))
  show "sub_ok (sh_depth b') (sh_heap b' ! j) (sh_sub b' ! n)"
    if "j < length (sh_heap b')" "n \<in> set (ss_subs (sh_heap b' ! j))" for j n
  proof (cases "j = m")
    case True
    then show ?thesis using that assms(3,8) by (simp add: assms(4,5))
  next
    case False
    then have j: "j < length (sh_heap b)" "n \<in> set (ss_subs (sh_heap b ! j))" using that by (simp_all add: assms(5))
    note n = scope_subs_disjoint [OF assms(2) j]
    show ?thesis using viewsD(2) [OF assms(1) j] False assms(6) [OF n(1)] n(2) by (simp add: assms(4,5))
  qed
qed (use assms(4,9) viewsD(4) [OF assms(1)] in auto)

lemma view_fanned:
  assumes "sub_ok d ss sub" and "map_of (ss_cache ss') = apply_event ev (map_of (ss_cache ss))" and "ss_synced ss' = ss_synced ss"
  shows "sub_ok d ss' (fanned d ev sub)"
  using assms by (auto simp: sub_ok_def fanned_def offered_def sees_offered)

lemma fanned_ch: "int (length (sb_ch sub)) \<le> d \<Longrightarrow> int (length (sb_ch (fanned d ev sub))) \<le> d"
  by (auto simp: fanned_def offered_def)

lemma view_woken: "sub_ok d ss sub \<Longrightarrow> cache_ok (ss_cache ss) \<Longrightarrow> ss_cache ss' = ss_cache ss \<Longrightarrow> ss_synced ss' \<Longrightarrow> sub_ok d ss' (woken (ss_cache ss) sub)"
  by (auto simp: sub_ok_def woken_def handed_def sees_snapshot)

lemma view_joined: "cache_ok (ss_cache ss) \<Longrightarrow> sub_ok d ss (joined m ss)"
  using sees_snapshot [of "ss_cache ss" "(new_subscriber m)\<lparr>sb_ready := True\<rparr>"] by (auto simp: sub_ok_def joined_def handed_def new_subscriber_def)

lemma joined_ch [simp]: "sb_ch (joined m ss) = []"
  by (simp add: joined_def handed_def new_subscriber_def)

lemma sub_ok_subs [simp]: "sub_ok d (ss\<lparr>ss_subs := xs\<rparr>) sub = sub_ok d ss sub"
  by (simp add: sub_ok_def)

lemma views_fan:
  assumes "views b" and "registry b" and "m < length (sh_heap b)"
    and "\<And>ss. ss_subs (f ss) = ss_subs ss" and "\<And>ss. ss_synced (f ss) = ss_synced ss"
    and "map_of (ss_cache (f (sh_heap b ! m))) = apply_event ev (map_of (ss_cache (sh_heap b ! m)))"
    and "cache_ok (ss_cache (f (sh_heap b ! m)))"
  shows "views (fanOutLocked m ev (upd_scope m f b))"
proof -
  let ?b = "upd_scope m f b"
  have subs: "ss_subs (sh_heap ?b ! m) = ss_subs (sh_heap b ! m)" by (simp add: assms(4))
  have dm: "scope_ok b m" using registryD(3) [OF assms(2,3)] .
  have "distinct (ss_subs (sh_heap ?b ! m))" using dm unfolding subs by (simp add: scope_ok_def Let_def)
  note fan = fan_sub [OF this, of ev, unfolded subs, simplified]
  have n: "n < length (sh_sub b)" if "n \<in> set (ss_subs (sh_heap b ! m))" for n
    using dm that by (auto simp: scope_ok_def Let_def)
  show ?thesis
  proof (rule views_scope [OF assms(1-3)])
    show "sh_depth (fanOutLocked m ev ?b) = sh_depth b" "sh_heap (fanOutLocked m ev ?b) = (sh_heap b)[m := f (sh_heap b ! m)]"
      using fan by (simp_all add: sub_only_def)
    show "sub_ok (sh_depth b) (f (sh_heap b ! m)) (sh_sub (fanOutLocked m ev ?b) ! k)" if "k \<in> set (ss_subs (f (sh_heap b ! m)))" for k
      using fan that n viewsD(2) [OF assms(1,3), of k] view_fanned [of "sh_depth b" "sh_heap b ! m" _ "f (sh_heap b ! m)" ev]
      by (simp add: assms(4-6))
    show "int (length (sb_ch (sh_sub (fanOutLocked m ev ?b) ! k))) \<le> sh_depth b" if "k < length (sh_sub (fanOutLocked m ev ?b))" for k
      using fan that viewsD(3) [OF assms(1), of k] fanned_ch by simp
  qed (use fan assms(7) scope_subs_disjoint(2) [OF assms(2,3)] in auto)
qed

lemma views_pump:
  assumes "views b" and "registry b" and "m < length (sh_heap b)"
  shows "views (pump_step m r b)"
proof -
  have dying: "views (set_pump m p b)" for p
    by (rule views_frame [OF assms(1)]) (auto simp: set_pump_def contents_def intro!: nth_equalityI)
  have cache: "cache_ok (ss_cache (sh_heap b ! m))" using viewsD(1) [OF assms(1,3)] .
  have dist: "distinct (ss_subs (sh_heap b ! m))" using registryD(3) [OF assms(2,3)] by (simp add: scope_ok_def Let_def)
  have obj: "views (pump_object m ev b)" if "we_Type ev = WatchAdded \<or> we_Type ev = WatchModified" for ev
  proof (cases "partialReason (we_Object ev) = []")
    case True
    then have "UID (we_Object ev) \<noteq> []" by (auto simp: partialReason_def Let_def split: if_splits)
    moreover have "views (fanOutLocked m ev (upd_scope m (\<lambda>ss. ss\<lparr>ss_cache := map_put (UID (we_Object ev)) (we_Object ev) (ss_cache ss)\<rparr>) b))"
      by (rule views_fan [OF assms]) (use that cache cache_put in \<open>auto simp: apply_event_def gmap.get_put\<close>)
    ultimately show ?thesis using True by (simp add: pump_object_def)
  qed (use dying in \<open>simp add: pump_object_def\<close>)
  have del: "views (pump_deleted m ev b)" if "we_Type ev = WatchDeleted" for ev
  proof (cases "identityOf (we_Object ev)")
    case (Some i)
    have "views (fanOutLocked m ev (upd_scope m (\<lambda>ss. ss\<lparr>ss_cache := map_delete (id_UID i) (ss_cache ss)\<rparr>) b))"
      by (rule views_fan [OF assms]) (use that cache cache_delete identityOf_UID [OF Some] in \<open>auto simp: apply_event_def gmap.get_del\<close>)
    then show ?thesis using Some by (simp add: pump_deleted_def)
  qed (use dying in \<open>simp add: pump_deleted_def\<close>)
  have wake: "views (pump_bookmark m ev b)" for ev
  proof (cases "we_InitialEventsEnd ev")
    case True
    let ?f = "\<lambda>ss. ss\<lparr>ss_synced := True, ss_syncedAt := if ss_synced ss then ss_syncedAt ss else sh_now b\<rparr>"
    let ?b = "upd_scope m ?f b" let ?c = "pump_bookmark m ev b"
    have c: "?c = deliver_awaiting m ?b" using True by (simp add: pump_bookmark_def)
    have "distinct (ss_subs (sh_heap ?b ! m))" using dist by simp
    from wake_sub [OF this] have w: "sub_only ?b ?c" "length (sh_sub ?c) = length (sh_sub b)"
      "\<And>j. j < length (sh_sub b) \<Longrightarrow> sh_sub ?c ! j = (if j \<in> set (ss_subs (sh_heap b ! m)) then woken (ss_cache (sh_heap b ! m)) (sh_sub b ! j) else sh_sub b ! j)"
      using assms(3) by (simp_all add: c)
    have n: "n < length (sh_sub b)" if "n \<in> set (ss_subs (sh_heap b ! m))" for n
      using registryD(3) [OF assms(2,3)] that by (auto simp: scope_ok_def Let_def)
    show ?thesis
    proof (rule views_scope [OF assms])
      show "sh_depth ?c = sh_depth b" "sh_heap ?c = (sh_heap b)[m := ?f (sh_heap b ! m)]" using w(1) by (simp_all add: sub_only_def)
      show "sub_ok (sh_depth b) (?f (sh_heap b ! m)) (sh_sub ?c ! k)" if "k \<in> set (ss_subs (?f (sh_heap b ! m)))" for k
        using that n w(3) viewsD(2) [OF assms(1,3), of k] cache view_woken [of "sh_depth b" "sh_heap b ! m" "sh_sub b ! k"] by simp
      show "int (length (sb_ch (sh_sub ?c ! k))) \<le> sh_depth b" if "k < length (sh_sub ?c)" for k
        using that w viewsD(3) [OF assms(1), of k] by (auto simp: woken_def handed_def)
    qed (use w cache scope_subs_disjoint(2) [OF assms(2,3)] in auto)
  qed (use assms(1) in \<open>simp add: pump_bookmark_def\<close>)
  show ?thesis using dying obj del wake assms(1) by (auto simp: pump_step_def split: NextResult.split WatchEventType.split)
qed

lemma views_subscribe:
  assumes "views b" and "registry b" and "m < length (sh_heap b)"
  shows "views (subscribe c m b)"
proof (cases "ss_dead (sh_heap b ! m)")
  case False
  let ?b = "subscribe c m b"
  have at: "attached m 1 b (attachLocked m b)" using attach_one [OF assms(3)] by simp
  have b: "sh_depth ?b = sh_depth b" "sh_sub ?b = sh_sub b @ [joined m (sh_heap b ! m)]"
    "sh_heap ?b = (sh_heap b)[m := (sh_heap b ! m)\<lparr>ss_subs := ss_subs (sh_heap b ! m) @ [length (sh_sub b)]\<rparr>]"
    using at False by (simp_all add: subscribe_def attached_def)
  have n: "n < length (sh_sub b)" if "n \<in> set (ss_subs (sh_heap b ! m))" for n
    using registryD(3) [OF assms(2,3)] that by (auto simp: scope_ok_def Let_def)
  note c = viewsD(1) [OF assms(1,3)]
  show ?thesis
  proof (rule views_scope [OF assms b(1,3)])
    show "sub_ok (sh_depth b) ((sh_heap b ! m)\<lparr>ss_subs := ss_subs (sh_heap b ! m) @ [length (sh_sub b)]\<rparr>) (sh_sub ?b ! k)"
      if "k \<in> set (ss_subs ((sh_heap b ! m)\<lparr>ss_subs := ss_subs (sh_heap b ! m) @ [length (sh_sub b)]\<rparr>))" for k
      using that n viewsD(2) [OF assms(1,3), of k] view_joined [OF c] by (auto simp: b(2) nth_append)
    show "int (length (sb_ch (sh_sub ?b ! k))) \<le> sh_depth b" if "k < length (sh_sub ?b)" for k
      using that viewsD(3) [OF assms(1), of k] viewsD(4) [OF assms(1)] by (auto simp: b(2) nth_append less_Suc_eq)
  qed (use c in \<open>simp_all add: b(2) nth_append\<close>)
qed (use assms(1) in \<open>auto simp: subscribe_def elim: views_frame\<close>)

lemma views_upd_op [simp]: "views (upd_op i f b) = views b"
  by (simp add: views_def)

lemma views_callers [simp]: "views (set_caller c k b) = views b" "views (add_caller k b) = views b"
  by (simp_all add: views_def)

lemma views_settle:
  assumes "views b" and "registry b"
  shows "views (settle i err b)"
proof (cases "sh_openings b (op_key (sh_ops b ! i)) = Some i \<and> err = None")
  case True
  let ?key = "op_key (sh_ops b ! i)" let ?m = "length (sh_heap b)" let ?k = "nat (op_waiters (sh_ops b ! i))"
  let ?ss = "newSharedScope ?key (op_scope (sh_ops b ! i)) i" let ?b = "settle i err b"
  have i: "i < length (sh_ops b)" using True registryD(2) [OF assms(2), of ?key] by (simp add: registered_ok_def)
  define b1 where "b1 = b\<lparr>sh_openings := (sh_openings b)(?key := None), sh_heap := sh_heap b @ [?ss], sh_scopes := (sh_scopes b)(?key \<mapsto> ?m)\<rparr>"
  have "?m < length (sh_heap b1)" "i < length (sh_ops b1)" using i by (simp_all add: b1_def)
  note at = attach_many [OF this, of ?k]
  have bdef: "?b = upd_op i (\<lambda>op. op\<lparr>op_done := True, op_upstream := UpOpen\<rparr>) (attach_waiters i ?m ?k b1)"
    using True by (simp add: settle_def Let_def b1_def)
  let ?new = "[length (sh_sub b)..<length (sh_sub b) + ?k]"
  have b: "sh_depth ?b = sh_depth b" "sh_heap ?b = sh_heap b @ [?ss\<lparr>ss_subs := ?new\<rparr>]" "sh_sub ?b = sh_sub b @ replicate ?k (joined ?m ?ss)"
    using at unfolding bdef attached_def by (simp_all add: b1_def newSharedScope_def)
  have nc: "cache_ok (ss_cache ?ss)" by (simp add: newSharedScope_def)
  show ?thesis
  proof (rule viewsI)
    show "cache_ok (ss_cache (sh_heap ?b ! m))" if "m < length (sh_heap ?b)" for m
      using that viewsD(1) [OF assms(1), of m] nc by (auto simp: b(2) nth_append less_Suc_eq)
    show "sub_ok (sh_depth ?b) (sh_heap ?b ! m) (sh_sub ?b ! n)" if "m < length (sh_heap ?b)" "n \<in> set (ss_subs (sh_heap ?b ! m))" for m n
    proof (cases "m = ?m")
      case True
      then have "length (sh_sub b) \<le> n" "n - length (sh_sub b) < ?k" using that by (auto simp: b(2) nth_append)
      then show ?thesis using True view_joined [OF nc] by (simp add: b nth_append)
    next
      case False
      then have m: "m < length (sh_heap b)" "n \<in> set (ss_subs (sh_heap b ! m))" using that by (simp_all add: b(2) nth_append)
      then have "n < length (sh_sub b)" using registryD(3) [OF assms(2)] by (auto simp: scope_ok_def Let_def)
      then show ?thesis using viewsD(2) [OF assms(1) m] m by (simp add: b nth_append)
    qed
    show "int (length (sb_ch (sh_sub ?b ! n))) \<le> sh_depth ?b" if "n < length (sh_sub ?b)" for n
      using that viewsD(3) [OF assms(1), of n] viewsD(4) [OF assms(1)] by (auto simp: b nth_append)
    show "sh_depth ?b > 0" using viewsD(4) [OF assms(1)] by (simp add: b)
  qed
next
  case False
  then have "sh_heap (settle i err b) = sh_heap b" "sh_sub (settle i err b) = sh_sub b" "sh_depth (settle i err b) = sh_depth b"
    by (auto simp: settle_def Let_def split: option.split)
  then show ?thesis using assms(1) by (intro views_frame [OF assms(1)]) simp_all
qed

text \<open>Reading moves events along; nothing else of the subscriber changes.\<close>

lemma views_read:
  assumes "views b" and "int (length (sb_ch (f (sh_sub b ! n)))) \<le> int (length (sb_ch (sh_sub b ! n)))"
    and "\<And>d ss. sub_ok d ss (sh_sub b ! n) \<Longrightarrow> sub_ok d ss (f (sh_sub b ! n))"
  shows "views (upd_sub n f b)"
  using assms viewsD(3) [OF assms(1), of n] by (auto simp: views_def)

lemma leave_shape:
  assumes "m = sb_scope (sh_sub b ! n)" and "m < length (sh_heap b)"
  shows "\<exists>dead l. sh_heap (leave n b) =
      (sh_heap b)[m := (sh_heap b ! m)\<lparr>ss_subs := removeAll n (ss_subs (sh_heap b ! m)), ss_dead := dead, ss_leaving := l\<rparr>]"
    "sh_sub (leave n b) = (sh_sub b)[n := ended None (sh_sub b ! n)]" "sh_depth (leave n b) = sh_depth b"
proof -
  let ?b = "end_sub n None (upd_scope m (\<lambda>ss. ss\<lparr>ss_subs := removeAll n (ss_subs ss)\<rparr>) b)"
  have e: "sh_heap ?b = (sh_heap b)[m := (sh_heap b ! m)\<lparr>ss_subs := removeAll n (ss_subs (sh_heap b ! m))\<rparr>]"
    "sh_sub ?b = (sh_sub b)[n := ended None (sh_sub b ! n)]" "sh_depth ?b = sh_depth b"
    using end_sub_sub [of "upd_scope m (\<lambda>ss. ss\<lparr>ss_subs := removeAll n (ss_subs ss)\<rparr>) b" n None] by (simp_all add: sub_only_def)
  have l: "\<exists>f. leave n b = upd_scope m f ?b \<and> (\<forall>ss. \<exists>dead l. f ss = ss\<lparr>ss_dead := dead, ss_leaving := l\<rparr>)"
  proof -
    have keep: "\<exists>dead l. ss = ss\<lparr>ss_dead := dead, ss_leaving := l\<rparr>" for ss :: sharedScope
      by (intro exI [of _ "ss_dead ss"] exI [of _ "ss_leaving ss"]) simp
    have same: "?b = upd_scope m (\<lambda>ss. ss) ?b" by (simp add: upd_scope_def)
    define fin where "fin = \<lparr>sn_useful = usefulLocked m ?b, sn_early = False, sn_failure = None, sn_cause = None\<rparr>"
    have "leave n b = (if ss_subs (sh_heap ?b ! m) = [] \<and> \<not> ss_dead (sh_heap ?b ! m)
        then upd_scope m (\<lambda>ss. ss\<lparr>ss_dead := True, ss_leaving := Some fin\<rparr>) ?b else ?b)"
      by (simp add: leave_def Let_def assms(1) [symmetric] fin_def)
    then have "leave n b = upd_scope m (\<lambda>ss. ss\<lparr>ss_dead := True, ss_leaving := Some fin\<rparr>) ?b \<or> leave n b = ?b"
      by presburger
    then show ?thesis
    proof
      assume "leave n b = upd_scope m (\<lambda>ss. ss\<lparr>ss_dead := True, ss_leaving := Some fin\<rparr>) ?b"
      then show ?thesis by blast
    next
      assume "leave n b = ?b"
      then have "leave n b = upd_scope m (\<lambda>ss. ss) ?b" using same by simp
      then show ?thesis using keep by blast
    qed
  qed
  then obtain f where f: "leave n b = upd_scope m f ?b" "\<And>ss. \<exists>dead l. f ss = ss\<lparr>ss_dead := dead, ss_leaving := l\<rparr>" by blast
  then obtain dead l where "f ((sh_heap b ! m)\<lparr>ss_subs := removeAll n (ss_subs (sh_heap b ! m))\<rparr>) =
      (sh_heap b ! m)\<lparr>ss_subs := removeAll n (ss_subs (sh_heap b ! m)), ss_dead := dead, ss_leaving := l\<rparr>" by blast
  then show "\<exists>dead l. sh_heap (leave n b) =
      (sh_heap b)[m := (sh_heap b ! m)\<lparr>ss_subs := removeAll n (ss_subs (sh_heap b ! m)), ss_dead := dead, ss_leaving := l\<rparr>]"
    using assms(2) by (simp add: f(1) e) blast
  show "sh_sub (leave n b) = (sh_sub b)[n := ended None (sh_sub b ! n)]" "sh_depth (leave n b) = sh_depth b"
    by (simp_all add: f(1) e)
qed

lemma views_leave:
  assumes "views b" and "registry b" and "n < length (sh_sub b)"
  shows "views (leave n b)"
proof -
  define m where "m = sb_scope (sh_sub b ! n)"
  have m: "m < length (sh_heap b)" using registryD(5) [OF assms(2,3)] by (simp add: m_def)
  note shape = leave_shape [OF m_def m]
  obtain dead l where heap: "sh_heap (leave n b) =
      (sh_heap b)[m := (sh_heap b ! m)\<lparr>ss_subs := removeAll n (ss_subs (sh_heap b ! m)), ss_dead := dead, ss_leaving := l\<rparr>]"
    using shape(1) by blast
  show ?thesis
    by (rule views_scope [OF assms(1,2) m shape(3) heap])
       (use viewsD [OF assms(1)] m in \<open>auto simp: shape(2) ended_def sub_ok_def m_def\<close>)
qed

lemma views_die:
  assumes "views b" and "registry b" and "m < length (sh_heap b)" and "die_step m b = Some b'"
  shows "views b'"
proof -
  have pump: "views (set_pump m p c)" if "sh_heap c = sh_heap b" "sh_sub c = sh_sub b" "sh_depth c = sh_depth b" for p c
    by (rule views_frame [OF assms(1)]) (auto simp: set_pump_def that contents_def intro!: nth_equalityI)
  have crash: "views (b\<lparr>sh_crash := x\<rparr>)" for x using assms(1) by (simp add: views_def)
  show ?thesis
  proof (cases "ss_pump (sh_heap b ! m)")
    case (Dying cause)
    then show ?thesis using assms(4) pump crash by (auto simp: die_step_def split: option.splits prod.splits)
  next
    case (Forgetting fin cause)
    then show ?thesis using assms(4) pump by (auto simp: die_step_def cancel_scope_def)
  next
    case (Ending cause)
    let ?b1 = "upd_scope m (\<lambda>ss. ss\<lparr>ss_dead := True\<rparr>) b" let ?b2 = "end_all m cause ?b1"
    have "distinct (ss_subs (sh_heap ?b1 ! m))" using registryD(3) [OF assms(2,3)] assms(3) by (simp add: scope_ok_def Let_def)
    note e = bury_sub [OF this, of cause]
    have b': "sh_heap b' = (sh_heap b)[m := (sh_heap b ! m)\<lparr>ss_dead := True, ss_subs := [], ss_pump := PumpReturned\<rparr>]"
      "sh_sub b' = sh_sub ?b2" "sh_depth b' = sh_depth b"
      using assms(3,4) Ending e by (auto simp: die_step_def Let_def sub_only_def)
    have ch: "int (length (sb_ch (buried d cause sub))) \<le> d" if "int (length (sb_ch sub)) \<le> d" for d sub
      using that by (auto simp: buried_def ended_def offered_def)
    show ?thesis
    proof (rule views_scope [OF assms(1-3) b'(3,1)])
      show "int (length (sb_ch (sh_sub b' ! k))) \<le> sh_depth b" if "k < length (sh_sub b')" for k
        using that e viewsD(3) [OF assms(1), of k] ch by (simp add: b'(2))
      show "sh_sub b' ! k = sh_sub b ! k" if "k < length (sh_sub b)" "sb_scope (sh_sub b ! k) \<noteq> m" for k
        using that e scope_subs_disjoint(2) [OF assms(2,3), of k] assms(3) by (auto simp: b'(2))
    qed (use viewsD(1) [OF assms(1,3)] in simp_all)
  qed (use assms(4) in \<open>simp_all add: die_step_def\<close>)
qed

lemma views_Watch: "views b \<Longrightarrow> views (Watch scope ctx b)"
  by (auto simp: Watch_def join_opening_def beginOpeningLocked_def Let_def views_def split: option.split)

lemma views_act:
  assumes "views b" and "registry b" and "act a b = Some b'"
  shows "views b'"
proof -
  have crash: "sh_crash b = None" using assms(3) by (simp add: act_def split: if_splits)
  note act = assms(3) [unfolded act_def, simplified crash, simplified]
  have collect: "views (collect c i held other b)" for c i held other
    using assms(1) by (auto simp: collect_def Let_def views_def split: option.split)
  show ?thesis
  proof (cases a)
    case (CallWatch scope ctx)
    then show ?thesis using act views_Watch [OF assms(1)] by auto
  next
    case (CallSubscribe c)
    then obtain m where m: "c < length (sh_callers b)" "sh_callers b ! c = Joining m" "b' = subscribe c m b"
      using act by (auto dest!: caller_isE split: caller.splits)
    have "m < length (sh_heap b)" using registryD(6) [OF assms(2) m(1)] m(2) by simp
    then show ?thesis using views_subscribe [OF assms(1,2)] by (simp add: m(3))
  next
    case (UpstreamReturns i err)
    then show ?thesis using act views_settle [OF assms(1,2)] by (auto split: if_splits)
  next
    case (OpeningDone c)
    then show ?thesis using act collect by (auto dest!: caller_isE split: caller.splits if_splits)
  next
    case (CallerDone c err)
    then show ?thesis using act assms(1)
      by (auto simp: abandon_def Let_def dest!: caller_isE split: caller.splits) (auto simp: views_def)
  next
    case (CallCollect c)
    then show ?thesis using act collect by (auto dest!: caller_isE split: caller.splits)
  next
    case (CallNext c)
    then show ?thesis using act assms(1) by (auto dest!: caller_isE split: caller.splits)
  next
    case (NextPending c)
    have "views (upd_sub n (\<lambda>sub. sub\<lparr>sb_pending := rest, sb_got := sb_got sub @ [ev], sb_taken := sb_taken sub @ [ev]\<rparr>) b)"
      if "sb_pending (sh_sub b ! n) = ev # rest" for n ev rest
      by (rule views_read [OF assms(1)]) (use that sees_pending in \<open>auto simp: sub_ok_def\<close>)
    then show ?thesis using NextPending act assms(1)
      by (auto simp: nextPending_def dest!: caller_isE split: caller.splits list.splits)
  next
    case (NextSelect c ch)
    have "views (upd_sub n (\<lambda>sub. sub\<lparr>sb_ch := rest, sb_got := sb_got sub @ [ev], sb_live := sb_live sub @ [ev],
        sb_overtook := sb_overtook sub @ (if sb_pending sub = [] then [] else [ev])\<rparr>) b)"
      if "sb_ch (sh_sub b ! n) = ev # rest" for n ev rest
      by (rule views_read [OF assms(1)]) (use that sees_live in \<open>auto simp: sub_ok_def\<close>)
    moreover have "views (upd_sub n (\<lambda>sub. sub\<lparr>sb_ready := False\<rparr>) b)" for n
      by (rule views_read [OF assms(1)]) (auto simp: sub_ok_def)
    ultimately show ?thesis using NextSelect act assms(1)
      by (auto simp: next_select_def Let_def dest!: caller_isE split: caller.splits list.splits choice.splits if_splits)
  next
    case (CallStop c)
    then obtain n k where n: "c < length (sh_callers b)" "holds n (sh_callers b ! c)" "b' = set_caller c k (leave n b)"
      using act by (auto simp: holds_def dest!: caller_isE split: caller.splits)
    have "n < length (sh_sub b)" using registryD(6) [OF assms(2) n(1)] n(2) by (auto simp: holds_def)
    then show ?thesis using views_leave [OF assms(1,2)] by (simp add: n(3))
  next
    case (PumpNext m r)
    then show ?thesis using act views_pump [OF assms(1,2)] by (auto split: if_splits)
  next
    case (PumpDie m)
    then show ?thesis using act views_die [OF assms(1,2)] by (auto split: if_splits)
  next
    case (LeaveForget m)
    then obtain fin where b': "b' = cancel_scope m (forget m fin (upd_scope m (\<lambda>ss. ss\<lparr>ss_leaving := None\<rparr>) b))"
      using act by (auto simp: leave_step_def split: if_splits option.splits)
    show ?thesis unfolding b'
      by (rule views_frame [OF assms(1)]) (auto simp: cancel_scope_def contents_def intro!: nth_equalityI)
  next
    case (Advance d)
    then show ?thesis using act assms(1) by (auto simp: views_def)
  qed
qed

section \<open>Every reachable state\<close>

definition shared_start :: "shared \<Rightarrow> bool" where
  "shared_start b \<longleftrightarrow> (\<exists>depth now. b = NewSharedBackend depth now)"

definition shared_inv :: "shared \<Rightarrow> bool" where
  "shared_inv b \<longleftrightarrow> registry b \<and> backoff_ok b \<and> views b \<and> single b"

interpretation shared: invariant_system shared_start shared_step shared_inv
proof
  fix b
  assume "shared_start b"
  then obtain depth now where b: "b = NewSharedBackend depth now" by (auto simp: shared_start_def)
  have "backoff_ok b" "views b" "single b"
    by (simp_all add: b NewSharedBackend_def Let_def backoff_ok_def views_def single_def sharedQueueDepth_def)
  then show "shared_inv b" using registry_new by (simp add: shared_inv_def b)
next
  show "shared_inv b'" if "shared_inv b" "shared_step b a b'" for b a b'
    using that registry_act backoff_act views_act single_act by (auto simp: shared_inv_def shared_step_def)
qed

lemma acts_run: "acts as b = Some b' \<Longrightarrow> run_steps shared_step s ls b \<Longrightarrow> \<exists>ms. run_steps shared_step s ms b'"
proof (induction as arbitrary: b ls)
  case (Cons a as)
  from Cons.prems(1) obtain c where c: "act a b = Some c" "acts as c = Some b'" by (auto split: option.splits)
  have "run_steps shared_step s (ls @ [a]) c"
    by (rule run_snoc [OF Cons.prems(2)]) (simp add: shared_step_def c(1))
  then show ?case by (rule Cons.IH [OF c(2)])
qed auto

lemma reachable_inv:
  assumes "run_steps shared_step (NewSharedBackend depth now) ls b"
  shows "registry b" "backoff_ok b" "views b" "single b"
  using shared.inv_reachable [OF _ assms] by (auto simp: shared_start_def shared_inv_def)

lemma acts_reachable: "acts as (NewSharedBackend depth now) = Some b \<Longrightarrow> \<exists>ls. run_steps shared_step (NewSharedBackend depth now) ls b"
  using acts_run run_refl by fast

section \<open>Properties\<close>

text \<open>A run in which one caller opens the scope and reads: the snapshot with one object, then
  nothing.  In the second run the reader has found no snapshot and is about to select when the
  snapshot and a live deletion both arrive.\<close>

definition sample_pod :: KRMObject where
  "sample_pod = [(''apiVersion'', JStr ''v1''), (''kind'', JStr ''Pod''),
     (''metadata'', JObj [(''uid'', JStr ''x''), (''name'', JStr ''p''), (''resourceVersion'', JStr ''1'')])]"

definition deleted_event :: "KRMObject \<Rightarrow> WatchEvent" where
  "deleted_event obj = \<lparr>we_Type = WatchDeleted, we_Object = obj, we_InitialEventsEnd = False, we_Err = None\<rparr>"

definition open_acts :: "action list" where
  "open_acts = [CallWatch sample_scope None, UpstreamReturns 0 None, OpeningDone 0,
     PumpNext 0 (NextEvent (added_event sample_pod)), CallNext 0, NextPending 0]"

definition sample_acts :: "action list" where
  "sample_acts = open_acts @ [PumpNext 0 (NextEvent boundary_event), NextSelect 0 TakeReady, NextPending 0, CallNext 0, NextPending 0]"

definition race_acts :: "action list" where
  "race_acts = open_acts @ [PumpNext 0 (NextEvent boundary_event), PumpNext 0 (NextEvent (deleted_event sample_pod)),
     NextSelect 0 TakeLive, CallNext 0, NextPending 0, CallNext 0, NextPending 0]"

text \<open>C16. A subscriber sees the cache.  In every reachable state of an attached and open
  subscriber, the snapshot (taken from it and still pending) followed by the live events (taken
  and still queued) builds exactly the objects of the shared cache; \<open>Next\<close> returned an
  interleaving of the two that keeps each of them in order; and in the order it was handed out,
  what the subscriber has been given and still has queued shows each object as the cache has
  it, except an object that a live event returned past the waiting snapshot is about (the race of
  C21).  Without such an event the two are equal.  Its queue never exceeds the bound.\<close>

theorem shared_subscriber_sees_cache:
  assumes "run_steps shared_step (NewSharedBackend depth now) ls b"
    and "m < length (sh_heap b)" and "n \<in> set (ss_subs (sh_heap b ! m))"
    and "sub = sh_sub b ! n" and "\<not> sb_closed sub" and "\<not> sb_awaiting sub"
  shows "view (sb_taken sub @ sb_pending sub @ sb_live sub @ sb_ch sub) = map_of (ss_cache (sh_heap b ! m)) \<and>
    sb_got sub \<in> shuffles (sb_taken sub) (sb_live sub) \<and>
    (\<forall>u. (\<forall>ev \<in> set (sb_overtook sub). UID (we_Object ev) \<noteq> u) \<longrightarrow>
       view (sb_got sub @ sb_pending sub @ sb_ch sub) u = map_of (ss_cache (sh_heap b ! m)) u) \<and>
    (sb_overtook sub = [] \<longrightarrow> view (sb_got sub @ sb_pending sub @ sb_ch sub) = map_of (ss_cache (sh_heap b ! m))) \<and>
    int (length (sb_ch sub)) \<le> sh_depth b"
proof -
  note inv = reachable_inv [OF assms(1)]
  have n: "n < length (sh_sub b)" using scope_subs_disjoint(1) [OF inv(1) assms(2,3)] .
  have sees: "sees sub (map_of (ss_cache (sh_heap b ! m)))"
    using viewsD(2) [OF inv(3) assms(2,3)] assms(4-6) by (simp add: sub_ok_def)
  note order = sees_order [OF sees, unfolded filter_empty_conv]
  have "view (sb_got sub @ sb_pending sub @ sb_ch sub) = map_of (ss_cache (sh_heap b ! m))" if "sb_overtook sub = []"
    using order that by (intro ext) simp
  then show ?thesis using sees order viewsD(3) [OF inv(3) n] assms(4) by (simp add: sees_def)
qed

theorem shared_subscriber_sees_cache_witness:
  "\<exists>ls b. run_steps shared_step (NewSharedBackend 0 0) ls b \<and> sb_got (sh_sub b ! 0) = [added_event sample_pod, boundary_event] \<and>
     view [added_event sample_pod, boundary_event] = map_of (ss_cache (sh_heap b ! 0))"
proof -
  have "case acts sample_acts (NewSharedBackend 0 0) of None \<Rightarrow> False | Some b \<Rightarrow>
      0 < length (sh_heap b) \<and> 0 \<in> set (ss_subs (sh_heap b ! 0)) \<and> \<not> sb_closed (sh_sub b ! 0) \<and> \<not> sb_awaiting (sh_sub b ! 0) \<and>
      sb_overtook (sh_sub b ! 0) = [] \<and> sb_pending (sh_sub b ! 0) = [] \<and> sb_ch (sh_sub b ! 0) = [] \<and>
      sb_got (sh_sub b ! 0) = [added_event sample_pod, boundary_event]"
    by code_simp
  then obtain b where b: "acts sample_acts (NewSharedBackend 0 0) = Some b" "0 < length (sh_heap b)" "0 \<in> set (ss_subs (sh_heap b ! 0))"
    "\<not> sb_closed (sh_sub b ! 0)" "\<not> sb_awaiting (sh_sub b ! 0)" "sb_overtook (sh_sub b ! 0) = []"
    "sb_pending (sh_sub b ! 0) = []" "sb_ch (sh_sub b ! 0) = []" "sb_got (sh_sub b ! 0) = [added_event sample_pod, boundary_event]"
    by (auto split: option.splits)
  obtain ls where "run_steps shared_step (NewSharedBackend 0 0) ls b" using acts_reachable [OF b(1)] by blast
  from shared_subscriber_sees_cache [OF this b(2,3) refl b(4,5)] this show ?thesis using b(6-9) by auto
qed

text \<open>C21. Live before snapshot.  \<open>Next\<close> looks for the snapshot, finds none, and selects; when
  the snapshot and a live event both arrive in between, the \<open>select\<close> may take the live event.
  The run below reaches a state in which the reader has drained everything and yet holds an
  object that was deleted upstream and is not in the cache.\<close>

theorem shared_snapshot_overtaken:
  "\<exists>ls b. run_steps shared_step (NewSharedBackend 0 0) ls b \<and> sh_callers b = [Holding 0 None] \<and>
     sb_got (sh_sub b ! 0) = [deleted_event sample_pod, added_event sample_pod, boundary_event] \<and>
     sb_pending (sh_sub b ! 0) = [] \<and> sb_ch (sh_sub b ! 0) = [] \<and> \<not> sb_closed (sh_sub b ! 0) \<and>
     view (sb_got (sh_sub b ! 0)) (UID sample_pod) = Some sample_pod \<and> ss_cache (sh_heap b ! 0) = []"
proof -
  have "case acts race_acts (NewSharedBackend 0 0) of None \<Rightarrow> False | Some b \<Rightarrow> sh_callers b = [Holding 0 None] \<and>
     sb_got (sh_sub b ! 0) = [deleted_event sample_pod, added_event sample_pod, boundary_event] \<and>
     sb_pending (sh_sub b ! 0) = [] \<and> sb_ch (sh_sub b ! 0) = [] \<and> \<not> sb_closed (sh_sub b ! 0) \<and> ss_cache (sh_heap b ! 0) = []"
    by code_simp
  then obtain b where b: "acts race_acts (NewSharedBackend 0 0) = Some b" "sh_callers b = [Holding 0 None]"
     "sb_got (sh_sub b ! 0) = [deleted_event sample_pod, added_event sample_pod, boundary_event]"
     "sb_pending (sh_sub b ! 0) = []" "sb_ch (sh_sub b ! 0) = []" "\<not> sb_closed (sh_sub b ! 0)" "ss_cache (sh_heap b ! 0) = []"
    by (auto split: option.splits)
  have "view [deleted_event sample_pod, added_event sample_pod, boundary_event] (UID sample_pod) = Some sample_pod"
    by (simp add: view_def apply_event_def deleted_event_def boundary_event_def added_event_def)
  moreover obtain ls where "run_steps shared_step (NewSharedBackend 0 0) ls b" using acts_reachable [OF b(1)] by blast
  ultimately show ?thesis using b by (intro exI [of _ ls] exI [of _ b]) simp
qed

text \<open>C17. No leaked upstream.  When every caller has returned or stopped and no \<open>leave\<close> is still
  between its two critical sections, nothing is registered, every upstream context has been
  cancelled and no subscription is left over, however the calls interleaved.\<close>

theorem shared_no_leak:
  assumes "run_steps shared_step (NewSharedBackend depth now) ls b"
    and "\<forall>k \<in> set (sh_callers b). k = Gone \<or> (\<exists>e. k = Refused e)"
    and "\<forall>ss \<in> set (sh_heap b). ss_leaving ss = None"
  shows "sh_scopes b = Map.empty \<and> sh_openings b = Map.empty \<and>
    (\<forall>op \<in> set (sh_ops b). op_cancelled op \<and> op_subs op = []) \<and> (\<forall>ss \<in> set (sh_heap b). ss_dead ss \<and> ss_subs ss = [])"
proof -
  note r = reachable_inv(1) [OF assms(1)]
  have w: "waiting i b = 0" for i using assms(2) by (auto simp: waiting_def filter_empty_conv waits_def)
  have nohold: "\<not> holds n (sh_callers b ! c)" if "c < length (sh_callers b)" for n c
    using assms(2) nth_mem [OF that] by (auto simp: holds_def)
  have op: "op_subs (sh_ops b ! i) = []" "\<not> op_done (sh_ops b ! i) \<Longrightarrow> op_waiters (sh_ops b ! i) = 0" if "i < length (sh_ops b)" for i
  proof -
    have shape: "op_shape (sh_ops b ! i) 0 (abandoned b i)" using registryD(1) [OF r that] by (simp add: opening_ok_def Let_def w)
    then show "op_subs (sh_ops b ! i) = []" by (cases "op_done (sh_ops b ! i) \<and> op_err (sh_ops b ! i) = None") (auto simp: op_shape_def)
    show "\<not> op_done (sh_ops b ! i) \<Longrightarrow> op_waiters (sh_ops b ! i) = 0" using shape by (simp add: op_shape_def)
  qed
  have openings: "sh_openings b key = None" for key
    using registryD(2) [OF r, of key] op(2) by (cases "sh_openings b key") (auto simp: registered_ok_def)
  have dead: "ss_dead (sh_heap b ! m)" "ss_subs (sh_heap b ! m) = []" if "m < length (sh_heap b)" for m
  proof -
    have "\<not> owned b n" for n using nohold op(1) by (auto simp: owned_def)
    then show "ss_subs (sh_heap b ! m) = []" using registryD(3) [OF r that] by (cases "ss_subs (sh_heap b ! m)") (auto simp: scope_ok_def Let_def)
    then show "ss_dead (sh_heap b ! m)" using registryD(3) [OF r that] by (simp add: scope_ok_def Let_def)
  qed
  have leaving: "ss_leaving (sh_heap b ! m) = None" if "m < length (sh_heap b)" for m using assms(3) that by simp
  have scopes: "sh_scopes b key = None" for key
    using registryD(2) [OF r, of key] dead(1) leaving by (cases "sh_scopes b key") (auto simp: registered_ok_def)
  have "op_cancelled (sh_ops b ! i)" if "i < length (sh_ops b)" for i
    using registryD(1) [OF r that] openings dead(1) leaving by (auto simp: opening_ok_def Let_def live_def)
  then show ?thesis using openings scopes op(1) dead by (auto simp: in_set_conv_nth fun_eq_iff)
qed

theorem shared_no_leak_witness:
  "\<exists>ls b. run_steps shared_step (NewSharedBackend 0 0) ls b \<and> length (sh_ops b) = 1 \<and>
     sh_scopes b = Map.empty \<and> op_cancelled (sh_ops b ! 0)"
proof -
  have "case acts (sample_acts @ [CallStop 0, LeaveForget 0]) (NewSharedBackend 0 0) of None \<Rightarrow> False | Some b \<Rightarrow>
      length (sh_ops b) = 1 \<and> sh_callers b = [Gone] \<and> list_all (\<lambda>ss. ss_leaving ss = None) (sh_heap b)"
    by code_simp
  then obtain b where b: "acts (sample_acts @ [CallStop 0, LeaveForget 0]) (NewSharedBackend 0 0) = Some b"
    "length (sh_ops b) = 1" "sh_callers b = [Gone]" "\<forall>ss \<in> set (sh_heap b). ss_leaving ss = None"
    by (auto simp: list_all_iff split: option.splits)
  obtain ls where ls: "run_steps shared_step (NewSharedBackend 0 0) ls b" using acts_reachable [OF b(1)] by blast
  have "\<forall>k \<in> set (sh_callers b). k = Gone \<or> (\<exists>e. k = Refused e)" by (simp add: b(3))
  from shared_no_leak [OF ls this b(4)] show ?thesis using ls b(2) by (intro exI [of _ ls] exI [of _ b]) auto
qed



text \<open>C19. The backoff gate.  While a scope's backoff runs, the scope has neither an opening nor an
  upstream watch, and a call of \<open>Watch\<close> starts none: the caller is told to come back in at
  most thirty seconds.  A scope therefore sees at most one attempt per backoff period.\<close>

theorem shared_backoff_gate:
  assumes "run_steps shared_step (NewSharedBackend depth now) ls b"
    and "sh_backoff b (scopeKey scope) = Some bo" and "sh_now b < bo_until bo"
  shows "sh_scopes b (scopeKey scope) = None \<and> sh_openings b (scopeKey scope) = None \<and>
    (\<exists>ms. Watch scope None b = add_caller (Refused (ErrStream (StreamError CodeUpstreamUnavailable
         ''the upstream is unavailable; retry later'' False (Some ms) None))) b \<and> 0 \<le> ms \<and> ms \<le> 30000)"
proof -
  note inv = reachable_inv [OF assms(1)]
  note d = backoff_okD [OF inv(2) assms(2)]
  let ?wait = "bo_until bo - sh_now b"
  have w: "0 < ?wait" "?wait \<le> 30000000000" using assms(3) d(4) by (simp_all add: sharedRetryMax_def)
  then have "backoffRemainingLocked (scopeKey scope) b = ?wait"
    using assms(2) by (simp add: backoffRemainingLocked_def time_Sub_def)
  moreover have "?wait div 1000000 \<le> 30000" using w by linarith
  ultimately show ?thesis using d(5,6) assms(3) w
    by (intro conjI exI [of _ "?wait div 1000000"]) (simp_all add: Watch_def)
qed

definition failing_acts :: "action list" where
  "failing_acts = [CallWatch sample_scope None,
     UpstreamReturns 0 (Some (ErrStream (UpstreamUnavailable ''connection refused'' 0))), OpeningDone 0]"

theorem shared_backoff_gate_witness:
  "\<exists>ls b ms. run_steps shared_step (NewSharedBackend 0 0) ls b \<and> length (sh_ops b) = 1 \<and>
     Watch sample_scope None b = add_caller (Refused (ErrStream (StreamError CodeUpstreamUnavailable
         ''the upstream is unavailable; retry later'' False (Some ms) None))) b \<and> ms \<le> 30000"
proof -
  have "case acts failing_acts (NewSharedBackend 0 0) of None \<Rightarrow> False | Some b \<Rightarrow> length (sh_ops b) = 1 \<and>
      (case sh_backoff b (scopeKey sample_scope) of None \<Rightarrow> False | Some bo \<Rightarrow> sh_now b < bo_until bo)"
    by code_simp
  then obtain b bo where b: "acts failing_acts (NewSharedBackend 0 0) = Some b" "length (sh_ops b) = 1"
    "sh_backoff b (scopeKey sample_scope) = Some bo" "sh_now b < bo_until bo" by (auto split: option.splits)
  obtain ls where ls: "run_steps shared_step (NewSharedBackend 0 0) ls b" using acts_reachable [OF b(1)] by blast
  from shared_backoff_gate [OF ls b(3,4)] show ?thesis using ls b(2) by blast
qed

text \<open>C20. Backoff bounds.  A retryable failure sets a delay between one and thirty seconds that
  doubles the scope's last one, and the scope waits at least that delay and never more than
  thirty seconds, also when the upstream's hint overflows the 64-bit duration.\<close>

theorem shared_backoff_bounds:
  assumes "run_steps shared_step (NewSharedBackend depth now) ls b"
    and "as_se err = Some se" and "\<not> se_Terminal se" and "se_Code se = CodeUpstreamUnavailable"
  shows "\<exists>bo. sh_backoff (recordFailureLocked key err b) key = Some bo \<and>
    1000000000 \<le> bo_delay bo \<and> bo_delay bo \<le> 30000000000 \<and>
    bo_delay bo \<le> bo_until bo - sh_now b \<and> bo_until bo - sh_now b \<le> 30000000000 \<and>
    (\<forall>old. sweep (sh_now b) (sh_backoff b) key = Some old \<and> 0 < bo_delay old \<longrightarrow> bo_delay bo = min (2 * bo_delay old) 30000000000)"
proof -
  obtain bo where bo: "sh_backoff (recordFailureLocked key err b) = (sweep (sh_now b) (sh_backoff b))(key \<mapsto> bo)"
    "bo_delay bo = bo_delay (next_backoff (sweep (sh_now b) (sh_backoff b) key))"
    "sharedRetryMin \<le> bo_delay bo" "bo_delay bo \<le> sharedRetryMax" "sh_now b + bo_delay bo \<le> bo_until bo" "bo_until bo \<le> sh_now b + sharedRetryMax"
    using recordFailure_entry [OF reachable_inv(2) [OF assms(1)] assms(2-4), of key] by blast
  then show ?thesis
    by (intro exI [of _ bo]) (auto simp: sharedRetryMin_def sharedRetryMax_def next_backoff_def)
qed

text \<open>The hint of \<open>2^63 - 1\<close> milliseconds wraps to a negative duration and is ignored.\<close>

theorem shared_backoff_bounds_witness:
  "wrap64 ((2 ^ 63 - 1) * 1000000) < 0 \<and>
   (\<exists>bo. sh_backoff (recordFailureLocked ''k'' (ErrStream (StreamError CodeUpstreamUnavailable [] False (Some (2 ^ 63 - 1)) None))
      (NewSharedBackend 0 0)) ''k'' = Some bo \<and> 1000000000 \<le> bo_delay bo \<and> bo_until bo \<le> 30000000000)"
proof
  show "wrap64 ((2 ^ 63 - 1) * 1000000) < 0" by code_simp
  have n: "sh_now (NewSharedBackend 0 0) = 0" by (simp add: NewSharedBackend_def)
  from shared_backoff_bounds [OF run_refl, of "ErrStream (StreamError CodeUpstreamUnavailable [] False (Some (2 ^ 63 - 1)) None)" _ "''k''" 0 0]
  show "\<exists>bo. sh_backoff (recordFailureLocked ''k'' (ErrStream (StreamError CodeUpstreamUnavailable [] False (Some (2 ^ 63 - 1)) None))
      (NewSharedBackend 0 0)) ''k'' = Some bo \<and> 1000000000 \<le> bo_delay bo \<and> bo_until bo \<le> 30000000000"
    unfolding n by (auto simp: as_se_def)
qed

text \<open>A slow consumer hurts only itself.  When an event is fanned out, an open subscriber with
  a full queue is ended with an error that the stream loop recovers from by a new snapshot on
  the same connection, and every other open subscriber that had its snapshot and has room
  gets the event at the end of its queue.\<close>

theorem shared_overflow_isolated:
  assumes "run_steps shared_step (NewSharedBackend depth now) ls b" and "m < length (sh_heap b)"
    and "n \<in> set (ss_subs (sh_heap b ! m))" and "\<not> sb_closed (sh_sub b ! n)" and "\<not> sb_awaiting (sh_sub b ! n)"
  shows "(int (length (sb_ch (sh_sub b ! n))) = sh_depth b \<longrightarrow>
      (\<exists>err. sh_sub (fanOutLocked m ev b) ! n = (sh_sub b ! n)\<lparr>sb_closed := True, sb_reason := Some err\<rparr> \<and> recoverable err = Some True)) \<and>
    (int (length (sb_ch (sh_sub b ! n))) \<noteq> sh_depth b \<longrightarrow>
      sh_sub (fanOutLocked m ev b) ! n = (sh_sub b ! n)\<lparr>sb_ch := sb_ch (sh_sub b ! n) @ [ev]\<rparr>)"
proof -
  note inv = reachable_inv [OF assms(1)]
  have n: "n < length (sh_sub b)" using scope_subs_disjoint(1) [OF inv(1) assms(2,3)] .
  have le: "int (length (sb_ch (sh_sub b ! n))) \<le> sh_depth b" using viewsD(3) [OF inv(3) n] .
  have "distinct (ss_subs (sh_heap b ! m))" using registryD(3) [OF inv(1) assms(2)] by (simp add: scope_ok_def Let_def)
  from fan_sub [OF this, of ev] have "sh_sub (fanOutLocked m ev b) ! n = fanned (sh_depth b) ev (sh_sub b ! n)" using n assms(3) by simp
  moreover have "recoverable overflowError = Some True" by (simp add: overflowError_def recoverable_def as_se_def)
  ultimately show ?thesis using le assms(4,5) by (auto simp: fanned_def offered_def)
qed

theorem shared_overflow_isolated_witness:
  "\<exists>ls b err. run_steps shared_step (NewSharedBackend 1 0) ls b \<and>
     sb_reason (sh_sub (fanOutLocked 0 (added_event sample_pod) b) ! 0) = Some err \<and> recoverable err = Some True"
proof -
  let ?as = "sample_acts @ [PumpNext 0 (NextEvent (added_event sample_pod))]"
  have "case acts ?as (NewSharedBackend 1 0) of None \<Rightarrow> False | Some b \<Rightarrow>
      0 < length (sh_heap b) \<and> 0 \<in> set (ss_subs (sh_heap b ! 0)) \<and> \<not> sb_closed (sh_sub b ! 0) \<and> \<not> sb_awaiting (sh_sub b ! 0) \<and>
      int (length (sb_ch (sh_sub b ! 0))) = sh_depth b" by code_simp
  then obtain b where b: "acts ?as (NewSharedBackend 1 0) = Some b" "0 < length (sh_heap b)" "0 \<in> set (ss_subs (sh_heap b ! 0))"
    "\<not> sb_closed (sh_sub b ! 0)" "\<not> sb_awaiting (sh_sub b ! 0)" "int (length (sb_ch (sh_sub b ! 0))) = sh_depth b"
    by (auto split: option.splits)
  obtain ls where ls: "run_steps shared_step (NewSharedBackend 1 0) ls b" using acts_reachable [OF b(1)] by blast
  from shared_overflow_isolated [OF ls b(2-5), of "added_event sample_pod"] b(6) obtain err where
    "sh_sub (fanOutLocked 0 (added_event sample_pod) b) ! 0 = (sh_sub b ! 0)\<lparr>sb_closed := True, sb_reason := Some err\<rparr>" "recoverable err = Some True"
    by blast
  then show ?thesis using ls by (intro exI [of _ ls] exI [of _ b] exI [of _ err]) simp
qed

lemma sep_inj: "c \<notin> set x \<Longrightarrow> c \<notin> set y \<Longrightarrow> x @ c # r = y @ c # r' \<longleftrightarrow> x = y \<and> r = r'"
proof (induction x arbitrary: y)
  case Nil
  then show ?case by (cases y) auto
next
  case (Cons a x)
  then show ?case by (cases y) auto
qed

definition plain_scope :: "Scope \<Rightarrow> bool" where
  "plain_scope s \<longleftrightarrow> CHR 0x1F \<notin> set (sc_Target s @ sc_Group s @ sc_Version s @ sc_Resource s @ sc_Namespace s @ sc_Name s)"

text \<open>Scope keys.  Two scopes share an upstream only when they are the same scope: the key is
  injective as soon as the separator does not occur before the label selector, which alone may
  contain it.\<close>

theorem scopeKey_injective:
  assumes "plain_scope s" and "plain_scope t"
  shows "scopeKey s = scopeKey t \<longleftrightarrow> s = t"
  using assms by (auto simp: scopeKey_def plain_scope_def sep_inj intro!: Scope.equality)

theorem scopeKey_injective_witness:
  "scopeKey sample_scope \<noteq> scopeKey (sample_scope\<lparr>sc_LabelSelector := [CHR 0x1F]\<rparr>)"
  using scopeKey_injective [of sample_scope "sample_scope\<lparr>sc_LabelSelector := [CHR 0x1F]\<rparr>"]
  by (simp add: plain_scope_def sample_scope_def)

end
