(* ===== verification/Kube.thy ===== *)
theory Kube
  imports Stream_Loop
begin

text \<open>
  The Kubernetes adapter, \<open>gateway/kube/backend.go\<close>: how a watch is opened (the streaming
  list, the refusal it falls back on, list then watch), how watch events become gateway events,
  and how API-server failures become stream errors.

  The Kubernetes libraries are parameters: \<open>api\<close> holds the predicates of apimachinery and
  of the network packages on an error, and \<open>client\<close> answers list and watch requests.
\<close>

section \<open>The libraries\<close>

text \<open>\<open>metav1.Status\<close>: the fields the adapter reads; the causes are pairs of field and message.\<close>

record Status =
  st_Code :: int
  st_Message :: string
  st_Causes :: "(string \<times> string) list option"

text \<open>
  \<open>ap_APIStatus\<close> is \<open>errors.As\<close> to an \<open>APIStatus\<close> with its \<open>Status()\<close>; the other
  fields carry the names of the functions they stand for, and \<open>ap_as_\<close> those of the
  certificate and network error types that \<open>errors.As\<close> looks for.
\<close>

record api =
  ap_APIStatus :: "go_error \<Rightarrow> Status option"
  ap_Error :: "go_error \<Rightarrow> string"
  ap_IsInvalid :: "go_error \<Rightarrow> bool"
  ap_IsBadRequest :: "go_error \<Rightarrow> bool"
  ap_IsForbidden :: "go_error \<Rightarrow> bool"
  ap_IsResourceExpired :: "go_error \<Rightarrow> bool"
  ap_IsGone :: "go_error \<Rightarrow> bool"
  ap_IsUnauthorized :: "go_error \<Rightarrow> bool"
  ap_IsNotFound :: "go_error \<Rightarrow> bool"
  ap_IsTooManyRequests :: "go_error \<Rightarrow> bool"
  ap_SuggestsClientDelay :: "go_error \<Rightarrow> int option"
  ap_IsServerTimeout :: "go_error \<Rightarrow> bool"
  ap_IsTimeout :: "go_error \<Rightarrow> bool"
  ap_as_certInvalid :: "go_error \<Rightarrow> bool"
  ap_as_unknownAuthority :: "go_error \<Rightarrow> bool"
  ap_as_hostname :: "go_error \<Rightarrow> bool"
  ap_as_verification :: "go_error \<Rightarrow> bool"
  ap_as_netErr :: "go_error \<Rightarrow> bool"
  ap_IsConnectionRefused :: "go_error \<Rightarrow> bool"
  ap_IsConnectionReset :: "go_error \<Rightarrow> bool"
  ap_IsProbableEOF :: "go_error \<Rightarrow> bool"
  ap_FromObject :: "Status \<Rightarrow> go_error"
  ap_GetAnnotations :: "KRMObject \<Rightarrow> string gmap"
  ap_InitialEventsAnnotationKey :: string

text \<open>A watch channel: the events it will deliver, and whether it is closed after them.\<close>

datatype kube_object = Unstructured KRMObject | StatusObject Status | OtherObject string

datatype kube_type = KubeAdded | KubeModified | KubeDeleted | KubeBookmark | KubeError | KubeOther string

record kube_event =
  ke_Type :: kube_type
  ke_Object :: kube_object

type_synonym chan = "kube_event list \<times> bool"

record ListOptions =
  lo_LabelSelector :: string
  lo_FieldSelector :: string
  lo_AllowWatchBookmarks :: bool
  lo_SendInitialEvents :: "bool option"
  lo_ResourceVersionMatch :: string
  lo_ResourceVersion :: string

text \<open>A \<open>dynamic.ResourceInterface\<close>: group, version, resource, and the namespace if one was selected.\<close>

type_synonym resource_ref = "string \<times> string \<times> string \<times> string option"

record client =
  cl_List :: "resource_ref \<Rightarrow> ListOptions \<Rightarrow> go_error + string \<times> KRMObject list"
  cl_Watch :: "resource_ref \<Rightarrow> ListOptions \<Rightarrow> go_error + chan"

section \<open>Errors\<close>

definition ErrRedirectRefused :: go_error where
  "ErrRedirectRefused = ErrSentinel ''krm-stream/kube: the API server answered with a redirect, which is refused''"

definition withCause :: "StreamError \<Rightarrow> go_error \<Rightarrow> StreamError" where
  "withCause se cause = with_cause se cause"

definition unavailable :: "api \<Rightarrow> go_error \<Rightarrow> bool" where
  "unavailable ap err =
     (if ap_as_certInvalid ap err \<or> ap_as_unknownAuthority ap err \<or> ap_as_hostname ap err \<or> ap_as_verification ap err
      then False
      else ap_as_netErr ap err \<or> ap_IsConnectionRefused ap err \<or> ap_IsConnectionReset ap err \<or> ap_IsProbableEOF ap err)"

definition classifyStatus :: "api \<Rightarrow> go_error \<Rightarrow> StreamError option" where
  "classifyStatus ap err =
     (case ap_APIStatus ap err of
        None \<Rightarrow> None
      | Some status \<Rightarrow>
          if ap_IsResourceExpired ap err \<or> ap_IsGone ap err then
            Some (withCause (ResyncRequired ''the upstream resourceVersion expired (410 Gone)'') err)
          else if ap_IsUnauthorized ap err then
            Some (withCause (Unauthenticated ''the API server rejected the caller's credential'') err)
          else if ap_IsForbidden ap err then
            Some (withCause (Forbidden (if st_Message status = [] then ''the API server refused this watch'' else st_Message status)) err)
          else if ap_IsNotFound ap err then
            Some (withCause (ScopeInvalid ''the API server does not serve this resource at this version'') err)
          else if ap_IsTooManyRequests ap err then
            Some (withCause (UpstreamUnavailable ''the API server is overloaded''
              (case ap_SuggestsClientDelay ap err of None \<Rightarrow> 0 | Some seconds \<Rightarrow> seconds * 1000000000)) err)
          else if st_Code status \<ge> 500 \<or> ap_IsServerTimeout ap err \<or> ap_IsTimeout ap err then
            Some (withCause (UpstreamUnavailable ''the API server is unavailable'' 0) err)
          else None)"

text \<open>An error of the client libraries holds no nil \<open>*StreamError\<close>, so \<open>errors.Is\<close> returns.\<close>

definition is_redirect :: "go_error \<Rightarrow> bool" where
  "is_redirect err \<longleftrightarrow> errors_Is err ErrRedirectRefused = Some True"

definition classify :: "api \<Rightarrow> go_error \<Rightarrow> go_error" where
  "classify ap err =
     (if is_redirect err then
        ErrStream (withCause (StreamError CodeInternal
          ''the API server answered with a redirect, which this gateway refuses to follow'' True None None) err)
      else case classifyStatus ap err of
        Some se \<Rightarrow> ErrStream se
      | None \<Rightarrow>
          if unavailable ap err then ErrStream (withCause (UpstreamUnavailable ''the API server is unavailable'' 0) err)
          else err)"

definition strings_Contains :: "string \<Rightarrow> string \<Rightarrow> bool" where
  "strings_Contains s sub = list_ex (prefix sub) (suffixes s)"

definition isSendInitialEventsRefused :: "api \<Rightarrow> go_error \<Rightarrow> bool" where
  "isSendInitialEventsRefused ap err =
     (if \<not> ap_IsInvalid ap err \<and> \<not> ap_IsBadRequest ap err \<and> \<not> ap_IsForbidden ap err then False
      else if (case ap_APIStatus ap err of
                 None \<Rightarrow> False
               | Some status \<Rightarrow>
                   (case st_Causes status of
                      None \<Rightarrow> False
                    | Some causes \<Rightarrow>
                        list_ex (\<lambda>(field, message). strings_Contains field ''sendInitialEvents'' \<or>
                           strings_Contains message ''sendInitialEvents'') causes))
      then True
      else strings_Contains (ap_Error ap err) ''sendInitialEvents'')"

section \<open>Watch events\<close>

text \<open>
  \<open>strconv.Quote\<close> on ASCII, which is what Kubernetes' event types and resource versions
  are; other bytes stand for themselves.
\<close>

definition go_quote_char :: "char \<Rightarrow> string" where
  "go_quote_char c =
     (if c = dquote \<or> c = backslash then [backslash, c]
      else if c = CHR 0x07 then [backslash, CHR ''a'']
      else if c = CHR 0x08 then [backslash, CHR ''b'']
      else if c = CHR 0x0C then [backslash, CHR ''f'']
      else if c = CHR 0x0A then [backslash, CHR ''n'']
      else if c = CHR 0x0D then [backslash, CHR ''r'']
      else if c = CHR 0x09 then [backslash, CHR ''t'']
      else if c = CHR 0x0B then [backslash, CHR ''v'']
      else if c < CHR 0x20 \<or> c = CHR 0x7F then
        [backslash, CHR ''x'', hex_digit (of_char c div 16), hex_digit (of_char c mod 16)]
      else [c])"

definition go_quote :: "string \<Rightarrow> string" where
  "go_quote s = [dquote] @ concat (map go_quote_char s) @ [dquote]"

definition go_type :: "kube_object \<Rightarrow> string" where
  "go_type obj =
     (case obj of Unstructured _ \<Rightarrow> ''*unstructured.Unstructured'' | StatusObject _ \<Rightarrow> ''*v1.Status'' | OtherObject t \<Rightarrow> t)"

fun kube_type_name :: "kube_type \<Rightarrow> string" where
  "kube_type_name KubeAdded = ''ADDED''"
| "kube_type_name KubeModified = ''MODIFIED''"
| "kube_type_name KubeDeleted = ''DELETED''"
| "kube_type_name KubeBookmark = ''BOOKMARK''"
| "kube_type_name KubeError = ''ERROR''"
| "kube_type_name (KubeOther s) = s"

definition watchError :: "api \<Rightarrow> kube_object \<Rightarrow> go_error" where
  "watchError ap obj =
     (case obj of
        StatusObject status \<Rightarrow>
          (let cause = ErrWrap ''krm-stream/kube: watch error event'' (ap_FromObject ap status) in
           case classifyStatus ap cause of
             Some se \<Rightarrow> ErrStream se
           | None \<Rightarrow> ErrStream (withCause (ResyncRequired ''upstream watch error; a new snapshot cycle follows'') cause))
      | _ \<Rightarrow> ErrStream (ResyncRequired (''upstream watch error carrying '' @ go_type obj)))"

definition watch_event :: "WatchEventType \<Rightarrow> KRMObject \<Rightarrow> WatchEvent" where
  "watch_event t obj = \<lparr>we_Type = t, we_Object = obj, we_InitialEventsEnd = False, we_Err = None\<rparr>"

definition translate :: "api \<Rightarrow> kube_event \<Rightarrow> NextResult" where
  "translate ap ev =
     (if ke_Type ev = KubeError then NextEvent ((watch_event WatchError [])\<lparr>we_Err := Some (watchError ap (ke_Object ev))\<rparr>)
      else case ke_Object ev of
        Unstructured obj \<Rightarrow>
          (case ke_Type ev of
             KubeAdded \<Rightarrow> NextEvent (watch_event WatchAdded obj)
           | KubeModified \<Rightarrow> NextEvent (watch_event WatchModified obj)
           | KubeDeleted \<Rightarrow> NextEvent (watch_event WatchDeleted obj)
           | KubeBookmark \<Rightarrow>
               NextEvent ((watch_event WatchBookmark obj)
                 \<lparr>we_InitialEventsEnd := (map_of (ap_GetAnnotations ap obj) (ap_InitialEventsAnnotationKey ap) = Some ''true'')\<rparr>)
           | KubeError \<Rightarrow> NextEvent ((watch_event WatchError [])\<lparr>we_Err := Some (watchError ap (ke_Object ev))\<rparr>)
           | KubeOther t \<Rightarrow> NextErr (ErrText (''krm-stream/kube: unknown watch event type '' @ go_quote t)))
      | obj \<Rightarrow> NextErr (ErrText (''krm-stream/kube: '' @ kube_type_name (ke_Type ev) @ '' event carried '' @ go_type obj @
          '', not an object'')))"

text \<open>
  The two watchers.  \<open>Next\<close> blocks (\<open>None\<close>) on an open channel with nothing in it; where
  \<open>select\<close> finds both the context done and an event ready, \<open>prefer_ctx\<close> says which it took.
\<close>

datatype kube_watcher = ChannelWatcher chan | PrologueWatcher "WatchEvent list" chan

definition channel_Next :: "api \<Rightarrow> go_error option \<Rightarrow> bool \<Rightarrow> chan \<Rightarrow> NextResult option \<times> chan" where
  "channel_Next ap ctx prefer_ctx c =
     (case (ctx, c) of
        (Some err, ([], False)) \<Rightarrow> (Some (NextErr err), c)
      | (None, ([], False)) \<Rightarrow> (None, c)
      | (_, ([], True)) \<Rightarrow>
          (case ctx of
             Some err \<Rightarrow> (Some (NextErr (if prefer_ctx then err else ErrWatchClosed)), c)
           | None \<Rightarrow> (Some (NextErr ErrWatchClosed), c))
      | (_, (ev # evs, closed)) \<Rightarrow>
          (case ctx of
             Some err \<Rightarrow> (if prefer_ctx then (Some (NextErr err), c) else (Some (translate ap ev), (evs, closed)))
           | None \<Rightarrow> (Some (translate ap ev), (evs, closed))))"

fun kube_Next :: "api \<Rightarrow> go_error option \<Rightarrow> bool \<Rightarrow> kube_watcher \<Rightarrow> NextResult option \<times> kube_watcher" where
  "kube_Next ap ctx prefer_ctx (ChannelWatcher c) =
     (case channel_Next ap ctx prefer_ctx c of (r, c') \<Rightarrow> (r, ChannelWatcher c'))"
| "kube_Next ap ctx prefer_ctx (PrologueWatcher queue c) =
     (case ctx of
        Some err \<Rightarrow> (Some (NextErr err), PrologueWatcher queue c)
      | None \<Rightarrow>
          (case queue of
             ev # evs \<Rightarrow> (Some (NextEvent ev), PrologueWatcher evs c)
           | [] \<Rightarrow> (case channel_Next ap ctx prefer_ctx c of (r, c') \<Rightarrow> (r, PrologueWatcher [] c'))))"

section \<open>The backend\<close>

text \<open>\<open>kb_listThenWatch\<close> is the memory of the group versions that refused a streaming list.\<close>

record kube_backend =
  kb_client :: client
  kb_host :: string
  kb_listThenWatch :: "string \<times> string \<Rightarrow> bool"

definition NewBackend :: "client \<Rightarrow> kube_backend" where
  "NewBackend c = \<lparr>kb_client = c, kb_host = [], kb_listThenWatch = (\<lambda>gv. False)\<rparr>"

text \<open>
  An HTTP client by what it does with a redirect: \<open>None\<close> follows it.  \<open>rest.HTTPClientFor\<close>
  and \<open>dynamic.NewForConfigAndClient\<close> are arguments.
\<close>

record http_client =
  hc_transport :: nat
  hc_CheckRedirect :: "go_error option"

definition HTTPClientFor :: "('c \<Rightarrow> go_error + http_client) \<Rightarrow> 'c \<Rightarrow> go_error + http_client" where
  "HTTPClientFor rest_HTTPClientFor cfg =
     (case rest_HTTPClientFor cfg of
        Inl err \<Rightarrow> Inl err
      | Inr shared \<Rightarrow> Inr (shared\<lparr>hc_CheckRedirect := Some ErrRedirectRefused\<rparr>))"

definition NewBackendForConfig ::
    "(string \<Rightarrow> go_error + http_client) \<Rightarrow> (string \<Rightarrow> http_client \<Rightarrow> go_error + client) \<Rightarrow> string \<Rightarrow> go_error + kube_backend" where
  "NewBackendForConfig rest_HTTPClientFor newForConfigAndClient host =
     (case HTTPClientFor rest_HTTPClientFor host of
        Inl err \<Rightarrow> Inl (ErrWrap (''krm-stream/kube: HTTP client for '' @ host) err)
      | Inr httpClient \<Rightarrow>
          (case newForConfigAndClient host httpClient of
             Inl err \<Rightarrow> Inl (ErrWrap (''krm-stream/kube: dynamic client for '' @ host) err)
           | Inr c \<Rightarrow> Inr ((NewBackend c)\<lparr>kb_host := host\<rparr>)))"

definition TrimSuffix_slash :: "string \<Rightarrow> string" where
  "TrimSuffix_slash s = (if s \<noteq> [] \<and> last s = CHR ''/'' then butlast s else s)"

definition upstream :: "kube_backend \<Rightarrow> Scope \<Rightarrow> string" where
  "upstream b scope =
     (let path = (if sc_Group scope \<noteq> [] then ''/apis/'' @ sc_Group scope @ ''/'' @ sc_Version scope
                  else ''/api/'' @ sc_Version scope);
          path = (if sc_Namespace scope \<noteq> [] then path @ ''/namespaces/'' @ sc_Namespace scope else path);
          path = path @ ''/'' @ sc_Resource scope
      in if kb_host b = [] then path else TrimSuffix_slash (kb_host b) @ path)"

definition selectors :: "Scope \<Rightarrow> ListOptions" where
  "selectors scope =
     \<lparr>lo_LabelSelector = sc_LabelSelector scope,
      lo_FieldSelector = (if sc_Name scope \<noteq> [] then ''metadata.name='' @ sc_Name scope else []),
      lo_AllowWatchBookmarks = False, lo_SendInitialEvents = None, lo_ResourceVersionMatch = [], lo_ResourceVersion = []\<rparr>"

definition streamingListOptions :: "Scope \<Rightarrow> ListOptions" where
  "streamingListOptions scope =
     (selectors scope)\<lparr>lo_AllowWatchBookmarks := True, lo_SendInitialEvents := Some True,
        lo_ResourceVersionMatch := ''NotOlderThan'', lo_ResourceVersion := []\<rparr>"

definition resourceFor :: "Scope \<Rightarrow> resource_ref" where
  "resourceFor scope =
     (sc_Group scope, sc_Version scope, sc_Resource scope,
      if sc_Namespace scope = [] then None else Some (sc_Namespace scope))"

definition gv_of :: "Scope \<Rightarrow> string \<times> string" where
  "gv_of scope = (sc_Group scope, sc_Version scope)"

definition prefersListThenWatch :: "kube_backend \<Rightarrow> string \<times> string \<Rightarrow> bool" where
  "prefersListThenWatch b gv = kb_listThenWatch b gv"

definition rememberListThenWatch :: "string \<times> string \<Rightarrow> kube_backend \<Rightarrow> kube_backend" where
  "rememberListThenWatch gv b = b\<lparr>kb_listThenWatch := (kb_listThenWatch b)(gv := True)\<rparr>"

definition resumeOptions :: "Scope \<Rightarrow> string \<Rightarrow> ListOptions" where
  "resumeOptions scope rv = (selectors scope)\<lparr>lo_AllowWatchBookmarks := True, lo_ResourceVersion := rv\<rparr>"

definition listed_snapshot :: "KRMObject list \<Rightarrow> WatchEvent list" where
  "listed_snapshot items =
     map (watch_event WatchAdded) items @ [(watch_event WatchBookmark [])\<lparr>we_InitialEventsEnd := True\<rparr>]"

definition listThenWatchStream :: "api \<Rightarrow> kube_backend \<Rightarrow> Scope \<Rightarrow> go_error + kube_watcher" where
  "listThenWatchStream ap b scope =
     (case cl_List (kb_client b) (resourceFor scope) (selectors scope) of
        Inl err \<Rightarrow> Inl (classify ap (ErrWrap (''krm-stream/kube: list '' @ upstream b scope) err))
      | Inr (rv, items) \<Rightarrow>
          (case cl_Watch (kb_client b) (resourceFor scope) (resumeOptions scope rv) of
             Inl err \<Rightarrow> Inl (classify ap (ErrWrap (''krm-stream/kube: watch '' @ upstream b scope @
               '' from resourceVersion '' @ go_quote rv) err))
           | Inr c \<Rightarrow> Inr (PrologueWatcher (listed_snapshot items) c)))"

definition kube_Watch :: "api \<Rightarrow> kube_backend \<Rightarrow> Scope \<Rightarrow> (go_error + kube_watcher) \<times> kube_backend" where
  "kube_Watch ap b scope =
     (let gv = gv_of scope in
      if prefersListThenWatch b gv then (listThenWatchStream ap b scope, b)
      else case cl_Watch (kb_client b) (resourceFor scope) (streamingListOptions scope) of
        Inr c \<Rightarrow> (Inr (ChannelWatcher c), b)
      | Inl err \<Rightarrow>
          (if \<not> isSendInitialEventsRefused ap err
           then (Inl (classify ap (ErrWrap (''krm-stream/kube: streaming list for '' @ upstream b scope) err)), b)
           else (let b = rememberListThenWatch gv b in (listThenWatchStream ap b scope, b))))"

section \<open>Lemmas\<close>

subsection \<open>The two ways in\<close>

text \<open>The results of the next \<open>n\<close> calls of \<open>Next\<close>, up to one that blocks.\<close>

fun pull :: "api \<Rightarrow> nat \<Rightarrow> kube_watcher \<Rightarrow> NextResult list" where
  "pull ap 0 w = []"
| "pull ap (Suc n) w =
     (case kube_Next ap None False w of (None, _) \<Rightarrow> [] | (Some r, w') \<Rightarrow> r # pull ap n w')"

text \<open>Results that the stream loop treats alike: bookmarks that agree on the boundary.\<close>

definition indistinct :: "NextResult \<Rightarrow> NextResult \<Rightarrow> bool" where
  "indistinct r r' \<longleftrightarrow> r = r' \<or>
     (\<exists>e e'. r = NextEvent e \<and> r' = NextEvent e' \<and> we_Type e = WatchBookmark \<and> we_Type e' = WatchBookmark \<and>
        we_InitialEventsEnd e = we_InitialEventsEnd e')"

lemma cycle_step_indistinct: "indistinct r r' \<Longrightarrow> cycle_step g emit r mk w = cycle_step g emit r' mk w"
  by (auto simp: indistinct_def cycle_step_def on_bookmark_def)

lemma cycle_loop_indistinct:
  "list_all2 indistinct rs rs' \<Longrightarrow> cycle_loop g emit rs mk w = cycle_loop g emit rs' mk w"
  by (induction arbitrary: mk w rule: list_all2_induct) (auto simp: cycle_step_indistinct split: turn.split)

lemma cycle_indistinct: "list_all2 indistinct rs rs' \<Longrightarrow> cycle g emit (Inr rs) w = cycle g emit (Inr rs') w"
  by (auto simp: cycle_def Let_def split: prod.split option.split
      intro!: arg_cong [of _ _ stop_watch] cycle_loop_indistinct)

lemma pull_drained: "pull ap n (PrologueWatcher [] c) = pull ap n (ChannelWatcher c)"
proof (induction n arbitrary: c)
  case (Suc n)
  obtain r c' where "channel_Next ap None False c = (r, c')" by (cases "channel_Next ap None False c")
  then show ?case by (simp add: Suc split: option.split)
qed simp

lemma indistinct_refl: "list_all2 indistinct rs rs"
  by (simp add: list_all2_refl indistinct_def)

definition added :: "KRMObject \<Rightarrow> kube_event" where
  "added obj = \<lparr>ke_Type = KubeAdded, ke_Object = Unstructured obj\<rparr>"

text \<open>The bookmark with which an API server ends the initial events of a streaming list.\<close>

definition boundary :: "api \<Rightarrow> kube_event \<Rightarrow> bool" where
  "boundary ap ev \<longleftrightarrow> ke_Type ev = KubeBookmark \<and>
     (\<exists>obj. ke_Object ev = Unstructured obj \<and>
        map_of (ap_GetAnnotations ap obj) (ap_InitialEventsAnnotationKey ap) = Some ''true'')"

lemma pull_snapshot:
  assumes "boundary ap bk"
  shows "list_all2 indistinct (pull ap n (ChannelWatcher (map added items @ bk # live, closed)))
    (pull ap n (PrologueWatcher (listed_snapshot items) (live, closed)))"
proof (induction items arbitrary: n)
  case Nil
  obtain obj where bk: "ke_Type bk = KubeBookmark" "ke_Object bk = Unstructured obj"
    "map_of (ap_GetAnnotations ap obj) (ap_InitialEventsAnnotationKey ap) = Some ''true''"
    using assms by (auto simp: boundary_def)
  then have "indistinct (translate ap bk) (NextEvent ((watch_event WatchBookmark [])\<lparr>we_InitialEventsEnd := True\<rparr>))"
    by (simp add: indistinct_def translate_def watch_event_def)
  then show ?case
    by (cases n) (simp_all add: listed_snapshot_def channel_Next_def pull_drained indistinct_refl)
next
  case (Cons obj items)
  show ?case
  proof (cases n)
    case (Suc m)
    have "translate ap (added obj) = NextEvent (watch_event WatchAdded obj)"
      by (simp add: translate_def added_def)
    then show ?thesis using Cons [of m] Suc
      by (simp add: listed_snapshot_def channel_Next_def indistinct_def)
  qed simp
qed

section \<open>Properties\<close>

text \<open>C22. The fallback is transparent.  Take a server that serves the streaming list (the objects
  as added events, the boundary bookmark, then live events) and one that refuses it but lists
  the same objects and, watched from exactly the list's resource version, delivers the same
  live events.  Then a watch opens on both, a snapshot cycle does the same with either for any
  sink, and the refusal is remembered for that group version alone, so that the next watch of
  it lists at once.\<close>

theorem kube_fallback_transparent:
  assumes streams: "cl_Watch (kb_client b) (resourceFor scope) (streamingListOptions scope) =
      Inr (map added items @ bk # live, closed)"
    and boundary: "boundary ap bk"
    and refuses: "cl_Watch (kb_client b') (resourceFor scope) (streamingListOptions scope) = Inl err"
      "isSendInitialEventsRefused ap err"
    and lists: "cl_List (kb_client b') (resourceFor scope) (selectors scope) = Inr (rv, items)"
    and resumes: "cl_Watch (kb_client b') (resourceFor scope) (resumeOptions scope rv) = Inr (live, closed)"
    and fresh: "\<not> kb_listThenWatch b (gv_of scope)" "\<not> kb_listThenWatch b' (gv_of scope)"
  shows "\<exists>w w' b''. kube_Watch ap b scope = (Inr w, b) \<and> kube_Watch ap b' scope = (Inr w', b'') \<and>
    (\<forall>n. cycle g emit (Inr (pull ap n w)) world = cycle g emit (Inr (pull ap n w')) world) \<and>
    {gv. kb_listThenWatch b'' gv} = insert (gv_of scope) {gv. kb_listThenWatch b' gv} \<and>
    kube_Watch ap b'' scope = (Inr w', b'')"
proof -
  let ?w = "ChannelWatcher (map added items @ bk # live, closed)"
  let ?w' = "PrologueWatcher (listed_snapshot items) (live, closed)"
  let ?b = "rememberListThenWatch (gv_of scope) b'"
  have "kube_Watch ap b scope = (Inr ?w, b)"
    using streams fresh(1) by (simp add: kube_Watch_def prefersListThenWatch_def)
  moreover have "kube_Watch ap b' scope = (Inr ?w', ?b)" "kube_Watch ap ?b scope = (Inr ?w', ?b)"
    using refuses lists resumes fresh(2)
    by (simp_all add: kube_Watch_def prefersListThenWatch_def rememberListThenWatch_def listThenWatchStream_def)
  moreover have "cycle g emit (Inr (pull ap n ?w)) world = cycle g emit (Inr (pull ap n ?w')) world" for n
    by (rule cycle_indistinct [OF pull_snapshot [OF boundary]])
  moreover have "{gv. kb_listThenWatch ?b gv} = insert (gv_of scope) {gv. kb_listThenWatch b' gv}"
    by (auto simp: rememberListThenWatch_def)
  ultimately show ?thesis by blast
qed

text \<open>A concrete library and two servers with one ConfigMap, one of which refuses the streaming list.\<close>

definition sample_api :: api where
  "sample_api =
     (let no = (\<lambda>err. False) in
      \<lparr>ap_APIStatus = (\<lambda>err. Some \<lparr>st_Code = 422, st_Message = [], st_Causes = Some [(''sendInitialEvents'', ''forbidden'')]\<rparr>),
       ap_Error = (\<lambda>err. []), ap_IsInvalid = (\<lambda>err. True), ap_IsBadRequest = no, ap_IsForbidden = no,
       ap_IsResourceExpired = no, ap_IsGone = no, ap_IsUnauthorized = no, ap_IsNotFound = no, ap_IsTooManyRequests = no,
       ap_SuggestsClientDelay = (\<lambda>err. None), ap_IsServerTimeout = no, ap_IsTimeout = no, ap_as_certInvalid = no,
       ap_as_unknownAuthority = no, ap_as_hostname = no, ap_as_verification = no, ap_as_netErr = no,
       ap_IsConnectionRefused = no, ap_IsConnectionReset = no, ap_IsProbableEOF = no,
       ap_FromObject = (\<lambda>st. ErrText (st_Message st)),
       ap_GetAnnotations = (\<lambda>obj. [(''k8s.io/initial-events-end'', str_field obj ''end'')]),
       ap_InitialEventsAnnotationKey = ''k8s.io/initial-events-end''\<rparr>)"

definition sample_item :: KRMObject where
  "sample_item = [(''kind'', JStr ''ConfigMap''),
     (''metadata'', JObj [(''uid'', JStr ''u1''), (''resourceVersion'', JStr ''7'')])]"

definition sample_boundary :: kube_event where
  "sample_boundary = \<lparr>ke_Type = KubeBookmark, ke_Object = Unstructured [(''end'', JStr ''true'')]\<rparr>"

definition sample_server :: "bool \<Rightarrow> client" where
  "sample_server streaming =
     \<lparr>cl_List = (\<lambda>ri o'. Inr (''7'', [sample_item])),
      cl_Watch = (\<lambda>ri o'.
        if lo_SendInitialEvents o' = None then Inr ([], True)
        else if streaming then Inr ([added sample_item, sample_boundary], True)
        else Inl (ErrText ''Invalid value: sendInitialEvents''))\<rparr>"

theorem kube_fallback_transparent_witness:
  "\<exists>w w' b''. kube_Watch sample_api (NewBackend (sample_server True)) sample_scope = (Inr w, NewBackend (sample_server True)) \<and>
    kube_Watch sample_api (NewBackend (sample_server False)) sample_scope = (Inr w', b'') \<and> kb_listThenWatch b'' (gv_of sample_scope) \<and>
    cycle sample_env recorder_Emit (Inr (pull sample_api 5 w)) sample_world =
    cycle sample_env recorder_Emit (Inr (pull sample_api 5 w')) sample_world"
proof -
  have b: "boundary sample_api sample_boundary"
    by (simp add: boundary_def sample_boundary_def sample_api_def Let_def str_field_def)
  have r: "isSendInitialEventsRefused sample_api err" for err
    by (simp add: isSendInitialEventsRefused_def sample_api_def strings_Contains_def Let_def)
  from kube_fallback_transparent [where b = "NewBackend (sample_server True)" and b' = "NewBackend (sample_server False)"
      and scope = sample_scope and items = "[sample_item]" and bk = sample_boundary and live = "[]" and closed = True
      and rv = "''7''" and ap = sample_api and g = sample_env and emit = recorder_Emit and world = sample_world, OF _ b _ r]
  obtain w w' b'' where w: "kube_Watch sample_api (NewBackend (sample_server True)) sample_scope = (Inr w, NewBackend (sample_server True))"
    "kube_Watch sample_api (NewBackend (sample_server False)) sample_scope = (Inr w', b'')"
    "\<forall>n. cycle sample_env recorder_Emit (Inr (pull sample_api n w)) sample_world =
       cycle sample_env recorder_Emit (Inr (pull sample_api n w')) sample_world"
    "{gv. kb_listThenWatch b'' gv} = insert (gv_of sample_scope) {gv. kb_listThenWatch (NewBackend (sample_server False)) gv}"
    by (auto simp: NewBackend_def sample_server_def streamingListOptions_def resumeOptions_def selectors_def)
  then have "kb_listThenWatch b'' (gv_of sample_scope)" by blast
  then show ?thesis using w(1,2,3) by blast
qed

subsection \<open>Failures of the API server\<close>

text \<open>The texts of \<open>classify\<close>: none of them depends on the error, so none names a host or a path.\<close>

definition kube_messages :: "string set" where
  "kube_messages =
     {''the API server answered with a redirect, which this gateway refuses to follow'',
      ''the upstream resourceVersion expired (410 Gone)'', ''the API server rejected the caller's credential'',
      ''the API server refused this watch'', ''the API server does not serve this resource at this version'',
      ''the API server is overloaded'', ''the API server is unavailable'', ''internal error''}"

definition expired :: "api \<Rightarrow> go_error \<Rightarrow> bool" where
  "expired ap err \<longleftrightarrow> \<not> is_redirect err \<and> ap_APIStatus ap err \<noteq> None \<and> (ap_IsResourceExpired ap err \<or> ap_IsGone ap err)"

lemma kube_messages_intros:
  "''the API server answered with a redirect, which this gateway refuses to follow'' \<in> kube_messages"
  "''the upstream resourceVersion expired (410 Gone)'' \<in> kube_messages"
  "''the API server rejected the caller's credential'' \<in> kube_messages"
  "''the API server refused this watch'' \<in> kube_messages"
  "''the API server does not serve this resource at this version'' \<in> kube_messages"
  "''the API server is overloaded'' \<in> kube_messages" "''the API server is unavailable'' \<in> kube_messages"
  "''internal error'' \<in> kube_messages"
  unfolding kube_messages_def by ((rule insertI1 | rule insertI2)+)

text \<open>What \<open>classifyStatus\<close> and \<open>classify\<close> make of an error: it is always the cause.\<close>

definition kube_message :: "api \<Rightarrow> go_error \<Rightarrow> string \<Rightarrow> bool" where
  "kube_message ap err m \<longleftrightarrow> m \<in> kube_messages \<or>
     (\<exists>st. ap_APIStatus ap err = Some st \<and> ap_IsForbidden ap err \<and> m = st_Message st)"

definition kube_verdict :: "api \<Rightarrow> go_error \<Rightarrow> StreamError \<Rightarrow> bool" where
  "kube_verdict ap err se \<longleftrightarrow> se_Cause se = Some err \<and> kube_message ap err (se_Message se) \<and>
     (se_Code se = CodeResyncRequired \<longleftrightarrow> expired ap err) \<and>
     (se_Terminal se \<longleftrightarrow> se_Code se \<notin> {CodeUpstreamUnavailable, CodeResyncRequired})"

lemma kube_message_fixed: "m \<in> kube_messages \<Longrightarrow> kube_message ap err m"
  by (simp add: kube_message_def)

lemmas kube_messages_ok [simp] = kube_messages_intros [THEN kube_message_fixed]

lemma kube_verdict_simp:
  "kube_verdict ap err (StreamError c m t d (Some err)) \<longleftrightarrow> kube_message ap err m \<and>
     (c = CodeResyncRequired \<longleftrightarrow> expired ap err) \<and> (t \<longleftrightarrow> c \<noteq> CodeUpstreamUnavailable \<and> c \<noteq> CodeResyncRequired)"
  by (simp add: kube_verdict_def)

lemma kube_message_forbidden:
  "ap_APIStatus ap err = Some st \<Longrightarrow> ap_IsForbidden ap err \<Longrightarrow> kube_message ap err (st_Message st)"
  by (auto simp: kube_message_def)

lemma classifyStatus_verdict:
  assumes "classifyStatus ap err = Some se" and "\<not> is_redirect err"
  shows "kube_verdict ap err se"
proof -
  obtain st where st: "ap_APIStatus ap err = Some st" using assms(1) by (auto simp: classifyStatus_def split: option.splits)
  note d = classifyStatus_def withCause_def expired_def st
  have se: "se = the (classifyStatus ap err)" using assms(1) by simp
  show ?thesis
  proof (cases "ap_IsResourceExpired ap err \<or> ap_IsGone ap err")
    case True
    then show ?thesis unfolding se using assms(2) by (simp add: d kube_verdict_simp)
  next
    case False
    then have e: "\<not> expired ap err" by (simp add: expired_def)
    consider "ap_IsUnauthorized ap err" | "\<not> ap_IsUnauthorized ap err" "ap_IsForbidden ap err"
      | "\<not> ap_IsUnauthorized ap err" "\<not> ap_IsForbidden ap err" "ap_IsNotFound ap err"
      | "\<not> ap_IsUnauthorized ap err" "\<not> ap_IsForbidden ap err" "\<not> ap_IsNotFound ap err" "ap_IsTooManyRequests ap err"
      | "\<not> ap_IsUnauthorized ap err" "\<not> ap_IsForbidden ap err" "\<not> ap_IsNotFound ap err" "\<not> ap_IsTooManyRequests ap err"
      by blast
    then show ?thesis
    proof cases
      case 2
      then show ?thesis unfolding se using False e kube_message_forbidden [OF st]
        by (cases "st_Message st = []") (simp_all add: d(1,2,4) kube_verdict_simp)
    next
      case 5
      then have "st_Code st \<ge> 500 \<or> ap_IsServerTimeout ap err \<or> ap_IsTimeout ap err"
        using assms(1) False by (simp add: d(1,4) split: if_splits)
      then show ?thesis unfolding se using False 5 e by (simp add: d(1,2,4) kube_verdict_simp)
    qed (unfold se, use False e in \<open>simp_all add: d(1,2,4) kube_verdict_simp\<close>)
  qed
qed

lemma classify_verdict: "kube_verdict ap err se \<or> classify ap err \<noteq> ErrStream se" if "errors_As err = None"
proof (cases "is_redirect err")
  case True
  then have "\<not> expired ap err" by (simp add: expired_def)
  then show ?thesis using True by (auto simp: classify_def kube_verdict_simp withCause_def)
next
  case False
  show ?thesis
  proof (cases "classifyStatus ap err")
    case None
    then have e: "\<not> expired ap err" by (auto simp: classifyStatus_def expired_def split: option.splits)
    have "err \<noteq> ErrStream se" using that by auto
    then show ?thesis using None False e by (auto simp: classify_def kube_verdict_simp withCause_def)
  next
    case (Some t)
    then show ?thesis using classifyStatus_verdict [OF Some False] False by (auto simp: classify_def)
  qed
qed

lemma classify_stream: "(\<exists>se. classify ap err = ErrStream se) \<or> (classify ap err = err \<and> \<not> expired ap err)"
  by (auto simp: classify_def expired_def classifyStatus_def split: option.splits)

lemmas kube_errors = withCause_def with_cause_def ResyncRequired_def Unauthenticated_def Forbidden_def ScopeInvalid_def
  UpstreamUnavailable_def

lemma classify_read:
  assumes "errors_As err = None" and "errors_Is err ErrWatchClosed = Some False"
  shows "recoverable (classify ap err) = Some (expired ap err) \<and> se_Cause (asStreamError (classify ap err)) = Some err \<and>
    (se_Terminal (asStreamError (classify ap err)) \<longleftrightarrow>
       se_Code (asStreamError (classify ap err)) \<notin> {CodeUpstreamUnavailable, CodeResyncRequired}) \<and>
    (se_Message (asStreamError (classify ap err)) \<in> kube_messages \<or>
     (\<exists>st. ap_APIStatus ap err = Some st \<and> ap_IsForbidden ap err \<and>
        se_Message (asStreamError (classify ap err)) = st_Message st))"
proof -
  from classify_stream consider se where "classify ap err = ErrStream se" | "classify ap err = err" "\<not> expired ap err"
    by blast
  then show ?thesis
  proof cases
    case (1 se)
    then show ?thesis using classify_verdict [OF assms(1), of ap se]
      by (auto simp: kube_verdict_def kube_message_def recoverable_def as_se_def asStreamError_def)
  next
    case 2
    then show ?thesis using assms kube_messages_intros(8)
      by (simp add: recoverable_def as_se_def asStreamError_def)
  qed
qed

text \<open>
  The table the client's fate is decided by, over what the API machinery says of an error: an
  answer of the server other than an expired resource version; a refusal of this caller or of
  this resource; a server that cannot answer now.
\<close>

definition answered :: "api \<Rightarrow> go_error \<Rightarrow> bool" where
  "answered ap err \<longleftrightarrow> ap_APIStatus ap err \<noteq> None \<and> \<not> ap_IsResourceExpired ap err \<and> \<not> ap_IsGone ap err"

definition refused :: "api \<Rightarrow> go_error \<Rightarrow> bool" where
  "refused ap err \<longleftrightarrow> answered ap err \<and> (ap_IsUnauthorized ap err \<or> ap_IsForbidden ap err \<or> ap_IsNotFound ap err)"

definition unserved :: "api \<Rightarrow> go_error \<Rightarrow> bool" where
  "unserved ap err \<longleftrightarrow> answered ap err \<and> \<not> refused ap err \<and>
     (ap_IsTooManyRequests ap err \<or> ap_IsServerTimeout ap err \<or> ap_IsTimeout ap err \<or>
      (\<exists>st. ap_APIStatus ap err = Some st \<and> st_Code st \<ge> 500))"

definition refusal_code :: "api \<Rightarrow> go_error \<Rightarrow> ErrorCode \<Rightarrow> bool" where
  "refusal_code ap err c \<longleftrightarrow>
     (c = CodeUnauthenticated \<longleftrightarrow> answered ap err \<and> ap_IsUnauthorized ap err) \<and>
     (c = CodeForbidden \<longleftrightarrow> answered ap err \<and> \<not> ap_IsUnauthorized ap err \<and> ap_IsForbidden ap err) \<and>
     (c = CodeScopeInvalid \<longleftrightarrow>
        answered ap err \<and> \<not> ap_IsUnauthorized ap err \<and> \<not> ap_IsForbidden ap err \<and> ap_IsNotFound ap err)"

text \<open>How long the client is asked to wait.\<close>

definition retry_delay :: "api \<Rightarrow> go_error \<Rightarrow> int option" where
  "retry_delay ap err =
     (if unserved ap err \<and> ap_IsTooManyRequests ap err
      then (case ap_SuggestsClientDelay ap err of Some s \<Rightarrow> if s > 0 then Some (1000 * s) else None | None \<Rightarrow> None)
      else None)"

lemma classifyStatus_None: "classifyStatus ap err = None \<longleftrightarrow>
    ap_APIStatus ap err = None \<or> answered ap err \<and> \<not> refused ap err \<and> \<not> unserved ap err"
  by (cases "ap_APIStatus ap err") (auto simp: classifyStatus_def answered_def refused_def unserved_def)

lemma classifyStatus_code:
  assumes "classifyStatus ap err = Some se"
  shows "refusal_code ap err (se_Code se)" "se_Code se = CodeUpstreamUnavailable \<longleftrightarrow> unserved ap err"
    "se_Code se = CodeResyncRequired \<longleftrightarrow> \<not> answered ap err" "se_RetryAfterMs se = retry_delay ap err"
    "\<not> refused ap err \<Longrightarrow> answered ap err \<Longrightarrow> unserved ap err"
proof -
  obtain st where st: "ap_APIStatus ap err = Some st" using assms by (auto simp: classifyStatus_def split: option.splits)
  note d = answered_def refused_def unserved_def refusal_code_def retry_delay_def st
  note c = assms [unfolded classifyStatus_def st option.case]
  show "refusal_code ap err (se_Code se)" "se_Code se = CodeUpstreamUnavailable \<longleftrightarrow> unserved ap err"
    "se_Code se = CodeResyncRequired \<longleftrightarrow> \<not> answered ap err" "\<not> refused ap err \<Longrightarrow> answered ap err \<Longrightarrow> unserved ap err"
    using c by (auto simp: d kube_errors split: if_splits)
  show "se_RetryAfterMs se = retry_delay ap err"
    using c by (auto simp: d kube_errors split: if_splits option.splits)
qed

lemma watchError_Status:
  assumes "err = ErrWrap ''krm-stream/kube: watch error event'' (ap_FromObject ap status)"
  obtains se where "watchError ap (StatusObject status) = ErrStream se" "se_Cause se = Some err"
    "refusal_code ap err (se_Code se)" "se_Code se = CodeUpstreamUnavailable \<longleftrightarrow> unserved ap err"
    "se_Code se = CodeResyncRequired \<longleftrightarrow> \<not> refused ap err \<and> \<not> unserved ap err"
    "se_RetryAfterMs se = retry_delay ap err"
    "se_Terminal se \<longleftrightarrow> se_Code se \<notin> {CodeUpstreamUnavailable, CodeResyncRequired}"
proof (cases "classifyStatus ap err")
  case None
  have n: "\<not> refused ap err" "\<not> unserved ap err"
    using None by (auto simp: classifyStatus_None answered_def refused_def unserved_def)
  then have "\<not> (answered ap err \<and> (ap_IsUnauthorized ap err \<or> ap_IsForbidden ap err \<or> ap_IsNotFound ap err))" by (simp add: refused_def)
  then have r: "refusal_code ap err CodeResyncRequired" by (simp add: refusal_code_def)
  show thesis
    by (rule that [of "withCause (ResyncRequired ''upstream watch error; a new snapshot cycle follows'') err"])
       (use None assms n r in \<open>simp_all add: watchError_def Let_def kube_errors retry_delay_def\<close>)
next
  case (Some se)
  have w: "watchError ap (StatusObject status) = ErrStream se" using Some assms by (simp add: watchError_def Let_def)
  note c = classifyStatus_code [OF Some]
  have "se_Cause se = Some err \<and> (se_Terminal se \<longleftrightarrow> se_Code se \<notin> {CodeUpstreamUnavailable, CodeResyncRequired})"
    using Some by (auto simp: classifyStatus_def kube_errors split: option.splits if_splits)
  then show thesis using that [OF w] c by (auto simp: refused_def unserved_def)
qed

lemma classify_code:
  assumes "errors_As err = None"
  shows "if is_redirect err
    then se_Code (asStreamError (classify ap err)) = CodeInternal \<and> se_RetryAfterMs (asStreamError (classify ap err)) = None
    else refusal_code ap err (se_Code (asStreamError (classify ap err))) \<and>
      (se_Code (asStreamError (classify ap err)) = CodeResyncRequired \<longleftrightarrow> expired ap err) \<and>
      (se_Code (asStreamError (classify ap err)) = CodeUpstreamUnavailable \<longleftrightarrow>
         unserved ap err \<or> unavailable ap err \<and> \<not> refused ap err \<and> \<not> expired ap err) \<and>
      se_Code (asStreamError (classify ap err)) \<in>
        {CodeUnauthenticated, CodeForbidden, CodeScopeInvalid, CodeUpstreamUnavailable, CodeResyncRequired, CodeInternal} \<and>
      se_RetryAfterMs (asStreamError (classify ap err)) = retry_delay ap err"
proof (cases "is_redirect err")
  case True
  then show ?thesis by (simp add: classify_def asStreamError_def kube_errors)
next
  case False
  show ?thesis
  proof (cases "classifyStatus ap err")
    case None
    have n: "\<not> refused ap err" "\<not> unserved ap err" "\<not> expired ap err"
      using None by (auto simp: classifyStatus_None answered_def refused_def unserved_def expired_def)
    then have "\<not> (answered ap err \<and> (ap_IsUnauthorized ap err \<or> ap_IsForbidden ap err \<or> ap_IsNotFound ap err))" by (simp add: refused_def)
    then have r: "refusal_code ap err CodeUpstreamUnavailable" "refusal_code ap err CodeInternal"
      by (simp_all add: refusal_code_def)
    show ?thesis using None False n r assms
      by (cases "unavailable ap err") (simp_all add: classify_def asStreamError_def kube_errors retry_delay_def)
  next
    case (Some se)
    note c = classifyStatus_code [OF Some]
    have "ap_APIStatus ap err \<noteq> None" using Some by (cases "ap_APIStatus ap err") (simp_all add: classifyStatus_def)
    then have e: "expired ap err \<longleftrightarrow> \<not> answered ap err" using False by (simp add: expired_def answered_def)
    have k: "se_Code se \<in> {CodeUnauthenticated, CodeForbidden, CodeScopeInvalid, CodeUpstreamUnavailable, CodeResyncRequired}"
      using Some by (auto simp: classifyStatus_def kube_errors split: option.splits if_splits)
    have s: "asStreamError (classify ap err) = se" using Some False by (simp add: classify_def asStreamError_def)
    show ?thesis unfolding s using c k e False by auto
  qed
qed

text \<open>C24. An API-server failure on the wire.  When opening or reading a watch fails with an error
  of the client libraries, the code the client sees is decided by an exact table: unauthenticated,
  forbidden and not served are terminal refusals; the client is asked to come back exactly when
  the server is overloaded, timing out or answering with a 5xx or, short of a named refusal, could
  not be reached, and with the server's own delay exactly when that came with too many requests;
  the stream reopens its watch for an expired resource version and for nothing else; everything
  else is terminal and internal.  The text is one of a fixed list or Kubernetes' own refusal of the
  caller, so no address the gateway dialed reaches a browser, while the whole error stays the cause
  for the host.  An ERROR event on an open watch follows the same table of statuses, except that
  whatever the table does not name reopens the watch, an event that carries no status included.\<close>

theorem kube_error_on_wire:
  assumes "errors_As err = None" and "errors_Is err ErrWatchClosed = Some False"
    and "se = asStreamError (classify ap err)"
    and "cause = ErrWrap ''krm-stream/kube: watch error event'' (ap_FromObject ap status)"
    and "we = asStreamError (watchError ap (StatusObject status))"
  shows "recoverable (classify ap err) = Some (expired ap err) \<and> se_Cause se = Some err \<and>
    (if is_redirect err then se_Code se = CodeInternal
     else refusal_code ap err (se_Code se) \<and> (se_Code se = CodeResyncRequired \<longleftrightarrow> expired ap err) \<and>
       (se_Code se = CodeUpstreamUnavailable \<longleftrightarrow>
          unserved ap err \<or> unavailable ap err \<and> \<not> refused ap err \<and> \<not> expired ap err)) \<and>
    se_Code se \<in> {CodeUnauthenticated, CodeForbidden, CodeScopeInvalid, CodeUpstreamUnavailable, CodeResyncRequired, CodeInternal} \<and>
    (se_Terminal se \<longleftrightarrow> se_Code se \<notin> {CodeUpstreamUnavailable, CodeResyncRequired}) \<and>
    se_RetryAfterMs se = (if is_redirect err then None else retry_delay ap err) \<and>
    (se_Message se \<in> kube_messages \<or>
     (\<exists>st. ap_APIStatus ap err = Some st \<and> ap_IsForbidden ap err \<and> se_Message se = st_Message st)) \<and>
    recoverable (watchError ap (StatusObject status)) = Some (\<not> refused ap cause \<and> \<not> unserved ap cause) \<and>
    se_Cause we = Some cause \<and> refusal_code ap cause (se_Code we) \<and>
    (se_Code we = CodeUpstreamUnavailable \<longleftrightarrow> unserved ap cause) \<and> se_RetryAfterMs we = retry_delay ap cause \<and>
    recoverable (watchError ap (Unstructured obj)) = Some True"
proof -
  have read: "recoverable (classify ap err) = Some (expired ap err) \<and> se_Cause se = Some err \<and>
      (se_Terminal se \<longleftrightarrow> se_Code se \<notin> {CodeUpstreamUnavailable, CodeResyncRequired}) \<and>
      (se_Message se \<in> kube_messages \<or>
       (\<exists>st. ap_APIStatus ap err = Some st \<and> ap_IsForbidden ap err \<and> se_Message se = st_Message st))"
    unfolding assms(3) by (rule classify_read [OF assms(1,2)])
  have event: "recoverable (watchError ap (StatusObject status)) = Some (\<not> refused ap cause \<and> \<not> unserved ap cause) \<and>
      se_Cause we = Some cause \<and> refusal_code ap cause (se_Code we) \<and>
      (se_Code we = CodeUpstreamUnavailable \<longleftrightarrow> unserved ap cause) \<and> se_RetryAfterMs we = retry_delay ap cause"
    unfolding assms(5)
    by (rule watchError_Status [OF assms(4)]) (auto simp: recoverable_def as_se_def asStreamError_def)
  have "recoverable (watchError ap (Unstructured obj)) = Some True"
    by (simp add: watchError_def recoverable_def as_se_def ResyncRequired_def)
  then show ?thesis using read event classify_code [OF assms(1), of ap, folded assms(3)] by (auto split: if_splits)
qed

theorem kube_error_on_wire_witness:
  "recoverable (classify (sample_api\<lparr>ap_IsGone := (\<lambda>err. True)\<rparr>) (ErrText ''https://10.0.0.1:6443/api/v1/pods: too old'')) = Some True \<and>
   se_Code (asStreamError (classify (sample_api\<lparr>ap_IsNotFound := (\<lambda>err. True)\<rparr>) (ErrText ''nope''))) = CodeScopeInvalid \<and>
   recoverable (watchError sample_api (StatusObject \<lparr>st_Code = 422, st_Message = [], st_Causes = None\<rparr>)) = Some True"
proof -
  have 1: "errors_As (ErrText m) = None" "errors_Is (ErrText m) ErrWatchClosed = Some False" "\<not> is_redirect (ErrText m)" for m
    by (simp_all add: is_redirect_def)
  note wire = kube_error_on_wire [OF 1(1,2) refl refl refl]
  have "expired (sample_api\<lparr>ap_IsGone := (\<lambda>err. True)\<rparr>) (ErrText m)" for m
    using 1(3) by (simp add: expired_def sample_api_def Let_def)
  then have a: "recoverable (classify (sample_api\<lparr>ap_IsGone := (\<lambda>err. True)\<rparr>) (ErrText m)) = Some True" for m
    using wire [where ap = "sample_api\<lparr>ap_IsGone := (\<lambda>err. True)\<rparr>"] by simp
  have "answered (sample_api\<lparr>ap_IsNotFound := (\<lambda>err. True)\<rparr>) err" "\<not> ap_IsUnauthorized (sample_api\<lparr>ap_IsNotFound := (\<lambda>err. True)\<rparr>) err"
      "\<not> ap_IsForbidden (sample_api\<lparr>ap_IsNotFound := (\<lambda>err. True)\<rparr>) err" for err
    by (simp_all add: answered_def sample_api_def Let_def)
  then have b: "se_Code (asStreamError (classify (sample_api\<lparr>ap_IsNotFound := (\<lambda>err. True)\<rparr>) (ErrText m))) = CodeScopeInvalid" for m
    using wire [of "sample_api\<lparr>ap_IsNotFound := (\<lambda>err. True)\<rparr>" m] 1(3) by (simp add: refusal_code_def)
  have "\<not> refused sample_api err" "\<not> unserved sample_api err" for err
    by (simp_all add: refused_def unserved_def sample_api_def Let_def)
  then have "recoverable (watchError sample_api (StatusObject st)) = Some True" for st
    using wire [where ap = sample_api and status = st] by simp
  then show ?thesis using a b by blast
qed

end
