(* ===== verification/Conformance.thy ===== *)
theory Conformance
  imports Kube Progress
begin

text \<open>
  The conformance harness, \<open>gateway/internal/conformance\<close>: the corpus of fixtures
  (\<open>corpus.go\<close>), the scripted upstream that plays one (\<open>scripted.go\<close>), and how the replay
  server (\<open>cmd/replay\<close>) picks the part of a script that a connection gets.  The lemmas show
  that a script compiles to watches of the shape the stream loop is written against, and that
  its metadata-only objects and bare tombstones are ones the loop refuses to forward.
\<close>

section \<open>The corpus\<close>

record WatchOp =
  wo_Op :: string
  wo_Body :: string
  wo_Bodies :: "string list"
  wo_ResourceVersion :: string

text \<open>\<open>fe_Type\<close> is \<open>Inr\<close> for a name that is no event type.\<close>

record FixtureEvent =
  fe_Type :: "EventType + string"
  fe_Body :: string
  fe_Redacted :: "Redaction list option"
  fe_Identity :: "Identity option"
  fe_Code :: "ErrorCode option"
  fe_Terminal :: bool

text \<open>Without \<open>Why\<close> and \<open>Client\<close>, which the gateway does not read.\<close>

record Fixture =
  fx_ID :: string
  fx_Title :: string
  fx_Suites :: "string list"
  fx_Scope :: "Scope option"
  fx_Projection :: Projection
  fx_Watch :: "WatchOp list"
  fx_Events :: "FixtureEvent list"

record Corpus =
  cp_Bodies :: "KRMObject gmap"
  cp_Fixtures :: "Fixture list"

definition Suite :: "Fixture \<Rightarrow> string \<Rightarrow> bool" where
  "Suite f name = (if fx_Suites f = [] then name = ''client'' else list_ex (\<lambda>s. s = name) (fx_Suites f))"

definition Body :: "Corpus \<Rightarrow> string \<Rightarrow> go_error + KRMObject" where
  "Body c ref =
     (case map_of (cp_Bodies c) ref of
        None \<Rightarrow> Inl (ErrText (''conformance: no such body '' @ go_quote ref))
      | Some obj \<Rightarrow> Inr obj)"

definition Resolve :: "Corpus \<Rightarrow> Scope option \<Rightarrow> Projection \<Rightarrow> FixtureEvent \<Rightarrow> go_error + Event" where
  "Resolve c scope projection fe =
     (case fe_Type fe of
        Inr name \<Rightarrow> Inl (ErrText (''conformance: unknown event type '' @ go_quote name))
      | Inl t \<Rightarrow>
          (let ev = event_of t in
           case t of
             EventReset \<Rightarrow>
               Inr (ev\<lparr>ev_Scope := scope, ev_Projection := projection,
                      ev_Target := (case scope of None \<Rightarrow> [] | Some s \<Rightarrow> sc_Target s)\<rparr>)
           | EventDeleted \<Rightarrow> Inr (ev\<lparr>ev_Identity := fe_Identity fe\<rparr>)
           | EventError \<Rightarrow> Inr (ev\<lparr>ev_Code := fe_Code fe, ev_Terminal := fe_Terminal fe\<rparr>)
           | EventSynced \<Rightarrow> Inr ev
           | _ \<Rightarrow>
               (case Body c (fe_Body fe) of
                  Inl err \<Rightarrow> Inl err
                | Inr obj \<Rightarrow>
                    Inr (ev\<lparr>ev_Object := obj,
                           ev_Redacted := Some (case fe_Redacted fe of None \<Rightarrow> [] | Some rs \<Rightarrow> rs)\<rparr>))))"

text \<open>The loop of \<open>Connections\<close>, and the filter that drops empty connections.\<close>

definition add_op :: "WatchOp \<Rightarrow> WatchOp list list \<Rightarrow> WatchOp list list" where
  "add_op op conns =
     (if wo_Op op = ''disconnect'' then conns @ [[]]
      else butlast conns @ [last conns @ [op]])"

definition Connections :: "WatchOp list \<Rightarrow> WatchOp list list" where
  "Connections ops = filter (\<lambda>c. length c > 0) (fold add_op ops [[]])"

section \<open>The scripted upstream\<close>

definition partialOf :: "KRMObject \<Rightarrow> KRMObject" where
  "partialOf full =
     (let out = [(''apiVersion'', JStr ''meta.k8s.io/v1''), (''kind'', JStr ''PartialObjectMetadata'')] in
      case obj_field (deepCopyObject full) ''metadata'' of
        Some meta \<Rightarrow> map_put ''metadata'' (JObj meta) out
      | None \<Rightarrow> out)"

definition degenerateTombstoneOf :: "KRMObject \<Rightarrow> KRMObject" where
  "degenerateTombstoneOf full =
     (let out = deepCopyObject full in
      case obj_field out ''metadata'' of
        None \<Rightarrow> out
      | Some meta \<Rightarrow> map_put ''metadata'' (JObj (map_delete ''uid'' meta)) out)"

definition scripted_event :: "WatchEventType \<Rightarrow> KRMObject \<Rightarrow> WatchEvent" where
  "scripted_event t obj = \<lparr>we_Type = t, we_Object = obj, we_InitialEventsEnd = False, we_Err = None\<rparr>"


definition snapshot_end :: WatchEvent where
  "snapshot_end = (scripted_event WatchBookmark [])\<lparr>we_InitialEventsEnd := True\<rparr>"

definition routine_bookmark :: "string \<Rightarrow> WatchEvent" where
  "routine_bookmark rv = scripted_event WatchBookmark
     [(''apiVersion'', JStr ''v1''), (''kind'', JStr ''ConfigMap''), (''metadata'', JObj [(''resourceVersion'', JStr rv)])]"






record ScriptedBackend =
  sb_segments :: "WatchEvent list list"
  sb_segment :: nat
  sb_exhausted :: bool


record scriptedWatcher =
  sw_events :: "WatchEvent list"
  sw_last :: bool
  sw_i :: nat

definition scripted_Watch :: "ScriptedBackend \<Rightarrow> (go_error + scriptedWatcher) \<times> ScriptedBackend" where
  "scripted_Watch b =
     (if sb_segment b \<ge> length (sb_segments b) then
        (Inl (ErrText (''scripted: the gateway reopened the watch '' @ show_nat (sb_segment b + 1) @
           '' times; the script has '' @ show_nat (length (sb_segments b)) @ '' segments'')), b)
      else
        (Inr \<lparr>sw_events = sb_segments b ! sb_segment b, sw_last = (Suc (sb_segment b) = length (sb_segments b)), sw_i = 0\<rparr>,
         b\<lparr>sb_segment := Suc (sb_segment b)\<rparr>))"

text \<open>\<open>None\<close> is a \<open>Next\<close> that waits for the context to end.\<close>

definition scripted_Next ::
    "go_error option \<Rightarrow> scriptedWatcher \<Rightarrow> ScriptedBackend \<Rightarrow> NextResult option \<times> scriptedWatcher \<times> ScriptedBackend" where
  "scripted_Next ctx w b =
     (if sw_i w < length (sw_events w) then (Some (NextEvent (sw_events w ! sw_i w)), w\<lparr>sw_i := Suc (sw_i w)\<rparr>, b)
      else if \<not> sw_last w then (Some (NextErr (ErrText ''scripted: segment ended without a continuity error'')), w, b)
      else (map_option NextErr ctx, w, b\<lparr>sb_exhausted := True\<rparr>))"

section \<open>The replay server\<close>







text \<open>The paced watcher: \<open>cancelled\<close> is the error of a context that ended during the pause.\<close>

definition paced_Next ::
    "int \<Rightarrow> go_error option \<Rightarrow> ('w \<Rightarrow> NextResult option \<times> 'w) \<Rightarrow> 'w \<Rightarrow> NextResult option \<times> 'w" where
  "paced_Next delay cancelled inner w =
     (if delay > 0 then (case cancelled of Some err \<Rightarrow> (Some (NextErr err), w) | None \<Rightarrow> inner w)
      else inner w)"

text \<open>The listing page: a line for each fixture with a script, its ID padded to 26 columns, in order.\<close>

definition pad_right :: "nat \<Rightarrow> string \<Rightarrow> string" where
  "pad_right n s = s @ replicate (n - length s) CHR '' ''"

definition replay_list :: "Corpus \<Rightarrow> string list" where
  "replay_list corpus =
     sort (map (\<lambda>f. pad_right 26 (fx_ID f) @ '' '' @ fx_Title f) (filter (\<lambda>f. fx_Watch f \<noteq> []) (cp_Fixtures corpus)))"

section \<open>Lemmas\<close>

text \<open>Splitting a script loses nothing but the disconnects.\<close>

lemma concat_add_ops:
  "conns \<noteq> [] \<Longrightarrow> concat (fold add_op ops conns) = concat conns @ filter (\<lambda>op. wo_Op op \<noteq> ''disconnect'') ops \<and>
     fold add_op ops conns \<noteq> []"
proof (induction ops arbitrary: conns)
  case (Cons op ops)
  have "concat (butlast conns @ [last conns @ [op]]) = concat conns @ [op]"
    using append_butlast_last_id [OF Cons.prems] by (metis append_assoc concat_append concat.simps append_Nil2)
  then have "add_op op conns \<noteq> []" "concat (add_op op conns) = concat conns @ filter (\<lambda>op. wo_Op op \<noteq> ''disconnect'') [op]"
    by (simp_all add: add_op_def)
  then show ?case using Cons.IH [of "add_op op conns"] by simp
qed simp

lemma concat_Connections: "concat (Connections ops) = filter (\<lambda>op. wo_Op op \<noteq> ''disconnect'') ops"
proof -
  have "concat (filter (\<lambda>c. 0 < length c) xss) = concat xss" for xss :: "WatchOp list list" by (induction xss) auto
  then show ?thesis using concat_add_ops [of "[[]]" ops] by (simp add: Connections_def)
qed


lemma Connections_not_disconnect:
  "conn \<in> set (Connections ops) \<Longrightarrow> op \<in> set conn \<Longrightarrow> op \<in> set ops \<and> wo_Op op \<noteq> ''disconnect''"
proof -
  assume "conn \<in> set (Connections ops)" "op \<in> set conn"
  then have "op \<in> set (concat (Connections ops))" by auto
  then show ?thesis by (simp add: concat_Connections)
qed



















abbreviation follows :: "cycle_env \<Rightarrow> WatchEvent \<Rightarrow> bool" where
  "follows g ev \<equiv> followable g (NextEvent ev)"



lemma marker_follows [simp]: "follows g snapshot_end" "follows g (routine_bookmark rv)"
  by (simp_all add: followable_def snapshot_end_def routine_bookmark_def scripted_event_def Let_def)







text \<open>The loop ends the cycle at every metadata-only object and at every bare tombstone.\<close>

lemma partialOf_refused: "partialReason (partialOf full) \<noteq> []"
  by (auto simp: partialReason_def partialOf_def str_field_def Let_def split: option.split)

lemma degenerateTombstoneOf_refused: "identityOf (degenerateTombstoneOf full) = None"
proof (cases "obj_field full ''metadata''")
  case (Some meta)
  have "obj_field (map_put ''metadata'' (JObj (map_delete ''uid'' meta)) full) ''metadata'' = Some (map_delete ''uid'' meta)"
    by (simp add: obj_field_put)
  then show ?thesis by (simp add: Some degenerateTombstoneOf_def identityOf_def str_field_delete)
qed (simp add: degenerateTombstoneOf_def identityOf_def)




section \<open>Property\<close>




end
