(* ===== verification/Scopes.thy ===== *)
theory Scopes
  imports Wire
begin

text \<open>
  The request half of the wire, \<open>gateway/scope.go\<close>: the scope parsed from a URL query,
  the names it may hold, and the host's allowlist.  With it come the parts of Go's
  \<open>net/url\<close> and \<open>strings\<close> packages that the parser runs on, and the client's
  \<open>resourceStreamURL\<close> (\<open>packages/krm-stream/src/url.ts\<close>), which writes the query the
  parser reads.  Strings are byte strings.

  The lemmas show that the parser accepts exactly the queries that name no API server and
  whose fields are names, that a scope the client writes is the scope the gateway reads,
  and which scopes a policy admits.
\<close>

section \<open>Library functions\<close>

text \<open>\<open>url.Values\<close> is a map from parameter names to their values, in the order they came.\<close>

type_synonym Values = "string list gmap"

definition Values_Get :: "Values \<Rightarrow> string \<Rightarrow> string" where
  "Values_Get q k = (case map_of q k of Some (v # _) \<Rightarrow> v | _ \<Rightarrow> [])"

definition in_range :: "char \<Rightarrow> char \<Rightarrow> char \<Rightarrow> bool" where
  "in_range a z c \<longleftrightarrow> a \<le> c \<and> c \<le> z"

definition to_lower :: "char \<Rightarrow> char" where
  "to_lower c = (if in_range CHR ''A'' CHR ''Z'' c then char_of (of_char c + 32 :: nat) else c)"

text \<open>
  \<open>strings.ToLower\<close> maps an ASCII string byte by byte; any other string goes through the
  Unicode tables, which are the parameter \<open>unicode_lower\<close>.
\<close>

definition strings_ToLower :: "(string \<Rightarrow> string) \<Rightarrow> string \<Rightarrow> string" where
  "strings_ToLower unicode_lower s =
     (if list_all (\<lambda>c. c < CHR 0x80) s then map to_lower s else unicode_lower s)"

text \<open>
  \<open>strings.EqualFold\<close> with an ASCII second argument.  Beside the ASCII letters two code
  points fold to one: U+017F (bytes C5 BF) to \<open>s\<close> and U+212A (bytes E2 84 AA) to \<open>k\<close>.
\<close>

definition fold_rune :: "string \<Rightarrow> (char \<times> string) option" where
  "fold_rune s =
     (if s = [] then None
      else if take 2 s = [CHR 0xC5, CHR 0xBF] then Some (CHR ''s'', drop 2 s)
      else if take 3 s = [CHR 0xE2, CHR 0x84, CHR 0xAA] then Some (CHR ''k'', drop 3 s)
      else if hd s < CHR 0x80 then Some (to_lower (hd s), tl s)
      else None)"

fun strings_EqualFold :: "string \<Rightarrow> string \<Rightarrow> bool" where
  "strings_EqualFold s [] \<longleftrightarrow> s = []"
| "strings_EqualFold s (p # ps) \<longleftrightarrow>
     (case fold_rune s of None \<Rightarrow> False | Some (c, s') \<Rightarrow> c = to_lower p \<and> strings_EqualFold s' ps)"

section \<open>Names\<close>

text \<open>The body of the loop of \<open>isDNSName\<close> at index \<open>i\<close>.\<close>

definition dns_byte :: "string \<Rightarrow> nat \<Rightarrow> bool" where
  "dns_byte v i =
     (let c = v ! i in
      if in_range CHR ''a'' CHR ''z'' c \<or> in_range CHR ''0'' CHR ''9'' c then True
      else if c = CHR ''-'' \<or> c = CHR ''.'' then \<not> (i = 0 \<or> i = length v - 1)
      else False)"

definition isDNSName :: "string \<Rightarrow> bool" where
  "isDNSName v = (if v = [] \<or> length v > 253 then False else list_all (dns_byte v) [0..<length v])"

section \<open>Parsing a scope\<close>

definition forbiddenParams :: "string list" where
  "forbiddenParams = [''server'', ''apiserver'', ''api-server'', ''url'', ''endpoint'', ''kubeconfig'', ''token'']"

text \<open>The first forbidden parameter the two nested loops meet.\<close>

definition forbidden_key :: "Values \<Rightarrow> string option" where
  "forbidden_key q =
     map_option snd (find (\<lambda>(p, key). strings_EqualFold key p) (List.product forbiddenParams (map fst q)))"

definition query_scope :: "Values \<Rightarrow> Scope" where
  "query_scope q =
     \<lparr>sc_Target = Values_Get q ''target'', sc_Group = Values_Get q ''group'',
      sc_Version = Values_Get q ''version'', sc_Resource = Values_Get q ''resource'',
      sc_Namespace = Values_Get q ''namespace'', sc_Name = Values_Get q ''name'',
      sc_LabelSelector = Values_Get q ''labelSelector''\<rparr>"

definition check_scope :: "(string \<Rightarrow> string) \<Rightarrow> Scope \<Rightarrow> StreamError option" where
  "check_scope unicode_lower s =
     (if sc_Resource s = [] then
        Some (ScopeInvalid ''scope needs a `resource` (the plural, lowercase API name, e.g. `configmaps`)'')
      else if sc_Version s = [] then
        Some (ScopeInvalid ''scope needs a `version` (e.g. `v1`): there is no default, because `v1` and `v1beta1` are different objects'')
      else if sc_Resource s \<noteq> strings_ToLower unicode_lower (sc_Resource s) then
        Some (ScopeInvalid ''`resource` is the plural, lowercase API name (`configmaps`), not the Kind (`ConfigMap`)'')
      else if \<not> isDNSName (sc_Resource s) then
        Some (ScopeInvalid (''`resource` is not a valid API resource name: '' @ sc_Resource s))
      else if sc_Group s \<noteq> [] \<and> \<not> isDNSName (sc_Group s) then
        Some (ScopeInvalid (''`group` is a DNS subdomain (`apps`, `wardle.example.com`), not a path: '' @ sc_Group s))
      else if \<not> isDNSName (sc_Version s) then
        Some (ScopeInvalid (''`version` is not a valid API version: '' @ sc_Version s))
      else if sc_Namespace s \<noteq> [] \<and> \<not> isDNSName (sc_Namespace s) then
        Some (ScopeInvalid (''`namespace` is not a valid namespace name: '' @ sc_Namespace s))
      else if sc_Name s \<noteq> [] \<and> \<not> isDNSName (sc_Name s) then
        Some (ScopeInvalid (''`name` is not a valid object name: '' @ sc_Name s))
      else if sc_Target s \<noteq> [] \<and> \<not> isDNSName (sc_Target s) then
        Some (ScopeInvalid (''`target` is a logical name the host resolves, not an address: '' @ sc_Target s))
      else None)"

definition ScopeFromQuery :: "(string \<Rightarrow> string) \<Rightarrow> Values \<Rightarrow> StreamError + Scope" where
  "ScopeFromQuery unicode_lower q =
     (case forbidden_key q of
        Some key \<Rightarrow> Inl (ScopeInvalid (''this gateway never accepts an API-server address, endpoint or credential '' @
          ''from a caller: the host resolves the target (parameter: '' @ key @ '')''))
      | None \<Rightarrow>
          (let s = query_scope q in
           case check_scope unicode_lower s of Some e \<Rightarrow> Inl e | None \<Rightarrow> Inr s))"

section \<open>The allowlist\<close>

text \<open>\<open>ResourceScope\<close> is a Go string type; only two of its values have a meaning.\<close>

datatype ResourceScope = ResourceScopeNamespaced | ResourceScopeCluster | ResourceScopeOther string

record GroupResource =
  gr_Group :: string
  gr_Resource :: string
  gr_Scope :: ResourceScope
  gr_AllowAllNamespaces :: bool

record ScopePolicy =
  sp_Targets :: "string list"
  sp_Resources :: "GroupResource list"
  sp_AnyResource :: bool
  sp_AllowLabelSelector :: bool

definition groupResourceOf :: "Scope \<Rightarrow> string" where
  "groupResourceOf s = (if sc_Group s = [] then sc_Resource s else sc_Group s @ ''/'' @ sc_Resource s)"

fun contains :: "string list \<Rightarrow> string \<Rightarrow> bool" where
  "contains [] needle = False"
| "contains (h # haystack) needle = (if h = needle then True else contains haystack needle)"

definition quoteOrEmpty :: "string \<Rightarrow> string" where
  "quoteOrEmpty v = (if v = [] then [dquote, dquote] else v)"

text \<open>The loop of \<open>Validate\<close> over the allowlisted resources; \<open>None\<close> is a nil error.\<close>

fun validate_resources :: "GroupResource list \<Rightarrow> Scope \<Rightarrow> StreamError option" where
  "validate_resources [] s =
     Some (ScopeInvalid (''resource is not allowlisted: '' @ quoteOrEmpty (groupResourceOf s)))"
| "validate_resources (gr # grs) s =
     (if gr_Group gr \<noteq> sc_Group s \<or> gr_Resource gr \<noteq> sc_Resource s then validate_resources grs s
      else case gr_Scope gr of
        ResourceScopeCluster \<Rightarrow>
          (if sc_Namespace s \<noteq> [] then
             Some (ScopeInvalid (''cluster-scoped resource must not name a namespace: '' @ quoteOrEmpty (groupResourceOf s)))
           else None)
      | ResourceScopeNamespaced \<Rightarrow>
          (if sc_Namespace s \<noteq> [] \<or> gr_AllowAllNamespaces gr then None
           else Some (ScopeInvalid (''all-namespaces watch is not allowlisted for: '' @ quoteOrEmpty (groupResourceOf s))))
      | ResourceScopeOther _ \<Rightarrow>
          Some (ScopeInvalid (''resource scope is not configured for: '' @ quoteOrEmpty (groupResourceOf s))))"

definition Validate :: "ScopePolicy \<Rightarrow> Scope \<Rightarrow> StreamError option" where
  "Validate p s =
     (if sc_LabelSelector s \<noteq> [] \<and> \<not> sp_AllowLabelSelector p then
        Some (ScopeInvalid ''label selectors are not enabled for this stream endpoint'')
      else if \<not> contains (sp_Targets p) (sc_Target s) then
        Some (ScopeInvalid (''target is not allowlisted: '' @ quoteOrEmpty (sc_Target s)))
      else if sp_AnyResource p then
        (if sp_Resources p \<noteq> [] then
           Some (StreamError CodeInternal ''scope policy sets both Resources and AnyResource'' True None None)
         else None)
      else validate_resources (sp_Resources p) s)"

section \<open>The query string\<close>

text \<open>
  \<open>URLSearchParams.toString\<close>: the bytes that stand for themselves, \<open>+\<close> for a space,
  and two upper-case hexadecimal digits for every other byte.
\<close>

definition plain_byte :: "char \<Rightarrow> bool" where
  "plain_byte c \<longleftrightarrow> in_range CHR ''a'' CHR ''z'' c \<or> in_range CHR ''A'' CHR ''Z'' c \<or>
     in_range CHR ''0'' CHR ''9'' c \<or> c \<in> {CHR ''*'', CHR ''-'', CHR ''.'', CHR ''_''}"

definition upper_hex :: "nat \<Rightarrow> char" where
  "upper_hex d = (if d < 10 then char_of (48 + d) else char_of (55 + d))"

definition form_byte :: "char \<Rightarrow> string" where
  "form_byte c =
     (if plain_byte c then [c]
      else if c = CHR '' '' then ''+''
      else [CHR ''%'', upper_hex (of_char c div 16), upper_hex (of_char c mod 16)])"

definition form_bytes :: "string \<Rightarrow> string" where
  "form_bytes s = concat (map form_byte s)"

definition form_pair :: "string \<times> string \<Rightarrow> string" where
  "form_pair kv = form_bytes (fst kv) @ ''='' @ form_bytes (snd kv)"

definition URLSearchParams_toString :: "(string \<times> string) list \<Rightarrow> string" where
  "URLSearchParams_toString kvs = join_with CHR ''&'' (map form_pair kvs)"

text \<open>The query \<open>resourceStreamURL\<close> appends to its base; \<open>None\<close> is its thrown error.\<close>

definition query_param :: "string \<Rightarrow> string \<Rightarrow> (string \<times> string) list" where
  "query_param k v = (if v = [] then [] else [(k, v)])"

definition scope_params :: "Scope \<Rightarrow> Projection \<Rightarrow> (string \<times> string) list" where
  "scope_params s projection =
     query_param ''target'' (sc_Target s) @ query_param ''group'' (sc_Group s) @
     query_param ''version'' (sc_Version s) @ query_param ''resource'' (sc_Resource s) @
     query_param ''namespace'' (sc_Namespace s) @ query_param ''name'' (sc_Name s) @
     query_param ''labelSelector'' (sc_LabelSelector s) @ query_param ''projection'' projection"

definition resourceStreamQuery :: "Scope \<Rightarrow> Projection \<Rightarrow> string option" where
  "resourceStreamQuery s projection =
     (if sc_Resource s = [] \<or> sc_Version s = [] then None
      else Some (URLSearchParams_toString (scope_params s projection)))"

text \<open>\<open>url.QueryUnescape\<close>; \<open>None\<close> is its error.\<close>

definition hex_digit_val :: "char \<Rightarrow> nat option" where
  "hex_digit_val c =
     (if in_range CHR ''0'' CHR ''9'' c then Some (of_char c - 48)
      else if in_range CHR ''a'' CHR ''f'' c then Some (of_char c - 87)
      else if in_range CHR ''A'' CHR ''F'' c then Some (of_char c - 55)
      else None)"

fun QueryUnescape :: "string \<Rightarrow> string option" where
  "QueryUnescape [] = Some []"
| "QueryUnescape (c # s) =
     (if c = CHR ''%'' then
        (case s of
           h # l # r \<Rightarrow>
             (case (hex_digit_val h, hex_digit_val l) of
                (Some a, Some b) \<Rightarrow> map_option ((#) (char_of (16 * a + b))) (QueryUnescape r)
              | _ \<Rightarrow> None)
         | _ \<Rightarrow> None)
      else map_option ((#) (if c = CHR ''+'' then CHR '' '' else c)) (QueryUnescape s))"

text \<open>
  \<open>url.ParseQuery\<close> on the pieces between \<open>&\<close>: a piece with a semicolon, an empty one
  and one that does not unescape are skipped, as \<open>URL.Query\<close> drops the error.
\<close>

fun pieces :: "char \<Rightarrow> string \<Rightarrow> string list" where
  "pieces sep [] = [[]]"
| "pieces sep (c # s) =
     (if c = sep then [] # pieces sep s
      else case pieces sep s of [] \<Rightarrow> [[c]] | p # ps \<Rightarrow> (c # p) # ps)"

definition parse_piece :: "string \<Rightarrow> (string \<times> string) option" where
  "parse_piece p =
     (if CHR '';'' \<in> set p \<or> p = [] then None
      else case (QueryUnescape (takeWhile (\<lambda>c. c \<noteq> CHR ''='') p),
                 QueryUnescape (tl (dropWhile (\<lambda>c. c \<noteq> CHR ''='') p))) of
        (Some k, Some v) \<Rightarrow> Some (k, v)
      | _ \<Rightarrow> None)"

definition Values_Add :: "string \<times> string \<Rightarrow> Values \<Rightarrow> Values" where
  "Values_Add kv q = map_put (fst kv) ((case map_of q (fst kv) of None \<Rightarrow> [] | Some vs \<Rightarrow> vs) @ [snd kv]) q"

definition ParseQuery :: "string \<Rightarrow> Values" where
  "ParseQuery raw = fold Values_Add (List.map_filter parse_piece (pieces CHR ''&'' raw)) []"

section \<open>What the parser accepts\<close>

text \<open>The shape of a name, stated without the loop.\<close>

definition alnum :: "char \<Rightarrow> bool" where
  "alnum c \<longleftrightarrow> in_range CHR ''a'' CHR ''z'' c \<or> in_range CHR ''0'' CHR ''9'' c"

definition dns_name :: "string \<Rightarrow> bool" where
  "dns_name v \<longleftrightarrow> v \<noteq> [] \<and> length v \<le> 253 \<and> alnum (hd v) \<and> alnum (last v) \<and>
     set v \<subseteq> Collect alnum \<union> {CHR ''-'', CHR ''.''}"

definition valid_scope :: "Scope \<Rightarrow> bool" where
  "valid_scope s \<longleftrightarrow> dns_name (sc_Resource s) \<and> dns_name (sc_Version s) \<and>
     list_all (\<lambda>v. v = [] \<or> dns_name v) [sc_Target s, sc_Group s, sc_Namespace s, sc_Name s]"

text \<open>A query that says which API server, or with which credential.\<close>

definition names_server :: "Values \<Rightarrow> bool" where
  "names_server q \<longleftrightarrow> (\<exists>key \<in> fst ` set q. \<exists>p \<in> set forbiddenParams. strings_EqualFold key p)"

text \<open>The policy of the host, stated without the order of the checks.\<close>

definition resource_admits :: "GroupResource \<Rightarrow> Scope \<Rightarrow> bool" where
  "resource_admits gr s \<longleftrightarrow>
     (gr_Scope gr = ResourceScopeCluster \<and> sc_Namespace s = []) \<or>
     (gr_Scope gr = ResourceScopeNamespaced \<and> (sc_Namespace s \<noteq> [] \<or> gr_AllowAllNamespaces gr))"

definition policy_admits :: "ScopePolicy \<Rightarrow> Scope \<Rightarrow> bool" where
  "policy_admits p s \<longleftrightarrow>
     (sc_LabelSelector s = [] \<or> sp_AllowLabelSelector p) \<and> sc_Target s \<in> set (sp_Targets p) \<and>
     (if sp_AnyResource p then sp_Resources p = []
      else case find (\<lambda>gr. gr_Group gr = sc_Group s \<and> gr_Resource gr = sc_Resource s) (sp_Resources p) of
        None \<Rightarrow> False | Some gr \<Rightarrow> resource_admits gr s)"

lemma isDNSName_dns_name: "isDNSName v = dns_name v"
proof (cases "v = []")
  case False
  have at: "dns_byte v i \<longleftrightarrow> alnum (v ! i) \<or> (v ! i \<in> {CHR ''-'', CHR ''.''} \<and> i \<noteq> 0 \<and> i \<noteq> length v - 1)" for i
    by (auto simp: dns_byte_def alnum_def Let_def)
  have sep: "\<not> alnum CHR ''-''" "\<not> alnum CHR ''.''"
    by (simp_all add: alnum_def in_range_def less_eq_char_def)
  have ends: "hd v = v ! 0" "last v = v ! (length v - 1)"
    using False by (simp_all add: hd_conv_nth last_conv_nth)
  have "(\<forall>i<length v. dns_byte v i) \<longleftrightarrow>
      alnum (v ! 0) \<and> alnum (v ! (length v - 1)) \<and> (\<forall>i<length v. v ! i \<in> Collect alnum \<union> {CHR ''-'', CHR ''.''})"
    using False by (auto simp: at dest: spec [of _ "length v - 1"] intro: gr0I)
  then show ?thesis using False
    by (auto simp: isDNSName_def dns_name_def ends list_all_iff subset_iff in_set_conv_nth)
qed (simp_all add: isDNSName_def dns_name_def)


lemma dns_name_lower: "dns_name v \<Longrightarrow> strings_ToLower unicode_lower v = v"
proof -
  assume "dns_name v"
  then have "\<forall>c \<in> set v. c < CHR 0x80 \<and> \<not> in_range CHR ''A'' CHR ''Z'' c"
    by (auto simp: dns_name_def alnum_def in_range_def less_eq_char_def less_char_def subset_iff)
  then show ?thesis
    by (auto simp: strings_ToLower_def to_lower_def list_all_iff intro: map_idI)
qed

lemma forbidden_key_None: "forbidden_key q = None \<longleftrightarrow> \<not> names_server q"
  by (auto simp: forbidden_key_def names_server_def find_None_iff)

lemma refusal_None: "(if b then Some x else r) = None \<longleftrightarrow> \<not> b \<and> r = None"
  by simp

lemma check_scope_None: "check_scope unicode_lower s = None \<longleftrightarrow> valid_scope s"
proof -
  have n: "dns_name v \<Longrightarrow> v \<noteq> []" for v by (simp add: dns_name_def)
  show ?thesis
    unfolding check_scope_def refusal_None isDNSName_dns_name valid_scope_def list.pred_inject
    using dns_name_lower [of "sc_Resource s" unicode_lower] n [of "sc_Resource s"] n [of "sc_Version s"] by auto
qed

lemma refusal_cases:
  "(if b then Some (ScopeInvalid m) else r) = Some e \<Longrightarrow> (r = Some e \<Longrightarrow> \<exists>m. e = ScopeInvalid m) \<Longrightarrow>
     \<exists>m. e = ScopeInvalid m"
  by (cases b) (auto simp del: stream_error_simps)

lemma check_scope_ScopeInvalid: "check_scope unicode_lower s = Some e \<Longrightarrow> \<exists>m. e = ScopeInvalid m"
  unfolding check_scope_def by (erule refusal_cases)+ simp

lemma check_scope_Some:
  "check_scope unicode_lower s = Some e \<Longrightarrow> se_Code e = CodeScopeInvalid \<and> se_Terminal e"
  using check_scope_ScopeInvalid [of unicode_lower s e] by auto

lemma ScopeFromQuery_Inr:
  "ScopeFromQuery unicode_lower q = Inr s \<longleftrightarrow> \<not> names_server q \<and> s = query_scope q \<and> valid_scope s"
  using forbidden_key_None [of q] check_scope_None [of unicode_lower "query_scope q"]
  by (auto simp: ScopeFromQuery_def Let_def split: option.splits)

lemma ScopeFromQuery_Inl:
  "ScopeFromQuery unicode_lower q = Inl e \<Longrightarrow> se_Code e = CodeScopeInvalid \<and> se_Terminal e"
  using check_scope_Some [of unicode_lower "query_scope q" e]
  by (auto simp: ScopeFromQuery_def Let_def split: option.splits)

text \<open>A name holds no byte that could leave the path segment it is placed in.\<close>

definition path_safe :: "string \<Rightarrow> bool" where
  "path_safe v \<longleftrightarrow> v \<noteq> ''.'' \<and> v \<noteq> ''..'' \<and>
     set v \<inter> {CHR ''/'', backslash, CHR ''%'', CHR ''?'', CHR ''#'', CHR '':'', CHR ''@'', CHR '' '', CHR 0x00, newline} = {}"

lemma dns_name_path_safe: "dns_name v \<Longrightarrow> path_safe v"
  by (auto simp: dns_name_def path_safe_def alnum_def in_range_def less_eq_char_def subset_iff)

lemma valid_scope_path_safe:
  "valid_scope s \<Longrightarrow>
     list_all path_safe [sc_Target s, sc_Group s, sc_Version s, sc_Resource s, sc_Namespace s, sc_Name s]"
proof -
  have e: "path_safe []" by (simp add: path_safe_def)
  show "valid_scope s \<Longrightarrow> ?thesis"
    by (auto simp: valid_scope_def dns_name_path_safe e)
qed

text \<open>Without the two odd code points, \<open>EqualFold\<close> is equality of the lower-case forms.\<close>

lemma EqualFold_ascii:
  "list_all (\<lambda>c. c < CHR 0x80) s \<Longrightarrow> strings_EqualFold s p \<longleftrightarrow> map to_lower s = map to_lower p"
proof (induction p arbitrary: s)
  case (Cons p ps)
  then show ?case
    by (cases s) (auto simp: fold_rune_def less_char_def)
qed simp

section \<open>What a policy admits\<close>

lemma contains_set: "contains xs x \<longleftrightarrow> x \<in> set xs"
  by (induction xs) auto

lemma validate_resources_None:
  "validate_resources grs s = None \<longleftrightarrow>
     (case find (\<lambda>gr. gr_Group gr = sc_Group s \<and> gr_Resource gr = sc_Resource s) grs of
        None \<Rightarrow> False | Some gr \<Rightarrow> resource_admits gr s)"
  by (induction grs) (auto simp: resource_admits_def split: ResourceScope.splits)

lemma validate_resources_Some:
  "validate_resources grs s = Some e \<Longrightarrow> se_Code e = CodeScopeInvalid \<and> se_Terminal e"
  by (induction grs) (auto split: ResourceScope.splits if_splits)

lemma Validate_None: "Validate p s = None \<longleftrightarrow> policy_admits p s"
  by (auto simp: Validate_def policy_admits_def contains_set validate_resources_None)

lemma Validate_Some: "Validate p s = Some e \<Longrightarrow> se_Terminal e \<and> se_Code e \<in> {CodeScopeInvalid, CodeInternal}"
  using validate_resources_Some [of "sp_Resources p" s e]
  by (auto simp: Validate_def split: if_splits)

text \<open>The shape accepts an empty label, which a DNS subdomain does not have.\<close>

lemma isDNSName_accepts_empty_label: "isDNSName ''a..b''"
  by code_simp

section \<open>Round trip of a query\<close>

lemma nibble_cases:
  "(d :: nat) < 16 \<Longrightarrow> d = 0 \<or> d = 1 \<or> d = 2 \<or> d = 3 \<or> d = 4 \<or> d = 5 \<or> d = 6 \<or> d = 7 \<or>
     d = 8 \<or> d = 9 \<or> d = 10 \<or> d = 11 \<or> d = 12 \<or> d = 13 \<or> d = 14 \<or> d = 15"
  by arith

lemma upper_hex_val: "d < 16 \<Longrightarrow> hex_digit_val (upper_hex d) = Some d"
  by (drule nibble_cases, elim disjE) (simp_all add: hex_digit_val_def upper_hex_def in_range_def less_eq_char_def)

lemma nibbles: "(of_char c :: nat) div 16 < 16" "(of_char c :: nat) mod 16 < 16"
  by (simp_all add: less_mult_imp_div_less)

lemma unescape_form_byte: "QueryUnescape (form_byte c @ r) = map_option ((#) c) (QueryUnescape r)"
proof -
  have "plain_byte c \<Longrightarrow> c \<noteq> CHR ''%'' \<and> c \<noteq> CHR ''+''"
    by (auto simp: plain_byte_def in_range_def less_eq_char_def)
  then show ?thesis
    by (auto simp: form_byte_def upper_hex_val [OF nibbles(1)] upper_hex_val [OF nibbles(2)] of_char_hex)
qed

lemma unescape_form_bytes: "QueryUnescape (form_bytes s) = Some s"
  by (induction s) (simp_all add: form_bytes_def unescape_form_byte)

lemma upper_hex_plain: "d < 16 \<Longrightarrow> plain_byte (upper_hex d)"
  by (drule nibble_cases, elim disjE) (simp_all add: plain_byte_def upper_hex_def in_range_def less_eq_char_def)

lemma form_bytes_clean: "c \<in> set (form_bytes s) \<Longrightarrow> plain_byte c \<or> c = CHR ''%'' \<or> c = CHR ''+''"
proof -
  have "c \<in> set (form_byte d) \<Longrightarrow> plain_byte c \<or> c = CHR ''%'' \<or> c = CHR ''+''" for d
    by (auto simp: form_byte_def upper_hex_plain [OF nibbles(1)] upper_hex_plain [OF nibbles(2)] split: if_splits)
  then show "c \<in> set (form_bytes s) \<Longrightarrow> ?thesis"
    by (auto simp: form_bytes_def)
qed

lemma form_bytes_seps: "CHR ''&'' \<notin> set (form_bytes s)" "CHR '';'' \<notin> set (form_bytes s)" "CHR ''='' \<notin> set (form_bytes s)"
  using form_bytes_clean [of _ s] by (force simp: plain_byte_def in_range_def less_eq_char_def)+

lemma pieces_plain: "sep \<notin> set p \<Longrightarrow> pieces sep p = [p]"
  by (induction p) auto

lemma pieces_append: "sep \<notin> set p \<Longrightarrow> pieces sep (p @ sep # s) = p # pieces sep s"
  by (induction p) auto

lemma pieces_join:
  "ps \<noteq> [] \<Longrightarrow> list_all (\<lambda>p. sep \<notin> set p) ps \<Longrightarrow> pieces sep (join_with sep ps) = ps"
  by (induction ps rule: induct_list012) (simp_all add: pieces_plain pieces_append)

lemma parse_form_pair: "parse_piece (form_pair (k, v)) = Some (k, v)"
proof -
  have k: "takeWhile (\<lambda>c. c \<noteq> CHR ''='') (form_bytes k @ CHR ''='' # form_bytes v) = form_bytes k"
    "dropWhile (\<lambda>c. c \<noteq> CHR ''='') (form_bytes k @ CHR ''='' # form_bytes v) = CHR ''='' # form_bytes v"
    using form_bytes_seps(3) [of k]
    by (auto simp: takeWhile_append dropWhile_append)
  show ?thesis
    using form_bytes_seps(2) [of k] form_bytes_seps(2) [of v]
    by (simp add: parse_piece_def form_pair_def k unescape_form_bytes)
qed

lemma ParseQuery_toString:
  assumes "distinct (map fst kvs)" "kvs \<noteq> []"
  shows "map_of (ParseQuery (URLSearchParams_toString kvs)) = map_of (map (\<lambda>(k, v). (k, [v])) kvs)"
    and "fst ` set (ParseQuery (URLSearchParams_toString kvs)) = fst ` set kvs"
proof -
  have p: "list_all (\<lambda>p. CHR ''&'' \<notin> set p) (map form_pair kvs)"
    using form_bytes_seps(1) by (auto simp: list_all_iff form_pair_def)
  have "List.map_filter parse_piece (map form_pair kvs) = kvs"
    by (induction kvs) (auto simp: List.map_filter_simps parse_form_pair)
  then have q: "ParseQuery (URLSearchParams_toString kvs) = fold Values_Add kvs []"
    using assms(2) by (simp add: ParseQuery_def URLSearchParams_toString_def pieces_join [OF _ p])
  have f: "distinct (map fst kvs) \<Longrightarrow> fst ` set kvs \<inter> fst ` set m = {} \<Longrightarrow>
      fold Values_Add kvs m = m @ map (\<lambda>(k, v). (k, [v])) kvs" for m
  proof (induction kvs arbitrary: m)
    case (Cons kv kvs)
    have fresh: "map_of m (fst kv) = None" using Cons.prems(2) by (auto simp: map_of_eq_None_iff)
    have "AList.update k v m = m @ [(k, v)]" if "map_of m k = None" for k :: string and v
      using that by (induction m) (auto split: if_splits)
    then have "Values_Add kv m = m @ [(fst kv, [snd kv])]"
      using fresh by (simp add: Values_Add_def map_put_def)
    moreover have "fst ` set kvs \<inter> fst ` set (m @ [(fst kv, [snd kv])]) = {}"
      using Cons.prems by auto
    ultimately show ?case
      using Cons.IH [of "m @ [(fst kv, [snd kv])]"] Cons.prems by (simp add: case_prod_beta)
  qed simp
  from f [OF assms(1), of "[]"] q
  show "map_of (ParseQuery (URLSearchParams_toString kvs)) = map_of (map (\<lambda>(k, v). (k, [v])) kvs)"
    and "fst ` set (ParseQuery (URLSearchParams_toString kvs)) = fst ` set kvs"
    by (simp_all add: image_image case_prod_beta)
qed

lemma Values_Get_toString:
  assumes "distinct (map fst kvs)" "kvs \<noteq> []"
  shows "Values_Get (ParseQuery (URLSearchParams_toString kvs)) k = (case map_of kvs k of None \<Rightarrow> [] | Some v \<Rightarrow> v)"
proof -
  have "map_of (map (\<lambda>(k, v). (k, [v])) kvs) k = map_option (\<lambda>v. [v]) (map_of kvs k)"
    by (induction kvs) auto
  then show ?thesis
    by (simp add: Values_Get_def ParseQuery_toString(1) [OF assms] split: option.splits)
qed

definition scope_keys :: "string list" where
  "scope_keys = [''target'', ''group'', ''version'', ''resource'', ''namespace'', ''name'', ''labelSelector'', ''projection'']"

lemma fst_query_param: "map fst (query_param k v) = (if v = [] then [] else [k])"
  by (simp add: query_param_def)

lemma scope_params_keys: "distinct (map fst (scope_params s pr))" "fst ` set (scope_params s pr) \<subseteq> set scope_keys"
  by (simp_all add: scope_params_def scope_keys_def query_param_def)

lemma scope_keys_allowed: "\<not> list_ex (\<lambda>k. list_ex (strings_EqualFold k) forbiddenParams) scope_keys"
  by code_simp

lemma map_of_query_param: "map_of (query_param k v @ kvs) j = (if j = k \<and> v \<noteq> [] then Some v else map_of kvs j)"
  by (simp add: query_param_def)

lemma scope_params_get:
  "(case map_of (scope_params s pr) ''target'' of None \<Rightarrow> [] | Some v \<Rightarrow> v) = sc_Target s"
  "(case map_of (scope_params s pr) ''group'' of None \<Rightarrow> [] | Some v \<Rightarrow> v) = sc_Group s"
  "(case map_of (scope_params s pr) ''version'' of None \<Rightarrow> [] | Some v \<Rightarrow> v) = sc_Version s"
  "(case map_of (scope_params s pr) ''resource'' of None \<Rightarrow> [] | Some v \<Rightarrow> v) = sc_Resource s"
  "(case map_of (scope_params s pr) ''namespace'' of None \<Rightarrow> [] | Some v \<Rightarrow> v) = sc_Namespace s"
  "(case map_of (scope_params s pr) ''name'' of None \<Rightarrow> [] | Some v \<Rightarrow> v) = sc_Name s"
  "(case map_of (scope_params s pr) ''labelSelector'' of None \<Rightarrow> [] | Some v \<Rightarrow> v) = sc_LabelSelector s"
  "(case map_of (scope_params s pr) ''projection'' of None \<Rightarrow> [] | Some v \<Rightarrow> v) = pr"
  by (simp_all add: scope_params_def query_param_def)

lemma query_scope_params:
  assumes "scope_params s pr \<noteq> []"
  shows "query_scope (ParseQuery (URLSearchParams_toString (scope_params s pr))) = s"
  by (simp add: query_scope_def Values_Get_toString [OF scope_params_keys(1) assms] scope_params_get)

section \<open>Properties\<close>

text \<open>C25. The scope the client's \<open>resourceStreamURL\<close> writes into a URL is the scope and the
  projection that the gateway reads out of it, byte for byte, for every valid scope with
  whatever label selector.\<close>

theorem scope_query_roundtrip:
  assumes "valid_scope s"
  shows "\<exists>raw. resourceStreamQuery s projection = Some raw \<and>
      ScopeFromQuery unicode_lower (ParseQuery raw) = Inr s \<and>
      Values_Get (ParseQuery raw) ''projection'' = projection"
proof -
  have ne: "sc_Resource s \<noteq> []" "sc_Version s \<noteq> []" using assms by (auto simp: valid_scope_def dns_name_def)
  then have ps: "scope_params s projection \<noteq> []" by (simp add: scope_params_def query_param_def)
  have "\<not> names_server (ParseQuery (URLSearchParams_toString (scope_params s projection)))"
    using scope_keys_allowed scope_params_keys(2) [of s projection]
    unfolding names_server_def ParseQuery_toString(2) [OF scope_params_keys(1) ps] list_ex_iff by blast
  then show ?thesis
    using assms ne
    by (simp add: resourceStreamQuery_def ScopeFromQuery_Inr query_scope_params [OF ps]
        Values_Get_toString [OF scope_params_keys(1) ps] scope_params_get)
qed

definition sample_query_scope :: Scope where
  "sample_query_scope = \<lparr>sc_Target = [], sc_Group = ''apps'', sc_Version = ''v1'', sc_Resource = ''deployments'',
     sc_Namespace = ''app'', sc_Name = [], sc_LabelSelector = ''tier=web & x''\<rparr>"

theorem scope_query_roundtrip_witness:
  "\<exists>raw. resourceStreamQuery sample_query_scope ProjectionSpec = Some raw \<and>
      ScopeFromQuery id (ParseQuery raw) = Inr sample_query_scope \<and>
      Values_Get (ParseQuery raw) ''projection'' = ProjectionSpec"
  by (rule scope_query_roundtrip)
    (simp add: valid_scope_def sample_query_scope_def dns_name_def alnum_def in_range_def less_eq_char_def)

text \<open>\<open>ScopeFromQuery\<close> accepts exactly the queries that name no API server, endpoint or
  credential in any spelling and whose fields are names; what it then returns is the scope
  the query spells, with no field that could leave a path segment.  Every refusal is a
  terminal \<open>SCOPE_INVALID\<close>.\<close>

theorem ScopeFromQuery_correct:
  "case ScopeFromQuery unicode_lower q of
     Inr s \<Rightarrow> s = query_scope q \<and> valid_scope s \<and> \<not> names_server q \<and>
       list_all path_safe [sc_Target s, sc_Group s, sc_Version s, sc_Resource s, sc_Namespace s, sc_Name s]
   | Inl e \<Rightarrow> se_Code e = CodeScopeInvalid \<and> se_Terminal e \<and>
       \<not> (valid_scope (query_scope q) \<and> \<not> names_server q)"
proof (cases "ScopeFromQuery unicode_lower q")
  case (Inl e)
  then show ?thesis
    using ScopeFromQuery_Inl [OF Inl] ScopeFromQuery_Inr [of unicode_lower q "query_scope q"] by auto
next
  case (Inr s)
  then have "\<not> names_server q" "s = query_scope q" "valid_scope s" by (auto simp: ScopeFromQuery_Inr)
  then show ?thesis
    using valid_scope_path_safe [of s] by (simp add: Inr)
qed

text \<open>The allowlist denies by default: a policy admits a scope exactly when its selector
  and target are allowed and either resource admission is left to the upstream alone or the
  first entry for the scope's resource allows its namespace.  Every refusal is terminal.\<close>

theorem Validate_correct:
  "case Validate p s of
     None \<Rightarrow> policy_admits p s
   | Some e \<Rightarrow> \<not> policy_admits p s \<and> se_Terminal e \<and> se_Code e \<in> {CodeScopeInvalid, CodeInternal}"
proof (cases "Validate p s")
  case (Some e)
  then show ?thesis using Validate_None [of p s] Validate_Some [OF Some] by auto
next
  case None
  then show ?thesis using Validate_None [of p s] by simp
qed

end
