(* ===== verification/Transport.thy ===== *)
theory Transport
  imports Stream_Loop Scopes Convergence
begin

text \<open>
  The transport: \<open>gateway/sse.go\<close> (the SSE sink, its heartbeat, the capability check of a
  response writer, \<open>serveHTTP\<close> and \<open>ServeStream\<close>) and \<open>gateway/handler.go\<close> (the
  handler that resolves a caller, parses and admits a scope, and serves the stream).

  What the network answers to one operation of the sink is an \<open>io_answers\<close> record; the
  answers of a whole connection are a function from the number of the operation.  The sink's
  mutex serializes the operations of the stream and of the heartbeat, so an interleaving of
  the two goroutines is the number of heartbeats that took the lock before each \<open>Emit\<close>.
\<close>

section \<open>The sink\<close>

definition ErrShortWrite :: go_error where
  [wire_defs]: "ErrShortWrite = ErrSentinel ''short write''"

definition ErrNotSupported :: go_error where
  [wire_defs]: "ErrNotSupported = ErrSentinel ''feature not supported''"

text \<open>
  The answers to one operation: \<open>ctx.Err()\<close>, the clock and the context's deadline, the
  results of setting the write deadline, of \<open>Write\<close> (the number of bytes it took and its
  error), of the flush, and of clearing the deadline.
\<close>

record io_answers =
  io_ctx :: "go_error option"
  io_now :: int
  io_ctxDeadline :: "int option"
  io_before :: "go_error option"
  io_n :: nat
  io_write :: "go_error option"
  io_flush :: "go_error option"
  io_after :: "go_error option"

text \<open>Which flush method a writer offers, and which flush function a sink was given.\<close>

datatype flush_cap = CapNone | CapFlushError | CapFlush

datatype flush_fun = FlushWriter flush_cap | FlushController flush_cap bool

text \<open>The calls a connection sees, in order.\<close>

datatype io_call =
    CallDeadline int "int option"
  | CallHeaders "(string \<times> string) list"
  | CallWrite string
  | CallFlush

datatype frame = EventFrame Event | CommentFrame string

text \<open>
  The struct, with \<open>ss_timeout\<close> for the two closures \<open>before\<close> and \<open>after\<close> (both nil
  or both installed) and \<open>ss_cancel\<close> for whether \<open>cancel\<close> is set.  The rest is the
  connection: the operations so far, whether \<open>cancel\<close> was called, the calls made; and for
  the theorems the frames whose write was begun, and whether the last of them broke.
\<close>

record SSESink =
  ss_timeout :: "int option"
  ss_flush :: flush_fun
  ss_cancel :: bool
  ss_failed :: "go_error option"
  ss_ops :: nat
  ss_cancelled :: bool
  ss_log :: "io_call list"
  ss_frames :: "frame list"
  ss_broken :: bool

definition NewSSESink :: "flush_cap \<Rightarrow> SSESink" where
  "NewSSESink cap =
     \<lparr>ss_timeout = None, ss_flush = FlushWriter cap, ss_cancel = False, ss_failed = None, ss_ops = 0,
      ss_cancelled = False, ss_log = [], ss_frames = [], ss_broken = False\<rparr>"

definition log_call :: "io_call \<Rightarrow> SSESink \<Rightarrow> SSESink" where
  "log_call c s = s\<lparr>ss_log := ss_log s @ [c]\<rparr>"

definition is_not_supported :: "go_error \<Rightarrow> bool" where
  "is_not_supported e \<longleftrightarrow> errors_Is e ErrNotSupported = Some True"

text \<open>\<open>http.ResponseController.Flush\<close>, and the two flush functions of a sink.\<close>

definition controller_Flush :: "flush_cap \<Rightarrow> io_answers \<Rightarrow> go_error option" where
  "controller_Flush cap a =
     (case cap of CapNone \<Rightarrow> Some (ErrWrap [] ErrNotSupported) | CapFlushError \<Rightarrow> io_flush a | CapFlush \<Rightarrow> None)"

definition run_flush :: "flush_fun \<Rightarrow> io_answers \<Rightarrow> go_error option" where
  "run_flush f a =
     (case f of
        FlushWriter cap \<Rightarrow> (case cap of CapFlushError \<Rightarrow> io_flush a | _ \<Rightarrow> None)
      | FlushController cap untimed \<Rightarrow>
          (case controller_Flush cap a of
             None \<Rightarrow> None
           | Some err \<Rightarrow> if untimed \<and> is_not_supported err then None else Some err))"

text \<open>The deadline \<open>sink.before\<close> sets: never later than the context's own.\<close>

definition write_deadline :: "int \<Rightarrow> io_answers \<Rightarrow> int" where
  "write_deadline timeout a =
     (let deadline = io_now a + timeout in
      case io_ctxDeadline a of
        Some earlier \<Rightarrow> if earlier < deadline then earlier else deadline
      | None \<Rightarrow> deadline)"

definition run_before :: "io_answers \<Rightarrow> SSESink \<Rightarrow> go_error option \<times> SSESink" where
  "run_before a s =
     (case ss_timeout s of
        None \<Rightarrow> (None, s)
      | Some timeout \<Rightarrow> (io_before a, log_call (CallDeadline (io_now a) (Some (write_deadline timeout a))) s))"

definition run_after :: "io_answers \<Rightarrow> SSESink \<Rightarrow> go_error option \<times> SSESink" where
  "run_after a s =
     (case ss_timeout s of
        None \<Rightarrow> (None, s)
      | Some _ \<Rightarrow> (io_after a, log_call (CallDeadline (io_now a) None) s))"

text \<open>The body of \<open>operation\<close> under the lock, before its deferred bookkeeping.\<close>

definition attempt ::
    "io_answers \<Rightarrow> (SSESink \<Rightarrow> go_error option \<times> SSESink) \<Rightarrow> SSESink \<Rightarrow> go_error option \<times> SSESink" where
  "attempt a write s =
     (case io_ctx a of
        Some err \<Rightarrow> (Some err, s)
      | None \<Rightarrow>
          (case run_before a s of
             (Some err, s) \<Rightarrow> (Some err, s)
           | (None, s) \<Rightarrow>
               (case write s of
                  (Some err, s) \<Rightarrow> (Some err, s)
                | (None, s) \<Rightarrow>
                    (case run_flush (ss_flush s) a of
                       Some err \<Rightarrow> (Some err, log_call CallFlush s)
                     | None \<Rightarrow> run_after a (log_call CallFlush s)))))"

definition poison :: "go_error \<Rightarrow> SSESink \<Rightarrow> SSESink" where
  "poison err s = s\<lparr>ss_failed := Some err, ss_cancelled := ss_cancelled s \<or> ss_cancel s\<rparr>"

definition operation ::
    "(nat \<Rightarrow> io_answers) \<Rightarrow> (io_answers \<Rightarrow> SSESink \<Rightarrow> go_error option \<times> SSESink) \<Rightarrow> SSESink \<Rightarrow> go_error option \<times> SSESink" where
  "operation io write s =
     (case ss_failed s of
        Some err \<Rightarrow> (Some err, s)
      | None \<Rightarrow>
          (let a = io (ss_ops s) in
           case attempt a (write a) (s\<lparr>ss_ops := Suc (ss_ops s)\<rparr>) of
             (None, s) \<Rightarrow> (None, s)
           | (Some err, s) \<Rightarrow> (Some err, poison err s)))"

definition write_bytes :: "string \<Rightarrow> io_answers \<Rightarrow> SSESink \<Rightarrow> go_error option \<times> SSESink" where
  "write_bytes bytes a s =
     (if io_write a = None \<and> io_n a \<noteq> length bytes then Some ErrShortWrite else io_write a,
      log_call (CallWrite (take (io_n a) bytes)) s)"

definition frame_bytes :: "frame \<Rightarrow> string" where
  "frame_bytes f =
     (case f of EventFrame ev \<Rightarrow> Event_MarshalSSE ev | CommentFrame t \<Rightarrow> '': '' @ t @ [newline, newline])"

text \<open>\<open>write\<close>, with the record of the frames begun and of the one that broke.\<close>

definition SSESink_write :: "(nat \<Rightarrow> io_answers) \<Rightarrow> frame \<Rightarrow> SSESink \<Rightarrow> go_error option \<times> SSESink" where
  "SSESink_write io f s =
     (let (r, s') = operation io (write_bytes (frame_bytes f)) s in
      (r, if ss_failed s = None then s'\<lparr>ss_frames := ss_frames s @ [f], ss_broken := (r \<noteq> None)\<rparr> else s'))"

definition SSESink_Emit :: "(nat \<Rightarrow> io_answers) \<Rightarrow> SSESink emit" where
  "SSESink_Emit io ev s = SSESink_write io (EventFrame ev) s"

definition SSESink_comment :: "(nat \<Rightarrow> io_answers) \<Rightarrow> string \<Rightarrow> SSESink \<Rightarrow> go_error option \<times> SSESink" where
  "SSESink_comment io t s = SSESink_write io (CommentFrame t) s"

definition heartbeat_interval :: "int \<Rightarrow> int" where
  "heartbeat_interval every = (if every \<le> 0 then 20000000000 else every)"

text \<open>The loop of \<open>Heartbeat\<close> over the ticks it takes; it ends at the first error.\<close>

fun Heartbeat :: "(nat \<Rightarrow> io_answers) \<Rightarrow> nat \<Rightarrow> SSESink \<Rightarrow> go_error option \<times> SSESink" where
  "Heartbeat io 0 s = (None, s)"
| "Heartbeat io (Suc ticks) s =
     (case SSESink_comment io ''heartbeat'' s of
        (Some err, s) \<Rightarrow> (Some err, s)
      | (None, s) \<Rightarrow> Heartbeat io ticks s)"

section \<open>The response writer\<close>

text \<open>
  Response writers wrap each other: a store of writers, each with the methods it has, and
  what its \<open>Unwrap\<close> returns (\<open>Some None\<close> is nil).  \<open>rw_SetWriteDeadline\<close> is what the
  method answers to a zero time.
\<close>

record writer =
  rw_FlushError :: bool
  rw_Flush :: bool
  rw_SetWriteDeadline :: "go_error option option"
  rw_Unwrap :: "nat option option"

type_synonym writers = "nat \<Rightarrow> writer"

text \<open>
  The loop that follows \<open>Unwrap\<close> to the first writer that has a method, in
  \<open>CheckHTTPStreaming\<close> and in \<open>http.ResponseController\<close>.  It may run forever, when
  writers wrap each other in a circle; the result is then \<open>None\<close>.
\<close>

partial_function (option) resolve :: "(writer \<Rightarrow> bool) \<Rightarrow> writers \<Rightarrow> nat option \<Rightarrow> nat option option" where
  [code]: "resolve has h current =
     (case current of
        None \<Rightarrow> Some None
      | Some w \<Rightarrow>
          (if has (h w) then Some (Some w)
           else case rw_Unwrap (h w) of None \<Rightarrow> Some None | Some inner \<Rightarrow> resolve has h inner))"

definition can_flush :: "writer \<Rightarrow> bool" where
  "can_flush w \<longleftrightarrow> rw_FlushError w \<or> rw_Flush w"

definition checkWriteDeadline :: "writers \<Rightarrow> nat \<Rightarrow> go_error option option" where
  "checkWriteDeadline h w =
     (case resolve (\<lambda>v. rw_SetWriteDeadline v \<noteq> None) h (Some w) of
        None \<Rightarrow> None
      | Some r \<Rightarrow>
          (case (case r of None \<Rightarrow> Some (ErrWrap [] ErrNotSupported) | Some v \<Rightarrow> the (rw_SetWriteDeadline (h v))) of
             Some err \<Rightarrow> Some (Some (ErrWrap ''krm-stream: HTTP write deadline'' err))
           | None \<Rightarrow> Some None))"

text \<open>The outer \<open>option\<close> is termination, the inner one Go's nil or non-nil error.\<close>

definition CheckHTTPStreaming :: "writers \<Rightarrow> nat \<Rightarrow> go_error option option" where
  "CheckHTTPStreaming h w =
     (case resolve can_flush h (Some w) of
        None \<Rightarrow> None
      | Some None \<Rightarrow> Some (Some (ErrWrap ''krm-stream: HTTP flush'' ErrNotSupported))
      | Some (Some _) \<Rightarrow> checkWriteDeadline h w)"

definition flush_cap_of :: "writers \<Rightarrow> nat option \<Rightarrow> flush_cap" where
  "flush_cap_of h r =
     (case r of None \<Rightarrow> CapNone | Some v \<Rightarrow> if rw_FlushError (h v) then CapFlushError else CapFlush)"

section \<open>Serving a stream\<close>

text \<open>The settings of \<open>StreamConfig\<close> that HTTP serving adds to a stream's.\<close>

record http_config =
  ht_Stream :: stream_config
  ht_WriteTimeout :: int
  ht_HeartbeatInterval :: int

definition em_dash :: string where
  "em_dash = [CHR 0xE2, CHR 0x80, CHR 0x94]"

text \<open>The message of the configuration panic, if there is one.\<close>

definition validateHTTPServing :: "int \<Rightarrow> int \<Rightarrow> string option" where
  "validateHTTPServing writeTimeout reauthorizationInterval =
     (if writeTimeout < 0 then Some ''krm-stream: WriteTimeout must not be negative''
      else if reauthorizationInterval > 0 \<and> writeTimeout = 0 then
        Some (''krm-stream: ReauthorizationInterval requires a positive WriteTimeout for HTTP streams '' @ em_dash @
          '' a timed check waits for the write in progress, and a write to a reader that stopped reading '' @
          ''never ends without one'')
      else None)"

definition sse_headers :: "(string \<times> string) list" where
  "sse_headers =
     [(''Content-Type'', ''text/event-stream''), (''X-KRM-Stream-Protocol'', show_nat ProtocolVersion),
      (''Cache-Control'', ''no-cache, no-transform''), (''Connection'', ''keep-alive''),
      (''X-Accel-Buffering'', ''no'')]"

definition writeSSEHeaders :: "(nat \<Rightarrow> io_answers) \<Rightarrow> SSESink \<Rightarrow> go_error option \<times> SSESink" where
  "writeSSEHeaders io s = operation io (\<lambda>a s. (None, log_call (CallHeaders sse_headers) s)) s"

text \<open>
  How serving a request ends: a configuration panic, a search for a method that never ends,
  \<open>panic(http.ErrAbortHandler)\<close> with its observation, headers that could not be written,
  or the outcome of \<open>run\<close>.
\<close>

datatype 'r serve_result =
    ConfigPanic string
  | Hung
  | Aborted Observation
  | NoHeaders SSESink
  | Ran 'r

definition http_sink :: "http_config \<Rightarrow> flush_cap \<Rightarrow> SSESink" where
  "http_sink cf cap =
     (NewSSESink cap)
       \<lparr>ss_cancel := True, ss_flush := FlushController cap (ht_WriteTimeout cf = 0),
        ss_timeout := (if ht_WriteTimeout cf > 0 then Some (ht_WriteTimeout cf) else None)\<rparr>"

text \<open>An \<open>Emit\<close> of the stream, after the heartbeats that took the sink's lock before it.\<close>

definition http_Emit :: "(nat \<Rightarrow> io_answers) \<Rightarrow> (nat \<Rightarrow> nat) \<Rightarrow> SSESink emit" where
  "http_Emit io ticks ev s = SSESink_Emit io ev (snd (Heartbeat io (ticks (ss_ops s)) s))"

text \<open>The deferred calls: stop the heartbeat, wait for it, clear the deadline.\<close>

definition close_http :: "(nat \<Rightarrow> io_answers) \<Rightarrow> (nat \<Rightarrow> nat) \<Rightarrow> SSESink \<Rightarrow> SSESink" where
  "close_http io ticks s =
     (let s = snd (Heartbeat io (ticks (ss_ops s)) (s\<lparr>ss_cancelled := True\<rparr>)) in
      if ss_timeout s = None then s else log_call (CallDeadline (io_now (io (ss_ops s))) None) s)"

definition serveHTTP ::
    "http_config \<Rightarrow> writers \<Rightarrow> nat \<Rightarrow> (nat \<Rightarrow> io_answers) \<Rightarrow> (nat \<Rightarrow> nat) \<Rightarrow>
     (SSESink emit \<Rightarrow> SSESink \<Rightarrow> 'r) \<Rightarrow> ((SSESink \<Rightarrow> SSESink) \<Rightarrow> 'r \<Rightarrow> 'r) \<Rightarrow> 'r serve_result" where
  "serveHTTP cf h w io ticks run on_return =
     (case validateHTTPServing (ht_WriteTimeout cf) (cf_ReauthorizationInterval (ht_Stream cf)) of
        Some msg \<Rightarrow> ConfigPanic msg
      | None \<Rightarrow>
          (case (if ht_WriteTimeout cf > 0 then CheckHTTPStreaming h w else Some None) of
             None \<Rightarrow> Hung
           | Some (Some _) \<Rightarrow> Aborted (obs_of ObservationHTTPTransportRejected None [] None (Some CodeInternal))
           | Some None \<Rightarrow>
               (case resolve can_flush h (Some w) of
                  None \<Rightarrow> Hung
                | Some r \<Rightarrow>
                    (case writeSSEHeaders io (http_sink cf (flush_cap_of h r)) of
                       (Some _, s) \<Rightarrow> NoHeaders (if ss_timeout s = None then s else log_call (CallDeadline (io_now (io (ss_ops s))) None) s)
                     | (None, s) \<Rightarrow> Ran (on_return (close_http io ticks) (run (http_Emit io ticks) s))))))"

text \<open>The deferred calls run when the stream returns and when its own goroutine panics.\<close>

definition on_stream_return ::
    "(SSESink \<Rightarrow> SSESink) \<Rightarrow> (SSESink, 'p) stream_result \<Rightarrow> (SSESink, 'p) stream_result" where
  "on_stream_return close r =
     (let f = (\<lambda>w. w\<lparr>wd_sink := (fst (wd_sink w), fst (snd (wd_sink w)), close (snd (snd (wd_sink w))))\<rparr>) in
      case r of
        Returned e w \<Rightarrow> Returned e (f w)
      | Panicked w \<Rightarrow> Panicked (f w)
      | Waiting w \<Rightarrow> Waiting w
      | Killed w \<Rightarrow> Killed w)"

definition ServeStream ::
    "http_config \<Rightarrow> writers \<Rightarrow> nat \<Rightarrow> (nat \<Rightarrow> io_answers) \<Rightarrow> (nat \<Rightarrow> nat) \<Rightarrow> answers list \<Rightarrow>
     'p \<Rightarrow> Scope \<Rightarrow> Projection \<Rightarrow> (SSESink, 'p) stream_result serve_result" where
  "ServeStream cf h w io ticks ans caller scope requested =
     serveHTTP cf h w io ticks (\<lambda>emit s. Stream (ht_Stream cf) emit caller scope requested ans s) on_stream_return"

section \<open>The handler\<close>

text \<open>Whether each required callback is set, and the allowlist.\<close>

record options =
  op_Config :: http_config
  op_hasPrincipal :: bool
  op_hasAuthorizer :: bool
  op_hasClients :: bool
  op_Scopes :: ScopePolicy

text \<open>The panic of \<open>Handler\<close> at construction, if there is one.\<close>

definition Handler_panic :: "options \<Rightarrow> string option" where
  "Handler_panic o' =
     (case validateHTTPServing (ht_WriteTimeout (op_Config o')) (cf_ReauthorizationInterval (ht_Stream (op_Config o'))) of
        Some msg \<Rightarrow> Some msg
      | None \<Rightarrow>
          if \<not> op_hasPrincipal o' then
            Some (''krm-stream: Options.Principal is required '' @ em_dash @ '' the library must never assume who the caller is'')
          else if \<not> op_hasAuthorizer o' then
            Some (''krm-stream: StreamConfig.Authorizer is required '' @ em_dash @ '' use gateway.AllowAll{} to say you meant it'')
          else if \<not> op_hasClients o' then
            Some (''krm-stream: StreamConfig.Clients is required '' @ em_dash @ '' the library holds no cluster connection of its own'')
          else if sp_AnyResource (op_Scopes o') \<and> sp_Resources (op_Scopes o') \<noteq> [] then
            Some (''krm-stream: ScopePolicy sets both Resources and AnyResource '' @ em_dash @ '' choose an allowlist or delegation, not both'')
          else None)"

text \<open>What the handler did with one request.\<close>

datatype 'p handled =
    Refused "'p Diagnostic" StreamError "SSESink serve_result"
  | Accepted 'p Scope Projection "(SSESink, 'p) stream_result serve_result"

definition refuse ::
    "http_config \<Rightarrow> writers \<Rightarrow> nat \<Rightarrow> (nat \<Rightarrow> io_answers) \<Rightarrow> (nat \<Rightarrow> nat) \<Rightarrow> 'p Diagnostic \<Rightarrow> StreamError \<Rightarrow> 'p handled" where
  "refuse cf h w io ticks d serr =
     Refused d serr (serveHTTP cf h w io ticks
       (\<lambda>emit s. snd (snd (sequenceSink_Emit emit (StreamError_Event serr) (0, s)))) (\<lambda>close s. close s))"

definition principal_error :: "go_error \<Rightarrow> StreamError" where
  "principal_error err =
     (case errors_As err of
        Some (Some se) \<Rightarrow> se
      | _ \<Rightarrow> StreamError CodeUnauthenticated ''not authenticated'' True None (Some err))"

text \<open>
  One request: what \<open>o.Principal(r)\<close> answered, and the raw query.  A scope that did not
  parse is the zero scope in the diagnostic.
\<close>

definition Handler ::
    "(string \<Rightarrow> string) \<Rightarrow> options \<Rightarrow> writers \<Rightarrow> nat \<Rightarrow> (nat \<Rightarrow> io_answers) \<Rightarrow> (nat \<Rightarrow> nat) \<Rightarrow> answers list \<Rightarrow>
     go_error + 'p \<Rightarrow> string \<Rightarrow> 'p handled" where
  "Handler unicode_lower o' h w io ticks ans who raw =
     (case who of
        Inl err \<Rightarrow>
          (let se = principal_error err in
           refuse (op_Config o') h w io ticks
             \<lparr>dg_Principal = None, dg_Scope = None, dg_Code = se_Code se, dg_Terminal = se_Terminal se, dg_Err = err\<rparr> se)
      | Inr caller \<Rightarrow>
          (case ScopeFromQuery unicode_lower (ParseQuery raw) of
             Inl e \<Rightarrow>
               (let se = asStreamError (ErrStream e) in
                refuse (op_Config o') h w io ticks
                  \<lparr>dg_Principal = Some caller, dg_Scope = None, dg_Code = se_Code se, dg_Terminal = se_Terminal se,
                   dg_Err = ErrStream e\<rparr> se)
           | Inr scope \<Rightarrow>
               (case Validate (op_Scopes o') scope of
                  Some e \<Rightarrow>
                    (let se = asStreamError (ErrStream e) in
                     refuse (op_Config o') h w io ticks
                       \<lparr>dg_Principal = Some caller, dg_Scope = Some scope, dg_Code = se_Code se,
                        dg_Terminal = se_Terminal se, dg_Err = ErrStream e\<rparr> se)
                | None \<Rightarrow>
                    (let requested = Values_Get (ParseQuery raw) ''projection'' in
                     Accepted caller scope requested
                       (ServeStream (op_Config o') h w io ticks ans caller scope requested)))))"

section \<open>What a browser reads\<close>

text \<open>
  The event stream format as a browser parses it: line ends normalized, comment lines and
  unknown fields dropped, the \<open>data\<close> lines of a block joined, and a block dispatched at its
  blank line.  A block that is cut off is not dispatched.
\<close>

abbreviation carriage :: char where "carriage \<equiv> CHR 0x0D"

fun crlf :: "string \<Rightarrow> string" where
  "crlf [] = []"
| "crlf [c] = [if c = carriage then newline else c]"
| "crlf (c # d # s) =
     (if c = carriage then newline # (if d = newline then crlf s else crlf (d # s)) else c # crlf (d # s))"

definition data_field :: "string \<Rightarrow> string option" where
  "data_field l =
     (if take 5 l = ''data:'' then
        (let v = drop 5 l in Some (if v \<noteq> [] \<and> hd v = CHR '' '' then tl v else v))
      else if l = ''data'' then Some []
      else None)"

fun dispatch :: "string option \<Rightarrow> string list \<Rightarrow> string list" where
  "dispatch buf [] = []"
| "dispatch buf (l # ls) =
     (if l = [] then (case buf of None \<Rightarrow> dispatch None ls | Some d \<Rightarrow> d # dispatch None ls)
      else case data_field l of
        None \<Rightarrow> dispatch buf ls
      | Some v \<Rightarrow> dispatch (Some (case buf of None \<Rightarrow> v | Some d \<Rightarrow> d @ newline # v)) ls)"

definition sse_parse :: "string \<Rightarrow> string list" where
  "sse_parse bytes = dispatch None (butlast (pieces newline (crlf bytes)))"

section \<open>Notions the lemmas use\<close>

fun written :: "io_call \<Rightarrow> string" where
  "written (CallWrite b) = b"
| "written _ = []"

definition wire_bytes :: "SSESink \<Rightarrow> string" where
  "wire_bytes s = concat (map written (ss_log s))"

fun frame_event :: "frame \<Rightarrow> Event list" where
  "frame_event (EventFrame e) = [e]"
| "frame_event (CommentFrame _) = []"

text \<open>Every event of which a byte may have been written.\<close>

definition sent_events :: "SSESink \<Rightarrow> Event list" where
  "sent_events s = concat (map frame_event (ss_frames s))"

definition event_text :: "Event \<Rightarrow> string" where
  "event_text e = enc (Event_MarshalJSON e)"

text \<open>
  The bytes on the wire are whole frames; only the last one may be cut short, and then the
  sink has failed.
\<close>

definition framed :: "SSESink \<Rightarrow> bool" where
  "framed s \<longleftrightarrow>
     (if ss_broken s
      then ss_failed s \<noteq> None \<and> ss_frames s \<noteq> [] \<and>
        (\<exists>tail. prefix tail (frame_bytes (last (ss_frames s))) \<and>
           wire_bytes s = concat (map frame_bytes (butlast (ss_frames s))) @ tail)
      else wire_bytes s = concat (map frame_bytes (ss_frames s)))"

text \<open>
  A log in which every write, header and flush happens under a deadline at most \<open>T\<close> after
  the moment it was set.
\<close>

fun arms :: "int \<Rightarrow> bool \<Rightarrow> io_call \<Rightarrow> bool" where
  "arms T armed (CallDeadline now d) = (case d of None \<Rightarrow> False | Some t \<Rightarrow> t \<le> now + T)"
| "arms T armed _ = armed"

fun may_block :: "io_call \<Rightarrow> bool" where
  "may_block (CallDeadline _ _) = False"
| "may_block _ = True"

fun bounded_log :: "int \<Rightarrow> bool \<Rightarrow> io_call list \<Rightarrow> bool" where
  "bounded_log T armed [] = True"
| "bounded_log T armed (c # cs) = ((may_block c \<longrightarrow> armed) \<and> bounded_log T (arms T armed c) cs)"

definition sink_bounded :: "SSESink \<Rightarrow> bool" where
  "sink_bounded s \<longleftrightarrow> (case ss_timeout s of None \<Rightarrow> True | Some T \<Rightarrow> bounded_log T False (ss_log s))"

text \<open>A frame a browser can read: the numbers of its object are number literals.\<close>

fun frame_ok :: "frame \<Rightarrow> bool" where
  "frame_ok (EventFrame e) = nums_ok (JObj (ev_Object e))"
| "frame_ok (CommentFrame t) = printable t"

section \<open>Lemmas\<close>

subsection \<open>One operation\<close>

lemma log_call_simps [simp]:
  "ss_log (log_call c s) = ss_log s @ [c]" "ss_timeout (log_call c s) = ss_timeout s"
  "ss_flush (log_call c s) = ss_flush s" "ss_cancel (log_call c s) = ss_cancel s"
  "ss_failed (log_call c s) = ss_failed s" "ss_ops (log_call c s) = ss_ops s"
  "ss_cancelled (log_call c s) = ss_cancelled s" "ss_frames (log_call c s) = ss_frames s"
  "ss_broken (log_call c s) = ss_broken s"
  by (simp_all add: log_call_def)

lemma wire_bytes_log [simp]: "wire_bytes (log_call c s) = wire_bytes s @ written c"
  by (simp add: wire_bytes_def)

lemma poison_simps [simp]:
  "ss_log (poison e s) = ss_log s" "ss_timeout (poison e s) = ss_timeout s" "ss_failed (poison e s) = Some e"
  "ss_frames (poison e s) = ss_frames s" "ss_broken (poison e s) = ss_broken s" "wire_bytes (poison e s) = wire_bytes s"
  "ss_cancelled (poison e s) \<longleftrightarrow> ss_cancelled s \<or> ss_cancel s" "ss_cancel (poison e s) = ss_cancel s"
  by (simp_all add: poison_def wire_bytes_def)

lemma wire_bytes_frame [simp]:
  "wire_bytes (s\<lparr>ss_ops := n\<rparr>) = wire_bytes s" "wire_bytes (s\<lparr>ss_frames := fs, ss_broken := b\<rparr>) = wire_bytes s"
  "wire_bytes (s\<lparr>ss_cancelled := c\<rparr>) = wire_bytes s"
  by (simp_all add: wire_bytes_def)

text \<open>
  A write that only adds one call: the operation keeps the sink's settings and frames, puts
  a prefix of that call's bytes on the wire, and all of them when it succeeds.
\<close>

definition one_call :: "io_answers \<Rightarrow> (SSESink \<Rightarrow> go_error option \<times> SSESink) \<Rightarrow> string \<Rightarrow> bool" where
  "one_call a write bytes \<longleftrightarrow>
     (\<exists>r c. (\<forall>s. write s = (r, log_call c s)) \<and> may_block c \<and> prefix (written c) bytes \<and> (r = None \<longrightarrow> written c = bytes))"

lemma one_call_bytes: "one_call a (write_bytes bytes a) bytes"
  unfolding one_call_def write_bytes_def
  by (intro exI conjI allI) (auto simp: take_is_prefix split: if_splits)

lemma one_call_headers: "one_call a (\<lambda>s. (None, log_call (CallHeaders hs) s)) []"
  unfolding one_call_def by (intro exI conjI allI) auto

lemma attempt_keeps:
  assumes "one_call a write bytes" and "attempt a write s = (r, s')"
  shows "ss_frames s' = ss_frames s \<and> ss_broken s' = ss_broken s \<and> ss_failed s' = ss_failed s \<and>
    ss_timeout s' = ss_timeout s \<and> ss_cancel s' = ss_cancel s"
  using assms unfolding one_call_def attempt_def run_before_def run_after_def
  by (auto split: option.splits)

lemma attempt_wire:
  assumes "one_call a write bytes" and "attempt a write s = (r, s')"
  shows "\<exists>tail. wire_bytes s' = wire_bytes s @ tail \<and> prefix tail bytes \<and> (r = None \<longrightarrow> tail = bytes)"
  using assms unfolding one_call_def attempt_def run_before_def run_after_def
  by (auto split: option.splits)

lemma bounded_log_append:
  "bounded_log T b (cs @ ds) \<longleftrightarrow> bounded_log T b cs \<and> bounded_log T (foldl (arms T) b cs) ds"
  by (induction cs arbitrary: b) auto

lemma write_deadline_le: "write_deadline T a \<le> io_now a + T"
  by (auto simp: write_deadline_def Let_def split: option.splits)

lemma may_block_arms: "may_block c \<Longrightarrow> arms T b c = b"
  by (cases c) auto

lemma attempt_bounded:
  assumes "one_call a write bytes" and "attempt a write s = (r, s')" and "sink_bounded s"
  shows "sink_bounded s'"
  using assms write_deadline_le [of _ a] unfolding one_call_def attempt_def run_before_def run_after_def sink_bounded_def
  by (auto split: option.splits simp: bounded_log_append may_block_arms)

text \<open>A poisoned sink answers every operation with its first failure and touches nothing.\<close>

lemma operation_failed: "ss_failed s = Some err \<Longrightarrow> operation io write s = (Some err, s)"
  by (simp add: operation_def)

lemma operation_cases:
  assumes "operation io write s = (r, s')"
  obtains (dead) err where "ss_failed s = Some err" "r = Some err" "s' = s"
  | (live) t where "ss_failed s = None"
      "attempt (io (ss_ops s)) (write (io (ss_ops s))) (s\<lparr>ss_ops := Suc (ss_ops s)\<rparr>) = (r, t)"
      "s' = (case r of None \<Rightarrow> t | Some e \<Rightarrow> poison e t)"
  using assms by (cases "ss_failed s") (auto simp: operation_def Let_def split: prod.splits option.splits)

lemma operation_keeps:
  assumes "\<And>a. one_call a (write a) bytes" and "operation io write s = (r, s')"
  shows "ss_frames s' = ss_frames s \<and> ss_broken s' = ss_broken s \<and> ss_timeout s' = ss_timeout s \<and>
    ss_cancel s' = ss_cancel s \<and> ss_failed s' = r"
  using assms(2)
proof (cases rule: operation_cases)
  case (live t)
  then show ?thesis using attempt_keeps [OF assms(1) live(2)] by (simp split: option.splits)
qed simp

lemma operation_wire:
  assumes "\<And>a. one_call a (write a) bytes" and "operation io write s = (r, s')"
  shows "\<exists>tail. wire_bytes s' = wire_bytes s @ tail \<and> prefix tail bytes \<and> (r = None \<longrightarrow> tail = bytes)"
  using assms(2)
proof (cases rule: operation_cases)
  case (live t)
  then show ?thesis using attempt_wire [OF assms(1) live(2)] by (auto split: option.splits)
qed auto

lemma sink_bounded_frame [simp]:
  "sink_bounded (s\<lparr>ss_ops := n\<rparr>) = sink_bounded s" "sink_bounded (poison e s) = sink_bounded s"
  "sink_bounded (s\<lparr>ss_frames := fs, ss_broken := b\<rparr>) = sink_bounded s"
  "sink_bounded (s\<lparr>ss_cancelled := c\<rparr>) = sink_bounded s"
  by (simp_all add: sink_bounded_def split: option.split)

lemma sink_bounded_clear: "sink_bounded s \<Longrightarrow> sink_bounded (log_call (CallDeadline now None) s)"
  by (auto simp: sink_bounded_def bounded_log_append split: option.splits)

lemma operation_bounded:
  assumes "\<And>a. one_call a (write a) bytes" and "operation io write s = (r, s')" and "sink_bounded s"
  shows "sink_bounded s'"
  using assms(2)
proof (cases rule: operation_cases)
  case (live t)
  then show ?thesis using attempt_bounded [OF assms(1) live(2)] assms(3) by (simp split: option.splits)
qed (use assms(3) in simp)

subsection \<open>One frame\<close>

text \<open>What every frame keeps: the framing of the bytes, the deadline of every call, the settings.\<close>

definition sink_ok :: "int option \<Rightarrow> SSESink \<Rightarrow> bool" where
  "sink_ok T s \<longleftrightarrow> framed s \<and> sink_bounded s \<and> ss_timeout s = T"

lemma write_cases:
  assumes "SSESink_write io f s = (r, s')"
  obtains (dead) err where "ss_failed s = Some err" "r = Some err" "s' = s"
  | (live) t where "ss_failed s = None" "operation io (write_bytes (frame_bytes f)) s = (r, t)"
      "s' = t\<lparr>ss_frames := ss_frames s @ [f], ss_broken := (r \<noteq> None)\<rparr>"
  using assms by (cases "ss_failed s") (auto simp: SSESink_write_def Let_def operation_failed split: prod.splits)

lemma write_sink_ok:
  assumes "sink_ok T s" and "SSESink_write io f s = (r, s')"
  shows "sink_ok T s'"
  using assms(2)
proof (cases rule: write_cases)
  case (live t)
  note keep = operation_keeps [OF one_call_bytes live(2)]
  obtain tail where tail: "wire_bytes t = wire_bytes s @ tail" "prefix tail (frame_bytes f)" "r = None \<longrightarrow> tail = frame_bytes f"
    using operation_wire [OF one_call_bytes live(2)] by blast
  have s: "wire_bytes s = concat (map frame_bytes (ss_frames s))"
    using assms(1) live(1) by (auto simp: sink_ok_def framed_def split: if_splits)
  have "framed s'"
    using tail keep s live(3) by (auto simp: framed_def)
  then show ?thesis
    using assms(1) live(3) keep operation_bounded [OF one_call_bytes live(2)] by (simp add: sink_ok_def)
qed (use assms(1) in simp)

lemma write_sent:
  assumes "SSESink_write io f s = (r, s')"
  shows "sent_events s' = sent_events s @ (if ss_failed s = None then frame_event f else [])"
  using assms
proof (cases rule: write_cases)
  case (live t)
  then show ?thesis using operation_keeps [OF one_call_bytes live(2)] by (simp add: sent_events_def)
qed simp

lemma write_ok_alive: "SSESink_write io f s = (None, s') \<Longrightarrow> ss_failed s = None"
  by (erule write_cases) auto

lemma write_failed:
  assumes "SSESink_write io f s = (r, s')"
  shows "ss_failed s' = r"
  using assms
proof (cases rule: write_cases)
  case (live t)
  then show ?thesis using operation_keeps [OF one_call_bytes live(2)] by simp
qed simp

lemma Heartbeat_keeps:
  "Heartbeat io n s = (r, s') \<Longrightarrow> sent_events s' = sent_events s \<and> (sink_ok T s \<longrightarrow> sink_ok T s')"
proof (induction n arbitrary: s)
  case (Suc n)
  obtain q t where qt: "SSESink_comment io ''heartbeat'' s = (q, t)"
    by (cases "SSESink_comment io ''heartbeat'' s")
  have t: "sent_events t = sent_events s" "sink_ok T s \<longrightarrow> sink_ok T t"
    using qt write_sent [of io "CommentFrame ''heartbeat''" s q t] write_sink_ok [of T s io "CommentFrame ''heartbeat''" q t]
    by (auto simp: SSESink_comment_def)
  show ?case
  proof (cases q)
    case None
    then show ?thesis using Suc.IH [of t] Suc.prems qt t by simp
  qed (use Suc.prems qt t in auto)
qed simp

text \<open>The SSE sink is a sink of the stream loop, alone and with the heartbeat beside it.\<close>

interpretation sse: wire_sink "SSESink_Emit io" sent_events for io
proof
  fix e s s'
  assume "SSESink_Emit io e s = (None, s')"
  then show "sent_events s' = sent_events s @ [e]"
    using write_sent [of io "EventFrame e" s None s'] write_ok_alive [of io "EventFrame e" s s'] by (simp add: SSESink_Emit_def)
next
  fix e s x s'
  assume "SSESink_Emit io e s = (Some x, s')"
  then show "sent_events s' = sent_events s \<or> sent_events s' = sent_events s @ [e]"
    using write_sent [of io "EventFrame e" s "Some x" s'] by (simp add: SSESink_Emit_def split: if_splits)
qed

interpretation http: wire_sink "http_Emit io ticks" sent_events for io ticks
proof
  fix e s s'
  assume a: "http_Emit io ticks e s = (None, s')"
  obtain r t where t: "Heartbeat io (ticks (ss_ops s)) s = (r, t)" by (cases "Heartbeat io (ticks (ss_ops s)) s")
  show "sent_events s' = sent_events s @ [e]"
    using sse.wire_ok [of io e t s'] Heartbeat_keeps [OF t] a by (simp add: http_Emit_def t)
next
  fix e s x s'
  assume a: "http_Emit io ticks e s = (Some x, s')"
  obtain r t where t: "Heartbeat io (ticks (ss_ops s)) s = (r, t)" by (cases "Heartbeat io (ticks (ss_ops s)) s")
  show "sent_events s' = sent_events s \<or> sent_events s' = sent_events s @ [e]"
    using sse.wire_err [of io e t x s'] Heartbeat_keeps [OF t] a by (simp add: http_Emit_def t)
qed

lemma http_Emit_keeps: "emit_keeps (http_Emit io ticks) (sink_ok T)"
  unfolding emit_keeps_def http_Emit_def SSESink_Emit_def
  by (metis Heartbeat_keeps prod.collapse write_sink_ok)

lemma close_http_keeps: "sent_events (close_http io ticks s) = sent_events s \<and> (sink_ok T s \<longrightarrow> sink_ok T (close_http io ticks s))"
proof -
  obtain r t where t: "Heartbeat io (ticks (ss_ops s)) (s\<lparr>ss_cancelled := True\<rparr>) = (r, t)"
    by (cases "Heartbeat io (ticks (ss_ops s)) (s\<lparr>ss_cancelled := True\<rparr>)")
  have s: "sent_events (s\<lparr>ss_cancelled := True\<rparr>) = sent_events s" "sink_ok T (s\<lparr>ss_cancelled := True\<rparr>) = sink_ok T s"
    by (simp_all add: sent_events_def sink_ok_def framed_def)
  have c: "sent_events (log_call (CallDeadline n None) t) = sent_events t"
    "sink_ok T t \<longrightarrow> sink_ok T (log_call (CallDeadline n None) t)" for n
    by (simp_all add: sent_events_def sink_ok_def framed_def sink_bounded_clear)
  show ?thesis using Heartbeat_keeps [OF t, of T] s c by (simp add: close_http_def Let_def t)
qed

text \<open>Of comments the code writes only the heartbeat, which has no control characters.\<close>

fun comment_ok :: "frame \<Rightarrow> bool" where
  "comment_ok (EventFrame e) = True"
| "comment_ok (CommentFrame t) = printable t"

definition comments_ok :: "SSESink \<Rightarrow> bool" where
  "comments_ok s \<longleftrightarrow> list_all comment_ok (ss_frames s)"

lemma write_comments:
  assumes "SSESink_write io f s = (r, s')" and "comment_ok f" and "comments_ok s"
  shows "comments_ok s'"
  using assms(1)
proof (cases rule: write_cases)
  case (live t)
  then show ?thesis using assms(2,3) by (simp add: comments_ok_def)
qed (use assms(3) in simp)

lemma Heartbeat_comments: "Heartbeat io n s = (r, s') \<Longrightarrow> comments_ok s \<Longrightarrow> comments_ok s'"
proof (induction n arbitrary: s)
  case (Suc n)
  obtain q t where qt: "SSESink_comment io ''heartbeat'' s = (q, t)" by (cases "SSESink_comment io ''heartbeat'' s")
  have "comment_ok (CommentFrame ''heartbeat'')" by code_simp
  then have "comments_ok t" using write_comments [OF qt [unfolded SSESink_comment_def]] Suc.prems(2) by blast
  then show ?case using Suc.IH [of t] Suc.prems qt by (cases q) auto
qed simp

lemma http_Emit_comments: "emit_keeps (http_Emit io ticks) comments_ok"
  unfolding emit_keeps_def http_Emit_def SSESink_Emit_def
  by (metis Heartbeat_comments prod.collapse write_comments comment_ok.simps(1))

lemma close_http_comments: "comments_ok s \<Longrightarrow> comments_ok (close_http io ticks s)"
proof -
  assume s: "comments_ok s"
  obtain r t where t: "Heartbeat io (ticks (ss_ops s)) (s\<lparr>ss_cancelled := True\<rparr>) = (r, t)"
    by (cases "Heartbeat io (ticks (ss_ops s)) (s\<lparr>ss_cancelled := True\<rparr>)")
  have "comments_ok t" using Heartbeat_comments [OF t] s by (simp add: comments_ok_def)
  then show ?thesis by (simp add: close_http_def Let_def t comments_ok_def)
qed

subsection \<open>Frames read back\<close>

lemma crlf_id: "carriage \<notin> set s \<Longrightarrow> crlf s = s"
  by (induction s rule: crlf.induct) auto

lemma pieces_not_Nil [simp]: "pieces sep s \<noteq> []"
  by (cases s) (auto split: list.splits)

definition frame_line :: "frame \<Rightarrow> string" where
  "frame_line f = (case f of EventFrame e \<Rightarrow> ''data: '' @ event_text e | CommentFrame t \<Rightarrow> '': '' @ t)"

lemma frame_bytes_line: "frame_bytes f = frame_line f @ [newline, newline]"
  by (cases f) (simp_all add: frame_bytes_def frame_line_def Event_MarshalSSE_def event_text_def)

lemma nums_ok_members:
  "nums_ok (Redaction_json r)" "nums_ok (Identity_json i)" "nums_ok (Scope_json sc)"
  by (simp_all add: Redaction_json_def Identity_json_def Scope_json_def str_member_def omit_def)

lemma list_all_omit [simp]: "list_all P (omit z k v) \<longleftrightarrow> z \<or> P (k, v)"
  by (simp add: omit_def)

lemma nums_ok_canon_obj: "nums_ok (JObj m) \<Longrightarrow> nums_ok (canon (JObj m))"
  using nums_ok_canon [of "JObj m"] by blast

lemma nums_ok_base:
  assumes "nums_ok (JObj (ev_Object e))"
  shows "list_all (\<lambda>kv. nums_ok (snd kv)) (base_members e)"
  using nums_ok_canon_obj [OF assms]
  by (simp add: base_members_def str_member_def nums_ok_members list_all_iff [of nums_ok] del: canon.simps split: option.split)

lemma nums_ok_event: "nums_ok (JObj (ev_Object e)) \<Longrightarrow> nums_ok (Event_MarshalJSON e)"
  using nums_ok_base [of e] nums_ok_base [of "e\<lparr>ev_Redacted := None\<rparr>"] nums_ok_base [of "e\<lparr>ev_Terminal := False\<rparr>"]
  by (auto simp: Event_MarshalJSON_def Let_def nums_ok_members list_all_iff [of nums_ok] split: EventType.split)

lemma frame_line_printable: "frame_ok f \<Longrightarrow> printable (frame_line f)"
  by (cases f) (simp_all add: frame_line_def event_text_def printable_enc nums_ok_event less_char_def)

lemma printable_no_breaks: "printable s \<Longrightarrow> newline \<notin> set s \<and> carriage \<notin> set s"
  by (auto simp: printable_def list_all_iff less_char_def)

lemma dispatch_line: "dispatch None (frame_line f # [] # ls) = map event_text (frame_event f) @ dispatch None ls"
  by (cases f) (simp_all add: frame_line_def data_field_def)

lemma dispatch_open: "dispatch None [frame_line f] = []"
  by (cases f) (simp_all add: frame_line_def data_field_def)

lemma parse_frame:
  assumes "frame_ok f"
  shows "dispatch None (butlast (pieces newline (frame_bytes f @ rest))) =
    map event_text (frame_event f) @ dispatch None (butlast (pieces newline rest))"
proof -
  have "newline \<notin> set (frame_line f)" using assms frame_line_printable printable_no_breaks by blast
  then have "pieces newline (frame_bytes f @ rest) = frame_line f # [] # pieces newline rest"
    by (simp add: frame_bytes_line pieces_append)
  then show ?thesis by (simp add: dispatch_line del: dispatch.simps)
qed

lemma parse_frames:
  "list_all frame_ok fs \<Longrightarrow>
     dispatch None (butlast (pieces newline (concat (map frame_bytes fs) @ rest))) =
     map event_text (concat (map frame_event fs)) @ dispatch None (butlast (pieces newline rest))"
  by (induction fs) (simp_all add: parse_frame)

lemma parse_tail:
  assumes "frame_ok f" and "prefix tail (frame_bytes f)"
  shows "dispatch None (butlast (pieces newline tail)) \<in> {[], map event_text (frame_event f)}"
proof -
  have n: "newline \<notin> set (frame_line f)" using assms frame_line_printable printable_no_breaks by blast
  from assms(2) consider "prefix tail (frame_line f)" | "tail = frame_line f @ [newline]" | "tail = frame_bytes f"
    by (auto simp: frame_bytes_line prefix_append prefix_Cons)
  then show ?thesis
  proof cases
    case 1
    then have "newline \<notin> set tail" using n set_mono_prefix by blast
    then show ?thesis by (simp add: pieces_plain)
  next
    case 2
    then show ?thesis using n by (simp add: pieces_append dispatch_open del: dispatch.simps(2))
  next
    case 3
    then show ?thesis using parse_frame [OF assms(1), of "[]"] by simp
  qed
qed

lemma wire_no_carriage: "framed s \<Longrightarrow> list_all frame_ok (ss_frames s) \<Longrightarrow> carriage \<notin> set (wire_bytes s)"
proof -
  assume f: "framed s" and ok: "list_all frame_ok (ss_frames s)"
  have "carriage \<notin> set (frame_bytes f)" if "f \<in> set (ss_frames s)" for f
    using that ok frame_line_printable [of f] printable_no_breaks [of "frame_line f"] by (auto simp: list_all_iff frame_bytes_line)
  moreover have "set (wire_bytes s) \<subseteq> (\<Union>f \<in> set (ss_frames s). set (frame_bytes f))"
    using f by (auto simp: framed_def split: if_splits)
      (meson in_set_butlastD, meson last_in_set set_mono_prefix subsetD)
  ultimately show ?thesis by blast
qed

text \<open>What is read is all that was sent, or all but the event of the last frame, which broke.\<close>

definition read_back :: "SSESink \<Rightarrow> string list \<Rightarrow> bool" where
  "read_back s texts \<longleftrightarrow>
     texts = map event_text (sent_events s) \<or>
     (\<exists>ds e. ss_broken s \<and> last (ss_frames s) = EventFrame e \<and> sent_events s = ds @ [e] \<and> texts = map event_text ds)"

lemma sse_parse_framed:
  assumes "framed s" and "list_all frame_ok (ss_frames s)"
  shows "read_back s (sse_parse (wire_bytes s))"
proof (cases "ss_broken s")
  case True
  then obtain tail where ne: "ss_frames s \<noteq> []" and tail: "prefix tail (frame_bytes (last (ss_frames s)))"
    "wire_bytes s = concat (map frame_bytes (butlast (ss_frames s))) @ tail"
    using assms(1) by (auto simp: framed_def)
  obtain fs f where fs: "ss_frames s = fs @ [f]" using ne by (cases "ss_frames s" rule: rev_cases) auto
  have "sse_parse (wire_bytes s) =
      map event_text (concat (map frame_event fs)) @ dispatch None (butlast (pieces newline tail))"
    using tail(2) parse_frames [of fs tail] assms(2) fs wire_no_carriage [OF assms] by (simp add: sse_parse_def crlf_id)
  moreover have "dispatch None (butlast (pieces newline tail)) \<in> {[], map event_text (frame_event f)}"
    by (rule parse_tail) (use tail(1) assms(2) fs in simp_all)
  ultimately show ?thesis using True fs by (cases f) (auto simp: read_back_def sent_events_def)
next
  case False
  then show ?thesis using assms wire_no_carriage [OF assms] parse_frames [of "ss_frames s" "[]"]
    by (simp add: read_back_def sse_parse_def crlf_id framed_def sent_events_def)
qed

subsection \<open>Serving\<close>

definition timeout_of :: "http_config \<Rightarrow> int option" where
  "timeout_of cf = (if ht_WriteTimeout cf > 0 then Some (ht_WriteTimeout cf) else None)"

lemma http_sink_ok: "sink_ok (timeout_of cf) (http_sink cf cap)" "sent_events (http_sink cf cap) = []"
  by (auto simp: sink_ok_def framed_def sink_bounded_def http_sink_def NewSSESink_def wire_bytes_def sent_events_def
      timeout_of_def)

lemma headers_ok:
  assumes "writeSSEHeaders io s = (r, s')" and "sink_ok T s"
  shows "sink_ok T s' \<and> sent_events s' = sent_events s \<and> ss_failed s' = r"
proof -
  have op: "operation io (\<lambda>a s. (None, log_call (CallHeaders sse_headers) s)) s = (r, s')"
    using assms(1) by (simp add: writeSSEHeaders_def)
  note keep = operation_keeps [OF one_call_headers op] operation_wire [OF one_call_headers op]
    operation_bounded [OF one_call_headers op]
  have "r = None \<or> ss_failed s \<noteq> None \<or> \<not> ss_broken s"
    using assms(2) by (auto simp: sink_ok_def framed_def split: if_splits)
  have "framed s'"
  proof (cases "ss_failed s")
    case None
    then show ?thesis using keep assms(2) by (auto simp: sink_ok_def framed_def split: if_splits)
  next
    case (Some e)
    then show ?thesis using op assms(2) by (simp add: operation_failed sink_ok_def)
  qed
  then show ?thesis using keep assms(2) by (simp add: sink_ok_def sent_events_def)
qed

lemma headers_comments:
  assumes "writeSSEHeaders io (http_sink cf cap) = (r, s)"
  shows "comments_ok s"
proof -
  have op: "operation io (\<lambda>a s. (None, log_call (CallHeaders sse_headers) s)) (http_sink cf cap) = (r, s)"
    using assms by (simp add: writeSSEHeaders_def)
  show ?thesis using operation_keeps [OF one_call_headers op]
    by (simp add: comments_ok_def http_sink_def NewSSESink_def)
qed

lemma serveHTTP_Ran:
  assumes "serveHTTP cf h w io ticks run on_return = Ran x"
  obtains s where "x = on_return (close_http io ticks) (run (http_Emit io ticks) s)" "sent_events s = []"
    "sink_ok (timeout_of cf) s" "comments_ok s" "ht_WriteTimeout cf \<ge> 0"
    "ht_WriteTimeout cf > 0 \<longrightarrow> CheckHTTPStreaming h w = Some None"
    "ht_WriteTimeout cf > 0 \<or> cf_ReauthorizationInterval (ht_Stream cf) \<le> 0"
proof -
  obtain r s where s: "writeSSEHeaders io (http_sink cf (flush_cap_of h r)) = (None, s)"
    "x = on_return (close_http io ticks) (run (http_Emit io ticks) s)"
    "validateHTTPServing (ht_WriteTimeout cf) (cf_ReauthorizationInterval (ht_Stream cf)) = None"
    "ht_WriteTimeout cf > 0 \<longrightarrow> CheckHTTPStreaming h w = Some None"
    using assms unfolding serveHTTP_def by (auto split: option.splits prod.splits if_splits)
  then show thesis
    using headers_ok [OF s(1) http_sink_ok(1)] http_sink_ok(2) headers_comments [OF s(1)] that [of s]
    by (auto simp: validateHTTPServing_def split: if_splits)
qed

lemma on_stream_return_sink:
  "snd (snd (wd_sink (result_world (on_stream_return f r)))) = snd (snd (wd_sink (result_world r))) \<or>
   snd (snd (wd_sink (result_world (on_stream_return f r)))) = f (snd (snd (wd_sink (result_world r))))"
  by (cases r) (simp_all add: on_stream_return_def Let_def)

lemma ServeStream_Ran:
  assumes "ServeStream cf h w io ticks ans caller scope requested = Ran r"
    and "s = snd (snd (wd_sink (result_world r)))"
  shows "sink_ok (timeout_of cf) s \<and> comments_ok s \<and>
    (\<forall>e \<in> set (sent_events s). is_error_event e \<or>
      (\<exists>an \<in> set ans. authorized_event (ht_Stream cf) caller scope requested an (unnumber e)))"
proof -
  obtain z where z: "r = on_stream_return (close_http io ticks) (Stream (ht_Stream cf) (http_Emit io ticks) caller scope requested ans z)"
    and z0: "sent_events z = []" and zok: "sink_ok (timeout_of cf) z" and zc: "comments_ok z"
    using serveHTTP_Ran [OF assms(1) [unfolded ServeStream_def]] by blast
  let ?r = "Stream (ht_Stream cf) (http_Emit io ticks) caller scope requested ans z"
  define t where "t = snd (snd (wd_sink (result_world ?r)))"
  have t: "sink_ok (timeout_of cf) t"
    using keeps_Stream [OF keeps_sequence [OF http_Emit_keeps], of "timeout_of cf" z "ht_Stream cf"] zok by (simp add: t_def)
  have tc: "comments_ok t"
    using keeps_Stream [OF keeps_sequence [OF http_Emit_comments], of z "ht_Stream cf"] zc by (simp add: t_def)
  have s: "sent_events s = sent_events t" "sink_ok (timeout_of cf) s" "comments_ok s"
    using on_stream_return_sink [of "close_http io ticks" ?r] close_http_keeps [of io ticks t "timeout_of cf"]
      close_http_comments [of t io ticks] t tc
    unfolding assms(2) z by (auto simp: t_def)
  have "is_error_event e \<or> (\<exists>an \<in> set ans. authorized_event (ht_Stream cf) caller scope requested an (unnumber e))"
    if "e \<in> set (sent_events t)" for e
  proof -
    have "unnumber e \<in> set (got sent_events (wd_sink (result_world ?r)))"
      using that by (simp add: got_def t_def)
    from Stream_delivered [OF http.wire_sink_axioms z0 this] show ?thesis by (simp add: unnumber_def is_error_event_def)
  qed
  then show ?thesis using s by simp
qed

text \<open>
  The objects of the upstream's watch events, and that what holds of them and of the empty object,
  and is kept by the projection, holds of every object on the wire.
\<close>

definition upstream_objects :: "(json \<Rightarrow> bool) \<Rightarrow> answers list \<Rightarrow> bool" where
  "upstream_objects P ans \<longleftrightarrow>
     (\<forall>an \<in> set ans. \<forall>ev. GotNext (NextEvent ev) \<in> set (an_inputs an) \<longrightarrow> P (JObj (we_Object ev)))"

lemma sent_object:
  assumes "sent g r e"
  shows "ev_Object e = [] \<or> (\<exists>ev. r = NextEvent ev \<and> ev_Object e = fst (project (ce_projection g) (we_Object ev)))"
  using assms by (cases rule: sentE) (auto simp: candidate_alt)

lemma served_objects:
  assumes "ServeStream cf h w io ticks ans caller scope requested = Ran r"
    and "s = snd (snd (wd_sink (result_world r)))" and "upstream_objects P ans"
    and "P (JObj [])" and "\<And>p m. P (JObj m) \<Longrightarrow> P (JObj (fst (project p m)))" and e: "e \<in> set (sent_events s)"
  shows "P (JObj (ev_Object e))"
proof -
  from ServeStream_Ran [OF assms(1,2)] e consider "is_error_event e"
    | an where "an \<in> set ans" "authorized_event (ht_Stream cf) caller scope requested an (unnumber e)" by blast
  then show ?thesis
  proof cases
    case 1
    then show ?thesis using assms(4) by (simp add: is_error_event_def)
  next
    case (2 an)
    have ob: "ev_Object (unnumber e) = ev_Object e" by (simp add: unnumber_def)
    obtain g where "auth_sent g (an_inputs an) (unnumber e)" using 2(2) by (auto simp: authorized_event_def)
    then have "ev_Object e = [] \<or> (\<exists>ev. GotNext (NextEvent ev) \<in> set (an_inputs an) \<and>
        ev_Object e = fst (project (ce_projection g) (we_Object ev)))"
      using sent_object [of g _ "unnumber e"] unfolding auth_sent_def
      by (elim disjE exE conjE) (auto simp: ob [symmetric] reset_event_def simp del: ob)
    then show ?thesis using assms(3-5) 2(1) by (auto simp: upstream_objects_def)
  qed
qed

lemma served_frames_ok:
  assumes "ServeStream cf h w io ticks ans caller scope requested = Ran r"
    and "s = snd (snd (wd_sink (result_world r)))" and "upstream_objects nums_ok ans"
  shows "list_all frame_ok (ss_frames s)"
proof -
  have "frame_ok f" if f: "f \<in> set (ss_frames s)" for f
  proof (cases f)
    case (EventFrame e)
    then have "e \<in> set (sent_events s)" using f by (force simp: sent_events_def)
    from served_objects [OF assms _ nums_ok_project this] show ?thesis using EventFrame by simp
  next
    case (CommentFrame t)
    then show ?thesis using f ServeStream_Ran [OF assms(1,2)] by (auto simp: comments_ok_def list_all_iff)
  qed
  then show ?thesis by (simp add: list_all_iff)
qed

text \<open>A handler that was constructed never meets the configuration panic on a request.\<close>

lemma Handler_panic_None:
  assumes "Handler_panic o' = None"
  shows "serveHTTP (op_Config o') h w io ticks run on_return \<noteq> ConfigPanic m"
  using assms by (auto simp: Handler_panic_def serveHTTP_def split: option.splits prod.splits)

subsection \<open>Looking for a method\<close>

definition unwraps :: "writers \<Rightarrow> nat \<Rightarrow> nat \<Rightarrow> bool" where
  "unwraps h v j \<longleftrightarrow> rw_Unwrap (h v) = Some (Some j)"

lemma resolve_total:
  assumes "wfP (\<lambda>j v. unwraps h v j)"
  shows "\<exists>r. resolve has h (Some w) = Some r \<and>
    (\<forall>v. r = Some v \<longrightarrow> (unwraps h)\<^sup>*\<^sup>* w v \<and> has (h v))"
  using assms
proof (induction w rule: wfp_induct_rule)
  case (less w)
  show ?case
  proof (cases "has (h w)")
    case True
    then show ?thesis by (simp add: resolve.simps)
  next
    case False
    then consider "rw_Unwrap (h w) = None" | "rw_Unwrap (h w) = Some None" | j where "rw_Unwrap (h w) = Some (Some j)"
      by (cases "rw_Unwrap (h w)") auto
    then show ?thesis
    proof cases
      case (3 j)
      then have u: "unwraps h w j" by (simp add: unwraps_def)
      obtain r where r: "resolve has h (Some j) = Some r" "\<forall>v. r = Some v \<longrightarrow> (unwraps h)\<^sup>*\<^sup>* j v \<and> has (h v)"
        using less.IH [OF u] by blast
      have "resolve has h (Some w) = Some r"
        by (subst resolve.simps) (simp add: False 3 r(1))
      then show ?thesis using r(2) u by (auto intro: converse_rtranclp_into_rtranclp)
    qed (simp_all add: resolve.simps [of has h] False)
  qed
qed

text \<open>A writer that wraps itself and has no method of its own is searched forever.\<close>

lemma resolve_self:
  assumes "\<not> has (h w)" and "rw_Unwrap (h w) = Some (Some w)"
  shows "resolve has h (Some w) = None"
proof -
  have "has' = has \<and> h' = h \<longrightarrow> x \<noteq> Some w" if "resolve has' h' x = Some y" for has' h' x y
  proof (rule resolve.raw_induct [OF _ that, of "\<lambda>has' h' x y. has' = has \<and> h' = h \<longrightarrow> x \<noteq> Some w"])
    fix res :: "(writer \<Rightarrow> bool) \<Rightarrow> writers \<Rightarrow> nat option \<Rightarrow> nat option option" and has' h' current y
    assume IH: "\<And>has' h' x y. res has' h' x = Some y \<Longrightarrow> has' = has \<and> h' = h \<longrightarrow> x \<noteq> Some w"
      and step: "(case current of None \<Rightarrow> Some None
        | Some w \<Rightarrow> (if has' (h' w) then Some (Some w)
            else case rw_Unwrap (h' w) of None \<Rightarrow> Some None | Some inner \<Rightarrow> res has' h' inner)) = Some y"
    show "has' = has \<and> h' = h \<longrightarrow> current \<noteq> Some w"
      using assms step IH [of has h "Some w" y] by auto
  qed
  then show ?thesis by (metis option.exhaust)
qed

section \<open>Properties\<close>

text \<open>C6. End to end.  Whatever the network and the host answer and however the heartbeat
  interleaves, and as long as the numbers in the upstream's objects are JSON number literals, what a
  browser reads from a served stream is exactly the events the stream emitted, in order, or all
  of them but the last one when the last frame begun is that event's and the connection broke in it;
  and each of them is an error event or belongs to a cycle that was authorized.\<close>

theorem served_stream_wire:
  assumes "ServeStream cf h w io ticks ans caller scope requested = Ran r"
    and "s = snd (snd (wd_sink (result_world r)))" and "upstream_objects nums_ok ans"
  shows "(sse_parse (wire_bytes s) = map event_text (sent_events s) \<or>
      (\<exists>ds e. ss_broken s \<and> last (ss_frames s) = EventFrame e \<and> sent_events s = ds @ [e] \<and>
         sse_parse (wire_bytes s) = map event_text ds)) \<and>
    (\<forall>e \<in> set (sent_events s). is_error_event e \<or>
      (\<exists>an \<in> set ans. authorized_event (ht_Stream cf) caller scope requested an (unnumber e)))"
proof
  have "framed s" using ServeStream_Ran [OF assms(1,2)] by (simp add: sink_ok_def)
  from sse_parse_framed [OF this served_frames_ok [OF assms]]
  show "sse_parse (wire_bytes s) = map event_text (sent_events s) \<or>
      (\<exists>ds e. ss_broken s \<and> last (ss_frames s) = EventFrame e \<and> sent_events s = ds @ [e] \<and>
         sse_parse (wire_bytes s) = map event_text ds)" by (simp only: read_back_def)
qed (use ServeStream_Ran [OF assms(1,2)] in blast)

definition sample_writers :: writers where
  "sample_writers v =
     (if v = 0 then \<lparr>rw_FlushError = True, rw_Flush = True, rw_SetWriteDeadline = Some None, rw_Unwrap = None\<rparr>
      else \<lparr>rw_FlushError = False, rw_Flush = False, rw_SetWriteDeadline = None, rw_Unwrap = Some (Some (v - 1))\<rparr>)"

definition sample_http :: http_config where
  "sample_http = \<lparr>ht_Stream = sample_config, ht_WriteTimeout = 5, ht_HeartbeatInterval = 0\<rparr>"

text \<open>The refused stream of one error event, whose frame has 82 bytes.\<close>

definition sample_io :: "nat \<Rightarrow> io_answers" where
  "sample_io n = \<lparr>io_ctx = None, io_now = 100, io_ctxDeadline = None, io_before = None,
     io_n = 82, io_write = None, io_flush = None, io_after = None\<rparr>"

definition sample_refusal :: answers where
  "sample_refusal = (sample_answers [])\<lparr>an_authorize := Some (ErrStream (Forbidden ''no''))\<rparr>"

definition sample_served :: "(SSESink, unit) stream_result serve_result" where
  "sample_served = ServeStream sample_http sample_writers 2 sample_io (\<lambda>n. 0) [sample_refusal] () sample_scope []"

fun served_sink :: "(SSESink, unit) stream_result serve_result \<Rightarrow> SSESink option" where
  "served_sink (Ran r) = Some (snd (snd (wd_sink (result_world r))))"
| "served_sink _ = None"

lemma served_sink_Some: "served_sink x = Some s \<longleftrightarrow> (\<exists>r. x = Ran r \<and> s = snd (snd (wd_sink (result_world r))))"
  by (cases x) auto

lemma sample_served_Ran:
  "\<exists>r. sample_served = Ran r \<and> \<not> ss_broken (snd (snd (wd_sink (result_world r)))) \<and>
     length (sent_events (snd (snd (wd_sink (result_world r))))) = 1"
proof -
  have "case served_sink sample_served of None \<Rightarrow> False | Some s \<Rightarrow> \<not> ss_broken s \<and> length (sent_events s) = 1"
    by code_simp
  then show ?thesis by (auto simp: served_sink_Some split: option.splits)
qed

lemma sample_upstream: "upstream_objects P [sample_refusal]"
  by (simp add: upstream_objects_def sample_refusal_def sample_answers_def)

theorem served_stream_wire_witness:
  "\<exists>r e. sample_served = Ran r \<and> sent_events (snd (snd (wd_sink (result_world r)))) = [e] \<and>
     sse_parse (wire_bytes (snd (snd (wd_sink (result_world r))))) = [event_text e]"
proof -
  obtain r where r: "sample_served = Ran r" "\<not> ss_broken (snd (snd (wd_sink (result_world r))))"
    "length (sent_events (snd (snd (wd_sink (result_world r))))) = 1"
    using sample_served_Ran by blast
  obtain e where e: "sent_events (snd (snd (wd_sink (result_world r)))) = [e]"
    using r(3) by (metis One_nat_def length_0_conv length_Suc_conv)
  from served_stream_wire [OF r(1) [unfolded sample_served_def] refl sample_upstream] r(2)
  have "sse_parse (wire_bytes (snd (snd (wd_sink (result_world r))))) = map event_text [e]" unfolding e by blast
  then show ?thesis using r(1) e by auto
qed

text \<open>C7. Types are preserved from the upstream to the wire: when every object of the upstream has one entry
  per key and number literals where it has numbers, so has every object that a served stream
  emits, and every frame it begins is one line without control characters.\<close>

theorem served_stream_typed:
  assumes "ServeStream cf h w io ticks ans caller scope requested = Ran r"
    and "s = snd (snd (wd_sink (result_world r)))" and "upstream_objects wf_json ans" and "upstream_objects nums_ok ans"
  shows "(\<forall>e \<in> set (sent_events s). wf_object (ev_Object e) \<and> nums_ok (JObj (ev_Object e))) \<and>
    (\<forall>f \<in> set (ss_frames s). \<exists>line. frame_bytes f = line @ [newline, newline] \<and> printable line)"
proof
  show "\<forall>e \<in> set (sent_events s). wf_object (ev_Object e) \<and> nums_ok (JObj (ev_Object e))"
    using served_objects [OF assms(1,2,3) _ wf_project] served_objects [OF assms(1,2,4) _ nums_ok_project] by simp
  show "\<forall>f \<in> set (ss_frames s). \<exists>line. frame_bytes f = line @ [newline, newline] \<and> printable line"
    using served_frames_ok [OF assms(1,2,4)] frame_line_printable frame_bytes_line by (auto simp: list_all_iff)
qed

theorem served_stream_typed_witness:
  "\<exists>r. sample_served = Ran r \<and> (\<forall>f \<in> set (ss_frames (snd (snd (wd_sink (result_world r))))).
     \<exists>line. frame_bytes f = line @ [newline, newline] \<and> printable line)"
proof -
  obtain r where r: "sample_served = Ran r" using sample_served_Ran by blast
  from served_stream_typed [OF r [unfolded sample_served_def] refl sample_upstream sample_upstream] r show ?thesis by blast
qed

text \<open>C13. Bounded writes.  With a positive write timeout a stream is served only over a writer
  that can set deadlines, and then every write of headers, every write of a frame and every
  flush happens under a deadline set no more than the timeout ahead.  Without one, timed
  reauthorization is not served at all.\<close>

theorem served_writes_bounded:
  assumes "ServeStream cf h w io ticks ans caller scope requested = Ran r"
  shows "if ht_WriteTimeout cf > 0
    then CheckHTTPStreaming h w = Some None \<and>
      bounded_log (ht_WriteTimeout cf) False (ss_log (snd (snd (wd_sink (result_world r)))))
    else ht_WriteTimeout cf = 0 \<and> cf_ReauthorizationInterval (ht_Stream cf) \<le> 0"
proof -
  have "sink_ok (timeout_of cf) (snd (snd (wd_sink (result_world r))))"
    using ServeStream_Ran [OF assms refl] by blast
  moreover have "ht_WriteTimeout cf \<ge> 0 \<and> (ht_WriteTimeout cf > 0 \<longrightarrow> CheckHTTPStreaming h w = Some None) \<and>
      (ht_WriteTimeout cf > 0 \<or> cf_ReauthorizationInterval (ht_Stream cf) \<le> 0)"
    using serveHTTP_Ran [OF assms [unfolded ServeStream_def]] by metis
  ultimately show ?thesis
    by (auto simp: sink_ok_def sink_bounded_def timeout_of_def)
qed

theorem served_writes_bounded_witness:
  "\<exists>r. sample_served = Ran r \<and> bounded_log 5 False (ss_log (snd (snd (wd_sink (result_world r)))))"
proof -
  obtain r where "sample_served = Ran r" using sample_served_Ran by blast
  then show ?thesis using served_writes_bounded [of sample_http sample_writers 2 sample_io "\<lambda>n. 0" "[sample_refusal]" "()" sample_scope "[]" r]
    by (auto simp: sample_served_def sample_http_def)
qed

text \<open>C14. The capability check of a response writer returns whenever no writer wraps itself,
  directly or through others, and when it finds nothing to report there is a writer down the
  chain that flushes and one that accepted a write deadline.\<close>

theorem CheckHTTPStreaming_terminates:
  assumes "wfP (\<lambda>j v. unwraps h v j)"
  shows "\<exists>r. CheckHTTPStreaming h w = Some r \<and>
    (r = None \<longrightarrow> (\<exists>v u. (unwraps h)\<^sup>*\<^sup>* w v \<and> can_flush (h v) \<and>
       (unwraps h)\<^sup>*\<^sup>* w u \<and> rw_SetWriteDeadline (h u) = Some None))"
proof -
  obtain r where r: "resolve can_flush h (Some w) = Some r" "\<forall>v. r = Some v \<longrightarrow> (unwraps h)\<^sup>*\<^sup>* w v \<and> can_flush (h v)"
    using resolve_total [OF assms] by blast
  obtain q where q: "resolve (\<lambda>v. rw_SetWriteDeadline v \<noteq> None) h (Some w) = Some q"
    "\<forall>v. q = Some v \<longrightarrow> (unwraps h)\<^sup>*\<^sup>* w v \<and> rw_SetWriteDeadline (h v) \<noteq> None"
    using resolve_total [OF assms, of "\<lambda>v. rw_SetWriteDeadline v \<noteq> None" w] by blast
  show ?thesis
    using r q by (cases r; cases q) (fastforce simp: CheckHTTPStreaming_def checkWriteDeadline_def split: option.split)+
qed

theorem CheckHTTPStreaming_terminates_witness:
  "\<exists>r. CheckHTTPStreaming sample_writers 2 = Some r"
proof -
  have "wfP (\<lambda>j v. unwraps sample_writers v j)"
    by (rule wfp_subset [OF wfp_on_less]) (auto simp: unwraps_def sample_writers_def split: if_splits)
  from CheckHTTPStreaming_terminates [OF this, of 2] show ?thesis by blast
qed

text \<open>A served refusal: nothing but the numbered error event, in well-formed frames.\<close>

definition one_error :: "http_config \<Rightarrow> StreamError \<Rightarrow> SSESink serve_result \<Rightarrow> bool" where
  "one_error cf serr r \<longleftrightarrow>
     (case r of
        Ran s \<Rightarrow> sent_events s \<in> {[], [(StreamError_Event serr)\<lparr>ev_Seq := 1\<rparr>]} \<and> sink_ok (timeout_of cf) s
      | _ \<Rightarrow> True)"

lemma refuse_sent:
  assumes "serveHTTP cf h w io ticks
     (\<lambda>emit s. snd (snd (sequenceSink_Emit emit (StreamError_Event serr) (0, s)))) (\<lambda>close s. close s) = Ran x"
  shows "sent_events x \<in> {[], [(StreamError_Event serr)\<lparr>ev_Seq := 1\<rparr>]} \<and> sink_ok (timeout_of cf) x"
proof -
  obtain s where x: "x = close_http io ticks (snd (snd (sequenceSink_Emit (http_Emit io ticks) (StreamError_Event serr) (0, s))))"
    and s: "sent_events s = []" "sink_ok (timeout_of cf) s"
    using serveHTTP_Ran [OF assms] by metis
  let ?e = "(StreamError_Event serr)\<lparr>ev_Seq := 1\<rparr>"
  obtain r t where t: "http_Emit io ticks ?e s = (r, t)" by (cases "http_Emit io ticks ?e s")
  have "sent_events t \<in> {[], [?e]}"
    using http.wire_ok [of io ticks ?e s t] http.wire_err [of io ticks ?e s _ t] t s(1) by (cases r) auto
  moreover have "sink_ok (timeout_of cf) t"
    using http_Emit_keeps [of io ticks "timeout_of cf"] s(2) t unfolding emit_keeps_def by (metis snd_conv)
  moreover have "x = close_http io ticks t" by (simp add: x sequenceSink_Emit_def t)
  ultimately show ?thesis using close_http_keeps [of io ticks t "timeout_of cf"] by simp
qed

lemma refuse_one_error:
  obtains r where "refuse cf h w io ticks d serr = Refused d serr r" "one_error cf serr r"
  using refuse_sent [of cf h w io ticks serr]
  by (auto simp: refuse_def one_error_def split: serve_result.split)

text \<open>C8. The handler serves a stream exactly to an identified caller whose query spells a valid
  scope, names no API server and is admitted by the allowlist, and it serves that scope to that
  caller.  Every other request gets at most one event, the numbered error event of the refusal,
  terminal whenever the scope was at fault.\<close>

theorem Handler_correct:
  "case Handler unicode_lower o' h w io ticks ans who raw of
     Accepted caller scope requested r \<Rightarrow>
       who = Inr caller \<and> scope = query_scope (ParseQuery raw) \<and> requested = Values_Get (ParseQuery raw) ''projection'' \<and>
       valid_scope scope \<and> \<not> names_server (ParseQuery raw) \<and> policy_admits (op_Scopes o') scope \<and>
       r = ServeStream (op_Config o') h w io ticks ans caller scope requested
   | Refused d serr r \<Rightarrow>
       \<not> (isl who = False \<and> valid_scope (query_scope (ParseQuery raw)) \<and> \<not> names_server (ParseQuery raw) \<and>
          policy_admits (op_Scopes o') (query_scope (ParseQuery raw))) \<and>
       (isl who \<or> se_Terminal serr) \<and> one_error (op_Config o') serr r"
proof -
  note refusal = refuse_one_error [of "op_Config o'" h w io ticks]
  show ?thesis
  proof (cases who)
    case (Inl err)
    let ?se = "principal_error err"
    let ?d = "\<lparr>dg_Principal = None, dg_Scope = None, dg_Code = se_Code ?se, dg_Terminal = se_Terminal ?se, dg_Err = err\<rparr>"
    obtain r where "Handler unicode_lower o' h w io ticks ans who raw = Refused ?d ?se r" "one_error (op_Config o') ?se r"
      using refusal [of ?d ?se] Inl by (auto simp: Handler_def Let_def)
    then show ?thesis using Inl by simp
  next
    case (Inr caller)
    show ?thesis
    proof (cases "ScopeFromQuery unicode_lower (ParseQuery raw)")
      case (Inl e)
      let ?d = "\<lparr>dg_Principal = Some caller, dg_Scope = None, dg_Code = se_Code e, dg_Terminal = se_Terminal e, dg_Err = ErrStream e\<rparr>"
      obtain r where "Handler unicode_lower o' h w io ticks ans who raw = Refused ?d e r" "one_error (op_Config o') e r"
        using refusal [of ?d e] Inr Inl by (auto simp: Handler_def asStreamError_def)
      moreover have "\<not> (valid_scope (query_scope (ParseQuery raw)) \<and> \<not> names_server (ParseQuery raw))"
        using ScopeFromQuery_Inr [of unicode_lower "ParseQuery raw" "query_scope (ParseQuery raw)"] Inl by auto
      ultimately show ?thesis using Inr ScopeFromQuery_Inl [OF Inl] by auto
    next
      case scope: (Inr scope)
      then have q: "\<not> names_server (ParseQuery raw)" "scope = query_scope (ParseQuery raw)" "valid_scope scope"
        by (auto simp: ScopeFromQuery_Inr)
      show ?thesis
      proof (cases "Validate (op_Scopes o') scope")
        case None
        then have "policy_admits (op_Scopes o') scope" by (simp add: Validate_None)
        then show ?thesis using Inr scope None q by (simp add: Handler_def Let_def)
      next
        case (Some e)
        let ?d = "\<lparr>dg_Principal = Some caller, dg_Scope = Some scope, dg_Code = se_Code e, dg_Terminal = se_Terminal e, dg_Err = ErrStream e\<rparr>"
        obtain r where "Handler unicode_lower o' h w io ticks ans who raw = Refused ?d e r" "one_error (op_Config o') e r"
          using refusal [of ?d e] Inr scope Some by (auto simp: Handler_def asStreamError_def)
        moreover have "\<not> policy_admits (op_Scopes o') scope" using Some Validate_None [of "op_Scopes o'" scope] by simp
        ultimately show ?thesis using Inr Validate_Some [OF Some] q(2) by auto
      qed
    qed
  qed
qed

end
