(* ===== verification/Authz.thy ===== *)
theory Authz
  imports Kube
begin

text \<open>
  Authorization by the API server, \<open>gateway/kube/authz.go\<close>: an authorizer that asks with
  subject access reviews whether the caller may list and watch a scope, for streams served
  from a shared watch.  The API server's answer to a review is the parameter \<open>create\<close>.
\<close>

section \<open>Reviews\<close>

record Subject =
  su_User :: string
  su_Groups :: "string list"
  su_UID :: string
  su_Extra :: "string list gmap"

text \<open>A \<open>SubjectAccessReview\<close>: its spec with the resource attributes.\<close>

record SubjectAccessReview =
  sa_User :: string
  sa_Groups :: "string list"
  sa_UID :: string
  sa_Extra :: "string list gmap"
  sa_Verb :: string
  sa_Group :: string
  sa_Version :: string
  sa_Resource :: string
  sa_Namespace :: string
  sa_Name :: string

record review_status =
  rv_Allowed :: bool
  rv_Denied :: bool
  rv_Reason :: string
  rv_EvaluationError :: string

definition review_of :: "Subject \<Rightarrow> Scope \<Rightarrow> string \<Rightarrow> SubjectAccessReview" where
  "review_of s scope verb =
     \<lparr>sa_User = su_User s, sa_Groups = su_Groups s, sa_UID = su_UID s, sa_Extra = su_Extra s,
      sa_Verb = verb, sa_Group = sc_Group scope, sa_Version = sc_Version scope, sa_Resource = sc_Resource scope,
      sa_Namespace = sc_Namespace scope, sa_Name = sc_Name scope\<rparr>"

definition review ::
    "(SubjectAccessReview \<Rightarrow> go_error + review_status) \<Rightarrow> Subject \<Rightarrow> Scope \<Rightarrow> string \<Rightarrow> go_error + bool \<times> string" where
  "review create s scope verb =
     (case create (review_of s scope verb) of
        Inl err \<Rightarrow> Inl err
      | Inr answer \<Rightarrow>
          (let reason = (if rv_EvaluationError answer \<noteq> [] then rv_EvaluationError answer else rv_Reason answer)
           in Inr (rv_Allowed answer \<and> \<not> rv_Denied answer, reason)))"

definition groupResource :: "Scope \<Rightarrow> string" where
  "groupResource s = (if sc_Group s = [] then sc_Resource s else sc_Group s @ ''/'' @ sc_Resource s)"

section \<open>The authorizer\<close>

definition review_failed :: "api \<Rightarrow> string \<Rightarrow> go_error \<Rightarrow> go_error" where
  "review_failed ap verb err =
     (let err = ErrWrap (''krm-stream/kube: subject access review ('' @ verb @ '')'') err in
      case classify ap err of
        ErrStream se \<Rightarrow> if se_Code se = CodeUpstreamUnavailable then ErrStream se else err
      | _ \<Rightarrow> err)"

text \<open>The loop over the verbs, with the reviews it created.\<close>

fun review_loop ::
    "api \<Rightarrow> (SubjectAccessReview \<Rightarrow> go_error + review_status) \<Rightarrow> Subject \<Rightarrow> Scope \<Rightarrow> string list \<Rightarrow>
     go_error option \<times> SubjectAccessReview list" where
  "review_loop ap create subject scope [] = (None, [])"
| "review_loop ap create subject scope (verb # verbs) =
     (case review create subject scope verb of
        Inl err \<Rightarrow> (Some (review_failed ap verb err), [review_of subject scope verb])
      | Inr (allowed, reason) \<Rightarrow>
          (if \<not> allowed then
             (Some (ErrStream (Forbidden (''Kubernetes refused '' @ go_quote verb @ '' on '' @ groupResource scope @
                '' for '' @ su_User subject @ '': '' @ reason))), [review_of subject scope verb])
           else case review_loop ap create subject scope verbs of
             (r, asked) \<Rightarrow> (r, review_of subject scope verb # asked)))"

definition SubjectAccessReviewAuthorizer ::
    "api \<Rightarrow> (SubjectAccessReview \<Rightarrow> go_error + review_status) \<Rightarrow> ('p \<Rightarrow> go_error + Subject) \<Rightarrow> 'p \<Rightarrow> Scope \<Rightarrow>
     go_error option \<times> SubjectAccessReview list" where
  "SubjectAccessReviewAuthorizer ap create subjectFor p scope =
     (case subjectFor p of
        Inl err \<Rightarrow> (Some (ErrStream (Unauthenticated ''not authenticated'')), [])
      | Inr subject \<Rightarrow>
          (if su_User subject = [] \<and> su_Groups subject = []
           then (Some (ErrStream (Forbidden ''no Kubernetes subject for this caller'')), [])
           else review_loop ap create subject scope [''list'', ''watch'']))"

section \<open>Lemmas\<close>

text \<open>What Kubernetes permits: the review was answered, allowed, and not denied.\<close>

definition permits :: "(SubjectAccessReview \<Rightarrow> go_error + review_status) \<Rightarrow> SubjectAccessReview \<Rightarrow> bool" where
  "permits create q \<longleftrightarrow> (case create q of Inl _ \<Rightarrow> False | Inr answer \<Rightarrow> rv_Allowed answer \<and> \<not> rv_Denied answer)"

lemma review_loop_None:
  "fst (review_loop ap create subject scope verbs) = None \<longleftrightarrow>
     list_all (\<lambda>verb. permits create (review_of subject scope verb)) verbs"
  by (induction verbs) (auto simp: review_def permits_def Let_def split: sum.splits prod.splits)

lemma review_loop_asked:
  "prefix (snd (review_loop ap create subject scope verbs)) (map (review_of subject scope) verbs)"
  by (induction verbs) (auto split: sum.splits prod.splits)

text \<open>A refusal ends the stream: it is terminal, or the server was unavailable.\<close>

definition refuses :: "go_error \<Rightarrow> bool" where
  "refuses e \<longleftrightarrow> se_Terminal (asStreamError e) \<or> se_Code (asStreamError e) = CodeUpstreamUnavailable"

lemma review_failed_refuses: "errors_As err = None \<Longrightarrow> refuses (review_failed ap verb err)"
  by (auto simp: review_failed_def refuses_def asStreamError_def Let_def split: go_error.splits)

lemma review_loop_refuses:
  assumes "\<And>q e. create q = Inl e \<Longrightarrow> errors_As e = None"
  shows "fst (review_loop ap create subject scope verbs) = Some e \<Longrightarrow> refuses e"
proof (induction verbs)
  case (Cons verb verbs)
  show ?case
  proof (cases "review create subject scope verb")
    case (Inl err)
    then have "errors_As err = None" using assms by (auto simp: review_def Let_def split: sum.splits)
    then show ?thesis using Cons.prems Inl review_failed_refuses by auto
  next
    case (Inr r)
    then show ?thesis using Cons
      by (cases r) (auto simp: refuses_def asStreamError_def split: prod.splits if_splits)
  qed
qed simp

section \<open>Property\<close>

text \<open>C23. Kubernetes decides, and silence is no.  The authorizer permits a scope exactly when the
  host names a subject and the API server answers both reviews, list and watch on exactly that
  scope for exactly that subject, with allowed and not denied.  It asks in that order, asks
  nothing else and stops at the first refusal; a review that fails is a refusal, terminal
  unless the API server was unavailable.\<close>

theorem SubjectAccessReviewAuthorizer_correct:
  assumes "\<And>q e. create q = Inl e \<Longrightarrow> errors_As e = None"
  shows "(fst (SubjectAccessReviewAuthorizer ap create subjectFor p scope) = None \<longleftrightarrow>
      (\<exists>subject. subjectFor p = Inr subject \<and> \<not> (su_User subject = [] \<and> su_Groups subject = []) \<and>
         permits create (review_of subject scope ''list'') \<and> permits create (review_of subject scope ''watch''))) \<and>
    (case subjectFor p of
       Inl _ \<Rightarrow> snd (SubjectAccessReviewAuthorizer ap create subjectFor p scope) = []
     | Inr subject \<Rightarrow> prefix (snd (SubjectAccessReviewAuthorizer ap create subjectFor p scope))
         [review_of subject scope ''list'', review_of subject scope ''watch'']) \<and>
    (case fst (SubjectAccessReviewAuthorizer ap create subjectFor p scope) of None \<Rightarrow> True | Some e \<Rightarrow> refuses e)"
proof (cases "subjectFor p")
  case (Inl err)
  then show ?thesis by (simp add: SubjectAccessReviewAuthorizer_def refuses_def asStreamError_def)
next
  case (Inr subject)
  show ?thesis
  proof (cases "su_User subject = [] \<and> su_Groups subject = []")
    case True
    then show ?thesis using Inr by (simp add: SubjectAccessReviewAuthorizer_def refuses_def asStreamError_def)
  next
    case False
    then have a: "SubjectAccessReviewAuthorizer ap create subjectFor p scope = review_loop ap create subject scope [''list'', ''watch'']"
      using Inr by (auto simp: SubjectAccessReviewAuthorizer_def)
    show ?thesis
      using Inr False review_loop_None [of ap create subject scope "[''list'', ''watch'']"]
        review_loop_asked [of ap create subject scope "[''list'', ''watch'']"]
        review_loop_refuses [where create = create and ap = ap and subject = subject and scope = scope
          and verbs = "[''list'', ''watch'']", OF assms]
      unfolding a by (auto simp del: review_loop.simps split: option.split)
  qed
qed

definition sample_subject :: Subject where
  "sample_subject = \<lparr>su_User = ''jane'', su_Groups = [], su_UID = [], su_Extra = []\<rparr>"

definition sample_reviews :: "SubjectAccessReview \<Rightarrow> go_error + review_status" where
  "sample_reviews q = (if sa_Verb q = ''list'' then Inr \<lparr>rv_Allowed = True, rv_Denied = False, rv_Reason = [], rv_EvaluationError = []\<rparr>
     else Inl (ErrText ''connection refused''))"

theorem SubjectAccessReviewAuthorizer_correct_witness:
  "fst (SubjectAccessReviewAuthorizer sample_api sample_reviews (\<lambda>p. Inr sample_subject) () sample_scope) \<noteq> None \<and>
   prefix (snd (SubjectAccessReviewAuthorizer sample_api sample_reviews (\<lambda>p. Inr sample_subject) () sample_scope))
     [review_of sample_subject sample_scope ''list'', review_of sample_subject sample_scope ''watch'']"
proof -
  have "errors_As e = None" if "sample_reviews q = Inl e" for q e
    using that by (auto simp: sample_reviews_def split: if_splits)
  from SubjectAccessReviewAuthorizer_correct [where create = sample_reviews and ap = sample_api
      and subjectFor = "\<lambda>p. Inr sample_subject" and p = "()" and scope = sample_scope, OF this]
  show ?thesis by (simp add: permits_def sample_reviews_def review_of_def)
qed

end
