(* ===== verification/Sharedstream.thy ===== *)
theory Sharedstream
  imports Transport Authz
begin

text \<open>
  A host built from the library, \<open>gateway/kube/examples/sharedstream\<close>: one fixed ConfigMap
  served from a shared watch, the participant's identity resolved from a session token and
  every cycle authorized by subject access reviews.  The handler composes \<open>Handler\<close>,
  \<open>HTTPClientFor\<close> and \<open>SubjectAccessReviewAuthorizer\<close>; what client-go does is a record of
  functions.  The theorem carries the guarantees of the parts to the composed host.
\<close>

section \<open>Configuration\<close>

text \<open>A \<open>rest.Config\<close>: host, credentials, and a name for its other settings.\<close>

record rest_config =
  rc_Host :: string
  rc_BearerToken :: string
  rc_Insecure :: bool
  rc_Timeout :: int
  rc_settings :: string

record UserInfo =
  ui_Username :: string
  ui_UID :: string
  ui_Groups :: "string list"
  ui_Extra :: "string list gmap option"

text \<open>
  The functions of client-go: what they answer to a configuration.  \<open>rl_SelfSubjectReview\<close>
  is the answer of the API server to a review sent with that configuration and client;
  \<open>Inr None\<close> is a nil result.
\<close>

record rest_lib =
  rl_IsConfigTransportTLS :: "rest_config \<Rightarrow> bool"
  rl_HTTPClientFor :: "rest_config \<Rightarrow> go_error + http_client"
  rl_kubernetes :: "rest_config \<Rightarrow> http_client \<Rightarrow> go_error option"
  rl_dynamic :: "rest_config \<Rightarrow> http_client \<Rightarrow> go_error option"
  rl_AnonymousClientConfig :: "rest_config \<Rightarrow> rest_config"
  rl_SelfSubjectReview :: "rest_config \<Rightarrow> http_client \<Rightarrow> go_error + UserInfo option"

text \<open>Times are nanoseconds since Go's zero time.\<close>

record Session =
  sn_Token :: string
  sn_SessionExpiry :: int
  sn_TokenExpiry :: int

section \<open>Construction\<close>

text \<open>The checks of \<open>Handler\<close> at construction; a success is the participants' configuration.\<close>

definition sharedstream_setup ::
    "rest_lib \<Rightarrow> rest_config option \<Rightarrow> string \<Rightarrow> string \<Rightarrow> bool \<Rightarrow> go_error + rest_config" where
  "sharedstream_setup lib cluster namespace name hasSession =
     (case cluster of
        None \<Rightarrow> Inl (ErrText ''sharedstream: cluster, fixed scope and session resolver required'')
      | Some cluster \<Rightarrow>
          (if namespace = [] \<or> name = [] \<or> \<not> hasSession
           then Inl (ErrText ''sharedstream: cluster, fixed scope and session resolver required'')
           else if \<not> rl_IsConfigTransportTLS lib cluster \<or> rc_Insecure cluster
           then Inl (ErrText ''sharedstream: cluster must use HTTPS with certificate verification'')
           else case HTTPClientFor (rl_HTTPClientFor lib) cluster of
             Inl err \<Rightarrow> Inl err
           | Inr httpClient \<Rightarrow>
               (case rl_kubernetes lib cluster httpClient of
                  Some err \<Rightarrow> Inl err
                | None \<Rightarrow>
                    (case rl_dynamic lib cluster httpClient of
                       Some err \<Rightarrow> Inl err
                     | None \<Rightarrow> Inr ((rl_AnonymousClientConfig lib cluster)\<lparr>rc_Timeout := 5000000000\<rparr>)))))"

definition sharedstream_options :: "(string \<Rightarrow> string) \<Rightarrow> options" where
  "sharedstream_options sha =
     \<lparr>op_Config =
        \<lparr>ht_Stream = \<lparr>cf_Ordering = OrderingStrict, cf_DefaultProjections = False,
                      cf_ReauthorizationInterval = 30000000000, cf_sha = sha\<rparr>,
         ht_WriteTimeout = 5000000000, ht_HeartbeatInterval = 0\<rparr>,
      op_hasPrincipal = True, op_hasAuthorizer = True, op_hasClients = True,
      op_Scopes = \<lparr>sp_Targets = [[]],
        sp_Resources = [\<lparr>gr_Group = [], gr_Resource = ''configmaps'', gr_Scope = ResourceScopeNamespaced,
                         gr_AllowAllNamespaces = False\<rparr>],
        sp_AnyResource = False, sp_AllowLabelSelector = False\<rparr>\<rparr>"

section \<open>One request\<close>

definition resolveSubject :: "go_error + UserInfo option \<Rightarrow> go_error + Subject" where
  "resolveSubject result =
     (case result of
        Inl err \<Rightarrow> Inl (ErrWrap ''resolve Kubernetes subject'' err)
      | Inr None \<Rightarrow> Inl (ErrText ''SelfSubjectReview returned no username'')
      | Inr (Some info) \<Rightarrow>
          (if ui_Username info = [] then Inl (ErrText ''SelfSubjectReview returned no username'')
           else Inr \<lparr>su_User = ui_Username info, su_Groups = ui_Groups info, su_UID = ui_UID info,
                     su_Extra = (case ui_Extra info of None \<Rightarrow> [] | Some extra \<Rightarrow> extra)\<rparr>))"

definition participant :: "rest_config \<Rightarrow> Session \<Rightarrow> rest_config" where
  "participant cfg session = cfg\<lparr>rc_BearerToken := sn_Token session\<rparr>"

text \<open>The \<open>Principal\<close> callback.\<close>

definition sharedstream_principal :: "rest_lib \<Rightarrow> rest_config \<Rightarrow> Session \<times> go_error option \<Rightarrow> go_error + Subject" where
  "sharedstream_principal lib cfg state =
     (case state of
        (session, Some err) \<Rightarrow> Inl err
      | (session, None) \<Rightarrow>
          (let cfg = participant cfg session in
           case HTTPClientFor (rl_HTTPClientFor lib) cfg of
             Inl err \<Rightarrow> Inl err
           | Inr httpClient \<Rightarrow>
               (case rl_kubernetes lib cfg httpClient of
                  Some err \<Rightarrow> Inl err
                | None \<Rightarrow> resolveSubject (rl_SelfSubjectReview lib cfg httpClient))))"

definition fixed_scope :: "string \<Rightarrow> string \<Rightarrow> Scope \<Rightarrow> bool" where
  "fixed_scope namespace name s \<longleftrightarrow>
     sc_Target s = [] \<and> sc_Group s = [] \<and> sc_Version s = ''v1'' \<and> sc_Resource s = ''configmaps'' \<and>
     sc_Namespace s = namespace \<and> sc_Name s = name \<and> sc_LabelSelector s = []"

text \<open>The \<open>Authorizer\<close> callback; \<open>create\<close> is the API server's answer to the reviews of one check.\<close>

definition sharedstream_authorize ::
    "api \<Rightarrow> string \<Rightarrow> string \<Rightarrow> (SubjectAccessReview \<Rightarrow> go_error + review_status) \<Rightarrow> Subject \<Rightarrow> Scope \<Rightarrow> go_error option" where
  "sharedstream_authorize ap namespace name create p s =
     (if \<not> fixed_scope namespace name s then Some (ErrStream (Forbidden ''outside the fixed stream scope''))
      else fst (SubjectAccessReviewAuthorizer ap create Inr p s))"

text \<open>
  The answers a cycle gets from this host's callbacks; the rest, the timed checks among it, is
  what the upstream and the clock do.
\<close>

definition host_answers ::
    "api \<Rightarrow> string \<Rightarrow> string \<Rightarrow> Subject \<Rightarrow> Scope \<Rightarrow> Projection \<Rightarrow>
     (SubjectAccessReview \<Rightarrow> go_error + review_status) \<times> answers \<Rightarrow> answers" where
  "host_answers ap namespace name p scope requested c =
     (snd c)\<lparr>an_authorize := sharedstream_authorize ap namespace name (fst c) p scope,
             an_select := StaticProjection_SelectProjection ProjectionFull p scope requested, an_client := None\<rparr>"

definition session_expiry :: "Session \<Rightarrow> int" where
  "session_expiry session =
     (if sn_TokenExpiry session < sn_SessionExpiry session then sn_TokenExpiry session else sn_SessionExpiry session)"

text \<open>The session the host resolved, refused when it is not usable.\<close>

definition check_session :: "int \<Rightarrow> Session \<times> go_error option \<Rightarrow> Session \<times> go_error option" where
  "check_session now state =
     (case state of
        (session, err) \<Rightarrow>
          (session,
           if err = None \<and> (sn_Token session = [] \<or> sn_SessionExpiry session = 0 \<or> sn_TokenExpiry session = 0 \<or>
             \<not> session_expiry session > now)
           then Some (ErrText ''invalid or expired session'') else err))"

text \<open>\<open>context.WithDeadline\<close>: the request's context, ended no later than the session.\<close>

definition with_deadline :: "int \<Rightarrow> io_answers \<Rightarrow> io_answers" where
  "with_deadline expiry a =
     a\<lparr>io_ctxDeadline := Some (case io_ctxDeadline a of None \<Rightarrow> expiry | Some d \<Rightarrow> min d expiry)\<rparr>"

definition sharedstream_serve ::
    "rest_lib \<Rightarrow> api \<Rightarrow> (string \<Rightarrow> string) \<Rightarrow> (string \<Rightarrow> string) \<Rightarrow> rest_config \<Rightarrow> string \<Rightarrow> string \<Rightarrow>
     writers \<Rightarrow> nat \<Rightarrow> (nat \<Rightarrow> io_answers) \<Rightarrow> (nat \<Rightarrow> nat) \<Rightarrow> int \<Rightarrow>
     ((SubjectAccessReview \<Rightarrow> go_error + review_status) \<times> answers) list \<Rightarrow>
     Session \<times> go_error option \<Rightarrow> string \<Rightarrow> Subject handled" where
  "sharedstream_serve lib ap unicode_lower sha cfg namespace name h w io ticks now cycles sessionFor raw =
     (let state = check_session now sessionFor;
          io = (if snd state = None then \<lambda>n. with_deadline (session_expiry (fst state)) (io n) else io);
          who = sharedstream_principal lib cfg state;
          ans = (case who of
              Inl _ \<Rightarrow> []
            | Inr p \<Rightarrow> map (host_answers ap namespace name p (query_scope (ParseQuery raw))
                (Values_Get (ParseQuery raw) ''projection'')) cycles)
      in Handler unicode_lower (sharedstream_options sha) h w io ticks ans who raw)"

section \<open>Metrics\<close>

record Counters =
  ct_Streams :: "64 word"
  ct_Subscriptions :: "64 word"
  ct_TransportRejected :: "64 word"

fun Counters_Observe :: "Observation \<Rightarrow> Counters \<Rightarrow> Counters" where
  "Counters_Observe o' c =
     (case ob_Kind o' of
        ObservationStreamOpened \<Rightarrow> c\<lparr>ct_Streams := ct_Streams c + 1\<rparr>
      | ObservationStreamClosed \<Rightarrow> c\<lparr>ct_Streams := ct_Streams c - 1\<rparr>
      | ObservationSharedSubscriptionOpened \<Rightarrow> c\<lparr>ct_Subscriptions := ct_Subscriptions c + 1\<rparr>
      | ObservationSharedSubscriptionClosed \<Rightarrow> c\<lparr>ct_Subscriptions := ct_Subscriptions c - 1\<rparr>
      | ObservationHTTPTransportRejected \<Rightarrow> c\<lparr>ct_TransportRejected := ct_TransportRejected c + 1\<rparr>
      | _ \<Rightarrow> c)"

section \<open>Lemmas\<close>

subsection \<open>Write deadlines of a connection\<close>

text \<open>Every write deadline that was set is at most \<open>E\<close>.\<close>

fun deadline_by :: "int \<Rightarrow> io_call \<Rightarrow> bool" where
  "deadline_by E (CallDeadline now d) = (case d of None \<Rightarrow> True | Some t \<Rightarrow> t \<le> E)"
| "deadline_by E _ = True"

definition ends_by :: "int \<Rightarrow> SSESink \<Rightarrow> bool" where
  "ends_by E s \<longleftrightarrow> list_all (deadline_by E) (ss_log s)"

definition io_by :: "int \<Rightarrow> (nat \<Rightarrow> io_answers) \<Rightarrow> bool" where
  "io_by E io \<longleftrightarrow> (\<forall>n. \<exists>d. io_ctxDeadline (io n) = Some d \<and> d \<le> E)"

lemma io_by_with_deadline: "io_by E (\<lambda>n. with_deadline E (io n))"
  by (simp add: io_by_def with_deadline_def split: option.split)

lemma ends_by_frame [simp]:
  "ends_by E (s\<lparr>ss_ops := n\<rparr>) = ends_by E s" "ends_by E (poison e s) = ends_by E s"
  "ends_by E (s\<lparr>ss_frames := fs, ss_broken := b\<rparr>) = ends_by E s" "ends_by E (s\<lparr>ss_cancelled := c\<rparr>) = ends_by E s"
  "ends_by E (log_call call s) \<longleftrightarrow> ends_by E s \<and> deadline_by E call"
  by (auto simp: ends_by_def)

lemma may_block_deadline_by: "may_block c \<Longrightarrow> deadline_by E c"
  by (cases c) auto

lemma write_deadline_by: "io_ctxDeadline a = Some d \<Longrightarrow> write_deadline T a \<le> d"
  by (simp add: write_deadline_def Let_def)

lemma attempt_ends_by:
  assumes "one_call a write bytes" and "attempt a write s = (r, s')" and "io_ctxDeadline a = Some d" "d \<le> E" and "ends_by E s"
  shows "ends_by E s'"
  using assms order_trans [OF write_deadline_by [OF assms(3)] assms(4)]
  unfolding one_call_def attempt_def run_before_def run_after_def
  by (auto split: option.splits simp: may_block_deadline_by)

lemma operation_ends_by:
  assumes "\<And>a. one_call a (write a) bytes" and "operation io write s = (r, s')" and "io_by E io" and "ends_by E s"
  shows "ends_by E s'"
  using assms(2)
proof (cases rule: operation_cases)
  case (live t)
  obtain d where "io_ctxDeadline (io (ss_ops s)) = Some d" "d \<le> E" using assms(3) unfolding io_by_def by blast
  then show ?thesis using attempt_ends_by [OF assms(1) live(2)] assms(4) live(3) by (simp split: option.splits)
qed (use assms(4) in simp)

lemma write_ends_by:
  assumes "SSESink_write io f s = (r, s')" and "io_by E io" and "ends_by E s"
  shows "ends_by E s'"
  using assms(1)
proof (cases rule: write_cases)
  case (live t)
  then show ?thesis using operation_ends_by [OF one_call_bytes live(2) assms(2,3)] by simp
qed (use assms(3) in simp)

lemma Heartbeat_ends_by: "Heartbeat io n s = (r, s') \<Longrightarrow> io_by E io \<Longrightarrow> ends_by E s \<Longrightarrow> ends_by E s'"
proof (induction n arbitrary: s)
  case (Suc n)
  obtain q t where qt: "SSESink_comment io ''heartbeat'' s = (q, t)" by (cases "SSESink_comment io ''heartbeat'' s")
  have "ends_by E t" using write_ends_by [OF qt [unfolded SSESink_comment_def] Suc.prems(2,3)] .
  then show ?case using Suc.IH [of t] Suc.prems qt by (cases q) auto
qed simp

lemma http_Emit_ends_by: "io_by E io \<Longrightarrow> emit_keeps (http_Emit io ticks) (ends_by E)"
  unfolding emit_keeps_def http_Emit_def SSESink_Emit_def
  by (metis Heartbeat_ends_by prod.collapse write_ends_by)

lemma close_http_ends_by:
  assumes "io_by E io" and "ends_by E s"
  shows "ends_by E (close_http io ticks s)"
proof -
  obtain r t where t: "Heartbeat io (ticks (ss_ops s)) (s\<lparr>ss_cancelled := True\<rparr>) = (r, t)"
    by (cases "Heartbeat io (ticks (ss_ops s)) (s\<lparr>ss_cancelled := True\<rparr>)")
  then show ?thesis using Heartbeat_ends_by [OF t assms(1)] assms(2) by (simp add: close_http_def Let_def)
qed

lemma ServeStream_ends_by:
  assumes "ServeStream cf h w io ticks ans caller scope requested = Ran r" and "io_by E io"
  shows "ends_by E (snd (snd (wd_sink (result_world r))))"
proof -
  obtain q z where z: "writeSSEHeaders io (http_sink cf (flush_cap_of h q)) = (None, z)"
    and r: "r = on_stream_return (close_http io ticks) (Stream (ht_Stream cf) (http_Emit io ticks) caller scope requested ans z)"
    using assms(1) unfolding ServeStream_def serveHTTP_def by (auto split: option.splits prod.splits if_splits)
  have "ends_by E (http_sink cf (flush_cap_of h q))" by (simp add: ends_by_def http_sink_def NewSSESink_def)
  then have "ends_by E z" using operation_ends_by [OF one_call_headers z [unfolded writeSSEHeaders_def] assms(2)] by blast
  then have "ends_by E (snd (snd (wd_sink (result_world (Stream (ht_Stream cf) (http_Emit io ticks) caller scope requested ans z)))))"
    using keeps_Stream [OF keeps_sequence [OF http_Emit_ends_by [OF assms(2)]], of z "ht_Stream cf"] by simp
  then show ?thesis
    using on_stream_return_sink [of "close_http io ticks"] close_http_ends_by [OF assms(2)] unfolding r by metis
qed

subsection \<open>Parts of the host\<close>

lemma check_session_None:
  assumes "snd (check_session now sessionFor) = None"
  shows "snd sessionFor = None \<and> sn_Token (fst sessionFor) \<noteq> [] \<and>
    now < sn_SessionExpiry (fst sessionFor) \<and> now < sn_TokenExpiry (fst sessionFor)"
  using assms by (auto simp: check_session_def session_expiry_def split: prod.splits if_splits)

lemma sharedstream_principal_Inr:
  assumes "sharedstream_principal lib cfg state = Inr p"
  shows "snd state = None \<and> (\<exists>httpClient. hc_CheckRedirect httpClient = Some ErrRedirectRefused \<and>
    resolveSubject (rl_SelfSubjectReview lib (participant cfg (fst state)) httpClient) = Inr p)"
proof -
  obtain httpClient where "snd state = None" "HTTPClientFor (rl_HTTPClientFor lib) (participant cfg (fst state)) = Inr httpClient"
    "resolveSubject (rl_SelfSubjectReview lib (participant cfg (fst state)) httpClient) = Inr p"
    using assms by (auto simp: sharedstream_principal_def Let_def split: prod.splits option.splits sum.splits)
  moreover from this(2) have "hc_CheckRedirect httpClient = Some ErrRedirectRefused"
    by (auto simp: HTTPClientFor_def split: sum.splits)
  ultimately show ?thesis by blast
qed

lemma sharedstream_authorize_None:
  assumes "sharedstream_authorize ap namespace name create p scope = None"
  shows "fixed_scope namespace name scope \<and> permits create (review_of p scope ''list'') \<and>
    permits create (review_of p scope ''watch'')"
  using assms review_loop_None [of ap create p scope "[''list'', ''watch'']"]
  by (simp add: sharedstream_authorize_def SubjectAccessReviewAuthorizer_def del: review_loop.simps split: if_splits)

lemma host_answers_authorized:
  assumes "authorized_event cf p scope requested (host_answers ap namespace name p scope requested (create, an)) e"
    and "\<not> cf_DefaultProjections cf"
  shows "fixed_scope namespace name scope \<and> permits create (review_of p scope ''list'') \<and>
    permits create (review_of p scope ''watch'') \<and> auth_sent (cycle_env_of cf scope ProjectionFull) (an_inputs an) e"
proof -
  have "sharedstream_authorize ap namespace name create p scope = None"
    using assms(1) by (simp add: authorized_event_def host_answers_def)
  moreover obtain q where q: "StaticProjection_SelectProjection ProjectionFull p scope requested = Inr q"
    "auth_sent (cycle_env_of cf scope q) (an_inputs an) e"
    using assms by (auto simp: authorized_event_def host_answers_def selected_def)
  moreover have "q = ProjectionFull"
    using q(1) by (auto simp: StaticProjection_SelectProjection_def Let_def ProjectionFull_def split: if_splits)
  ultimately show ?thesis using sharedstream_authorize_None by blast
qed

text \<open>The options of the host pass the checks of \<open>Handler\<close>, so its construction does not panic.\<close>

lemma sharedstream_options_valid: "Handler_panic (sharedstream_options sha) = None"
  by (simp add: Handler_panic_def sharedstream_options_def validateHTTPServing_def)

lemma Handler_Accepted:
  assumes "Handler unicode_lower o' h w io ticks ans who raw = Accepted caller scope requested r"
  shows "who = Inr caller \<and> scope = query_scope (ParseQuery raw) \<and> requested = Values_Get (ParseQuery raw) ''projection'' \<and>
    r = ServeStream (op_Config o') h w io ticks ans caller scope requested"
proof -
  have "\<not> names_server (ParseQuery raw) \<and> scope = query_scope (ParseQuery raw)"
    if "ScopeFromQuery unicode_lower (ParseQuery raw) = Inr scope" using that by (simp add: ScopeFromQuery_Inr)
  then show ?thesis
    using assms unfolding Handler_def refuse_def Let_def by (auto split: sum.splits option.splits)
qed

lemma sharedstream_serve_Accepted:
  assumes "sharedstream_serve lib ap unicode_lower sha cfg namespace name h w io ticks now cycles sessionFor raw =
      Accepted caller scope requested r"
  obtains io' where
    "ServeStream (op_Config (sharedstream_options sha)) h w io' ticks
       (map (host_answers ap namespace name caller scope requested) cycles) caller scope requested = r"
    "io_by (session_expiry (fst sessionFor)) io'" "snd (check_session now sessionFor) = None"
    "\<exists>httpClient. hc_CheckRedirect httpClient = Some ErrRedirectRefused \<and>
      resolveSubject (rl_SelfSubjectReview lib (participant cfg (fst sessionFor)) httpClient) = Inr caller"
proof -
  define state where "state = check_session now sessionFor"
  have st: "fst state = fst sessionFor" by (simp add: state_def check_session_def split: prod.split)
  define io' where "io' = (if snd state = None then \<lambda>n. with_deadline (session_expiry (fst state)) (io n) else io)"
  have who: "sharedstream_principal lib cfg state = Inr caller"
    and serve: "ServeStream (op_Config (sharedstream_options sha)) h w io' ticks
       (map (host_answers ap namespace name caller scope requested) cycles) caller scope requested = r"
    using Handler_Accepted [OF assms [unfolded sharedstream_serve_def Let_def]] unfolding state_def io'_def by auto
  have p: "snd state = None" "\<exists>httpClient. hc_CheckRedirect httpClient = Some ErrRedirectRefused \<and>
      resolveSubject (rl_SelfSubjectReview lib (participant cfg (fst sessionFor)) httpClient) = Inr caller"
    using sharedstream_principal_Inr [OF who] st by auto
  then have "io_by (session_expiry (fst sessionFor)) io'" using io_by_with_deadline st by (simp add: io'_def)
  then show thesis using that serve p by (simp add: state_def)
qed

section \<open>Property\<close>

text \<open>C9. The composed host.  A stream is served only for a session that the host's store vouches for,
  with a token, before both of its expiries, and to the subject that the API server named over a
  client that carries that token and refuses redirects.  Every event on the wire that is not an
  error is of the one fixed ConfigMap, under the full projection, in a cycle for which the API
  server permitted that subject to list and to watch it.  Every write happens under a deadline
  that is at most five seconds ahead and never later than the end of the session.\<close>

theorem sharedstream_discloses:
  assumes "sharedstream_serve lib ap unicode_lower sha cfg namespace name h w io ticks now cycles sessionFor raw =
      Accepted caller scope requested (Ran r)"
    and "s = snd (snd (wd_sink (result_world r)))"
  shows "(snd sessionFor = None \<and> sn_Token (fst sessionFor) \<noteq> [] \<and>
      now < sn_SessionExpiry (fst sessionFor) \<and> now < sn_TokenExpiry (fst sessionFor)) \<and>
    (\<exists>httpClient. hc_CheckRedirect httpClient = Some ErrRedirectRefused \<and>
      resolveSubject (rl_SelfSubjectReview lib (participant cfg (fst sessionFor)) httpClient) = Inr caller) \<and>
    (\<forall>e \<in> set (sent_events s). ev_Type e = EventError \<or>
      (fixed_scope namespace name scope \<and>
       (\<exists>(create, an) \<in> set cycles. permits create (review_of caller scope ''list'') \<and>
          permits create (review_of caller scope ''watch'') \<and>
          auth_sent (cycle_env_of (ht_Stream (op_Config (sharedstream_options sha))) scope ProjectionFull) (an_inputs an) (unnumber e)))) \<and>
    bounded_log 5000000000 False (ss_log s) \<and>
    list_all (deadline_by (min (sn_SessionExpiry (fst sessionFor)) (sn_TokenExpiry (fst sessionFor)))) (ss_log s)"
proof -
  let ?cf = "op_Config (sharedstream_options sha)"
  define E where "E = session_expiry (fst sessionFor)"
  define ans where "ans = map (host_answers ap namespace name caller scope requested) cycles"
  obtain io' where serve: "ServeStream ?cf h w io' ticks ans caller scope requested = Ran r" and by': "io_by E io'"
    and ok: "snd (check_session now sessionFor) = None"
    and subj: "\<exists>httpClient. hc_CheckRedirect httpClient = Some ErrRedirectRefused \<and>
      resolveSubject (rl_SelfSubjectReview lib (participant cfg (fst sessionFor)) httpClient) = Inr caller"
    unfolding E_def ans_def using sharedstream_serve_Accepted [OF assms(1)] by blast
  have E: "E = min (sn_SessionExpiry (fst sessionFor)) (sn_TokenExpiry (fst sessionFor))"
    by (simp add: E_def session_expiry_def)
  have t: "timeout_of ?cf = Some 5000000000" and d: "\<not> cf_DefaultProjections (ht_Stream ?cf)"
    by (simp_all add: timeout_of_def sharedstream_options_def)
  note ran = ServeStream_Ran [OF serve assms(2)]
  then have "ss_timeout s = Some 5000000000" "sink_bounded s" by (simp_all add: t sink_ok_def)
  then have "bounded_log 5000000000 False (ss_log s)" by (simp add: sink_bounded_def)
  moreover have "list_all (deadline_by (min (sn_SessionExpiry (fst sessionFor)) (sn_TokenExpiry (fst sessionFor)))) (ss_log s)"
    using ServeStream_ends_by [OF serve by'] assms(2) by (simp add: ends_by_def E)
  moreover have "fixed_scope namespace name scope \<and>
       (\<exists>(create, an) \<in> set cycles. permits create (review_of caller scope ''list'') \<and>
          permits create (review_of caller scope ''watch'') \<and>
          auth_sent (cycle_env_of (ht_Stream ?cf) scope ProjectionFull) (an_inputs an) (unnumber e))"
    if ev: "e \<in> set (sent_events s)" "ev_Type e \<noteq> EventError" for e
  proof -
    obtain c where "c \<in> set cycles"
      "authorized_event (ht_Stream ?cf) caller scope requested (host_answers ap namespace name caller scope requested c) (unnumber e)"
      using ran ev by (auto simp: ans_def is_error_event_def)
    then show ?thesis using host_answers_authorized [OF _ d, of caller scope requested ap namespace name "fst c" "snd c"] by force
  qed
  ultimately show ?thesis using check_session_None [OF ok] subj by blast
qed

definition sample_rest :: rest_lib where
  "sample_rest =
     \<lparr>rl_IsConfigTransportTLS = (\<lambda>cfg. True), rl_HTTPClientFor = (\<lambda>cfg. Inr \<lparr>hc_transport = 0, hc_CheckRedirect = None\<rparr>),
      rl_kubernetes = (\<lambda>cfg c. None), rl_dynamic = (\<lambda>cfg c. None), rl_AnonymousClientConfig = (\<lambda>cfg. cfg\<lparr>rc_BearerToken := []\<rparr>),
      rl_SelfSubjectReview = (\<lambda>cfg c. if rc_BearerToken cfg = ''t0'' \<and> hc_CheckRedirect c \<noteq> None
         then Inr (Some \<lparr>ui_Username = ''jane'', ui_UID = [], ui_Groups = [], ui_Extra = None\<rparr>) else Inr None)\<rparr>"

definition sample_cluster :: rest_config where
  "sample_cluster = \<lparr>rc_Host = ''https://kube'', rc_BearerToken = ''service'', rc_Insecure = False, rc_Timeout = 0, rc_settings = []\<rparr>"

definition sample_session :: Session where
  "sample_session = \<lparr>sn_Token = ''t0'', sn_SessionExpiry = 200, sn_TokenExpiry = 150\<rparr>"

definition sample_cycle :: "(SubjectAccessReview \<Rightarrow> go_error + review_status) \<times> answers" where
  "sample_cycle = (\<lambda>q. Inr \<lparr>rv_Allowed = True, rv_Denied = False, rv_Reason = [], rv_EvaluationError = []\<rparr>, sample_answers [GotWatch None])"

definition sample_sharedstream :: "Subject handled" where
  "sample_sharedstream =
     sharedstream_serve sample_rest sample_api id id (sample_cluster\<lparr>rc_BearerToken := [], rc_Timeout := 5000000000\<rparr>)
       ''ns'' ''cm'' sample_writers 2 sample_io (\<lambda>n. 0) 100 [sample_cycle] (sample_session, None)
       ''version=v1&resource=configmaps&namespace=ns&name=cm''"

fun handled_sink :: "Subject handled \<Rightarrow> SSESink option" where
  "handled_sink (Accepted caller scope requested (Ran r)) = Some (snd (snd (wd_sink (result_world r))))"
| "handled_sink _ = None"

lemma handled_sink_Some:
  "handled_sink x = Some s \<Longrightarrow>
     \<exists>caller scope requested r. x = Accepted caller scope requested (Ran r) \<and> s = snd (snd (wd_sink (result_world r)))"
  by (induction x rule: handled_sink.induct) auto

theorem sharedstream_discloses_witness:
  "\<exists>caller scope requested r. sample_sharedstream = Accepted caller scope requested (Ran r) \<and>
     fixed_scope ''ns'' ''cm'' scope \<and> list_all (deadline_by 150) (ss_log (snd (snd (wd_sink (result_world r)))))"
proof -
  have "case handled_sink sample_sharedstream of None \<Rightarrow> False | Some s \<Rightarrow> map ev_Type (sent_events s) = [EventReset]"
    by code_simp
  then obtain s where s: "handled_sink sample_sharedstream = Some s" "map ev_Type (sent_events s) = [EventReset]"
    by (auto split: option.splits)
  then obtain caller scope requested r where r: "sample_sharedstream = Accepted caller scope requested (Ran r)"
    "s = snd (snd (wd_sink (result_world r)))"
    using handled_sink_Some by blast
  from sharedstream_discloses [OF r(1) [unfolded sample_sharedstream_def] r(2)] s(2)
  have "fixed_scope ''ns'' ''cm'' scope" "list_all (deadline_by 150) (ss_log s)"
    by (auto simp: sample_session_def map_eq_Cons_conv)
  then show ?thesis using r by blast
qed

end
