(* ===== verification/Patch.thy ===== *)
theory Patch
  imports Projection
begin

text \<open>
  The guard a host runs on a merge patch before it writes: \<open>gateway/patch.go\<close>.  The
  reference is RFC 7386 itself (\<open>MergePatch\<close>): the lemmas relate the textual overlap test
  on pointers to the prefix order on paths, and the accepted patches to what merging them
  does to the protected paths.
\<close>

section \<open>Operations\<close>

record PatchViolation =
  pv_Path :: string
  pv_Reason :: string

text \<open>
  What the two validators return besides nil: the \<open>fmt.Errorf\<close> values, and the typed
  violation of \<open>validatePatchObject\<close>.
\<close>

datatype patch_error =
    UnknownProjection string
  | InvalidJSON go_error
  | NotAnObject
  | Unconditional string
  | Violation PatchViolation

fun pointerOf :: "string list \<Rightarrow> string" where
  "pointerOf [] = []"
| "pointerOf (segment # path) = ''/'' @ escapePointer segment @ pointerOf path"

definition hasPointerPrefix :: "string \<Rightarrow> string \<Rightarrow> bool" where
  "hasPointerPrefix path pre \<longleftrightarrow>
     length path > length pre \<and> length pre > 0 \<and> take (length pre) path = pre \<and>
     path ! length pre = CHR ''/''"

definition pointersOverlap :: "string \<Rightarrow> string \<Rightarrow> bool" where
  "pointersOverlap a b \<longleftrightarrow> a = b \<or> hasPointerPrefix a b \<or> hasPointerPrefix b a"

text \<open>The inner loop: the first protected path, in iteration order, that the pointer overlaps.\<close>

fun check_pointer :: "string \<Rightarrow> string gmap \<Rightarrow> PatchViolation option" where
  "check_pointer pointer [] = None"
| "check_pointer pointer ((protectedPath, reason) # rest) =
     (if pointersOverlap pointer protectedPath
      then Some \<lparr>pv_Path = protectedPath, pv_Reason = reason\<rparr>
      else check_pointer pointer rest)"

text \<open>\<open>object, ok := value.(map[string]any)\<close>\<close>

fun as_object :: "json \<Rightarrow> KRMObject option" where
  "as_object (JObj m) = Some m"
| "as_object _ = None"

lemma as_object_Some [simp]: "as_object v = Some m \<longleftrightarrow> v = JObj m"
  by (cases v) auto

lemma Some_as_object [simp]: "Some m = as_object v \<longleftrightarrow> v = JObj m"
  by (cases v) auto

function validatePatchObject :: "KRMObject \<Rightarrow> string list \<Rightarrow> string gmap \<Rightarrow> PatchViolation option" where
  "validatePatchObject [] path protected = None"
| "validatePatchObject ((key, value) # rest) path protected =
     (case as_object value of
        Some object \<Rightarrow>
          (if object \<noteq> []
           then (case validatePatchObject object (path @ [key]) protected of
                   Some err \<Rightarrow> Some err
                 | None \<Rightarrow> validatePatchObject rest path protected)
           else validatePatchObject rest path protected)
      | None \<Rightarrow>
          (case check_pointer (pointerOf (path @ [key])) protected of
             Some err \<Rightarrow> Some err
           | None \<Rightarrow> validatePatchObject rest path protected))"
  by pat_completeness auto
termination
  by (relation "measure (\<lambda>(m, _, _). size (JObj m))") auto

definition machineryPaths :: "string list" where
  "machineryPaths =
     [''/metadata/managedFields'', ''/metadata/annotations/'' @ escapePointer lastAppliedAnnotation]"

definition projectionProtectedPaths :: "Projection \<Rightarrow> KRMObject \<Rightarrow> string gmap" where
  "projectionProtectedPaths projection object =
     (let (_, redacted) = project projection object;
          paths = fold (\<lambda>value. map_put (fst value) ''redacted by the effective projection'') redacted [];
          paths = fold (\<lambda>path. map_put path ''removed by the projection'') machineryPaths paths
      in if projection = ProjectionSpec then map_put ''/status'' ''ignored by the projection'' paths
         else paths)"

text \<open>
  \<open>json.Unmarshal(patch, &parsed)\<close> into a map is a parameter: an error, or the decoded
  map, \<open>None\<close> when it is left nil (the document is \<open>null\<close>).
\<close>

type_synonym unmarshal = "string \<Rightarrow> go_error + KRMObject option"

definition ValidateMergePatch :: "unmarshal \<Rightarrow> Projection \<Rightarrow> KRMObject \<Rightarrow> string \<Rightarrow> patch_error option" where
  "ValidateMergePatch unmarshal projection object patch =
     (if \<not> isBuiltinProjection projection then Some (UnknownProjection projection)
      else case unmarshal patch of
        Inl err \<Rightarrow> Some (InvalidJSON err)
      | Inr None \<Rightarrow> Some NotAnObject
      | Inr (Some parsed) \<Rightarrow>
          map_option Violation
            (validatePatchObject parsed [] (projectionProtectedPaths projection object)))"

definition native_protected :: "string gmap" where
  "native_protected =
     fold (\<lambda>path. map_put path ''written by the API server or kubectl apply'') machineryPaths []"

text \<open>The loop over \<open>uid\<close> and \<open>resourceVersion\<close>: the first field that is absent or empty.\<close>

fun missing_field :: "KRMObject \<Rightarrow> string list \<Rightarrow> string option" where
  "missing_field metadata [] = None"
| "missing_field metadata (field # rest) =
     (if str_field metadata field = [] then Some field else missing_field metadata rest)"

definition ValidateNativeMergePatch :: "unmarshal \<Rightarrow> string \<Rightarrow> patch_error option" where
  "ValidateNativeMergePatch unmarshal patch =
     (case unmarshal patch of
        Inl err \<Rightarrow> Some (InvalidJSON err)
      | Inr None \<Rightarrow> Some NotAnObject
      | Inr (Some parsed) \<Rightarrow>
          (let metadata = (case obj_field parsed ''metadata'' of None \<Rightarrow> [] | Some m \<Rightarrow> m)
           in case missing_field metadata [''uid'', ''resourceVersion''] of
                Some field \<Rightarrow> Some (Unconditional field)
              | None \<Rightarrow> map_option Violation (validatePatchObject parsed [] native_protected)))"

section \<open>RFC 7386\<close>

text \<open>
  The specification's own pseudo code: an object patch merges into an object target, any
  other target is first replaced by an empty object, and any other patch replaces the target.
\<close>

fun MergePatch :: "json option \<Rightarrow> json \<Rightarrow> json" where
  "MergePatch target (JObj p) =
     JObj (fold (\<lambda>kv m. if snd kv = JNull then map_delete (fst kv) m
                         else map_put (fst kv) (MergePatch (map_of m (fst kv)) (snd kv)) m) p
            (case target of Some (JObj m) \<Rightarrow> m | _ \<Rightarrow> []))"
| "MergePatch target v = v"

text \<open>A patch writes a path when it holds a value there that is not an object.\<close>

definition writes :: "json \<Rightarrow> string list \<Rightarrow> bool" where
  "writes patch q \<longleftrightarrow> (case value_at patch q of Some v \<Rightarrow> as_object v = None | None \<Rightarrow> False)"

definition binds_object :: "json \<Rightarrow> string list \<Rightarrow> bool" where
  "binds_object patch q \<longleftrightarrow> (case value_at patch q of Some v \<Rightarrow> as_object v \<noteq> None | None \<Rightarrow> False)"

section \<open>Lemmas\<close>

subsection \<open>Pointers and paths\<close>

lemma pointerOf_append [simp]: "pointerOf (a @ b) = pointerOf a @ pointerOf b"
  by (induction a) auto

lemma pointerOf_Nil_iff [simp]: "pointerOf a = [] \<longleftrightarrow> a = []"
  by (cases a) auto

lemma Nil_pointerOf_iff [simp]: "[] = pointerOf a \<longleftrightarrow> a = []"
  by (cases a) auto

lemma pointerOf_hd: "a \<noteq> [] \<Longrightarrow> hd (pointerOf a) = CHR ''/''"
  by (cases a) auto

text \<open>A segment ends at the next slash, so a pointer is cut in one way only.\<close>

lemma segment_cut:
  assumes "s @ u = t @ w" and "CHR ''/'' \<notin> set s" and "CHR ''/'' \<notin> set t"
    and "u = [] \<or> hd u = CHR ''/''" and "w = [] \<or> hd w = CHR ''/''"
  shows "s = t \<and> u = w"
  using assms
proof (induction s arbitrary: t)
  case Nil
  then show ?case by (cases t) (auto simp: Cons_eq_append_conv)
next
  case (Cons x s)
  then show ?case by (cases t) auto
qed

lemma pointerOf_prefix:
  assumes "pointerOf a = pointerOf b @ r" and "r = [] \<or> hd r = CHR ''/''"
  shows "\<exists>c. a = b @ c \<and> r = pointerOf c"
  using assms
proof (induction b arbitrary: a)
  case (Cons t b)
  then obtain s a' where a: "a = s # a'" by (cases a) auto
  have "escapePointer s @ pointerOf a' = escapePointer t @ (pointerOf b @ r)"
    using Cons.prems(1) by (simp add: a)
  moreover have "pointerOf b @ r = [] \<or> hd (pointerOf b @ r) = CHR ''/''"
    using Cons.prems(2) pointerOf_hd [of b] by (cases b) auto
  moreover have "pointerOf a' = [] \<or> hd (pointerOf a') = CHR ''/''"
    using pointerOf_hd [of a'] by auto
  ultimately have "escapePointer s = escapePointer t \<and> pointerOf a' = pointerOf b @ r"
    by (intro segment_cut) (auto simp: escapePointer_no_slash)
  then show ?case using Cons.IH [of a'] Cons.prems(2) by (auto simp: a)
qed auto

lemma pointerOf_inj [simp]: "pointerOf a = pointerOf b \<longleftrightarrow> a = b"
  using pointerOf_prefix [of a b "[]"] by auto

lemma hasPointerPrefix_iff: "b \<noteq> [] \<Longrightarrow> hasPointerPrefix (pointerOf a) (pointerOf b) \<longleftrightarrow> strict_prefix b a"
proof
  assume b: "b \<noteq> []" and h: "hasPointerPrefix (pointerOf a) (pointerOf b)"
  let ?r = "drop (length (pointerOf b)) (pointerOf a)"
  have "pointerOf a = pointerOf b @ ?r" and "hd ?r = CHR ''/''" and "?r \<noteq> []"
    using h append_take_drop_id [of "length (pointerOf b)" "pointerOf a"]
    by (auto simp: hasPointerPrefix_def hd_drop_conv_nth)
  then obtain c where "a = b @ c" "c \<noteq> []"
    using pointerOf_prefix [of a b ?r] by auto
  then show "strict_prefix b a" by (auto simp: strict_prefix_def)
next
  assume b: "b \<noteq> []" and "strict_prefix b a"
  then obtain c where c: "a = b @ c" "c \<noteq> []" by (auto simp: strict_prefix_def prefix_def)
  then have "hd (pointerOf c) = CHR ''/''" "pointerOf c \<noteq> []" by (auto simp: pointerOf_hd)
  then show "hasPointerPrefix (pointerOf a) (pointerOf b)"
    using b c(1) by (auto simp: hasPointerPrefix_def nth_append hd_conv_nth)
qed

lemma pointersOverlap_touches:
  "a \<noteq> [] \<Longrightarrow> b \<noteq> [] \<Longrightarrow> pointersOverlap (pointerOf a) (pointerOf b) \<longleftrightarrow> touches a b"
  by (auto simp: pointersOverlap_def hasPointerPrefix_iff touches_def strict_prefix_def)


subsection \<open>The validator accepts exactly the patches that write no protected path\<close>

lemma check_pointer_None:
  "check_pointer p prot = None \<longleftrightarrow> (\<forall>pr \<in> set prot. \<not> pointersOverlap p (fst pr))"
  by (induction p prot rule: check_pointer.induct) auto

lemma check_pointer_Some:
  "check_pointer p prot = Some v \<Longrightarrow> (pv_Path v, pv_Reason v) \<in> set prot \<and> pointersOverlap p (pv_Path v)"
  by (induction p prot rule: check_pointer.induct) (auto split: if_splits)

lemma writes_Nil: "writes (JObj m) q \<Longrightarrow> q \<noteq> []"
  by (auto simp: writes_def)

lemma writes_empty [simp]: "\<not> writes (JObj []) q"
  by (cases q) (auto simp: writes_def)

lemma writes_leaf: "as_object v = None \<Longrightarrow> writes v q \<longleftrightarrow> q = []"
  by (cases v; cases q) (auto simp: writes_def)

lemma writes_Cons:
  "k \<notin> fst ` set m \<Longrightarrow>
     writes (JObj ((k, v) # m)) q \<longleftrightarrow> (\<exists>r. q = k # r \<and> writes v r) \<or> writes (JObj m) q"
proof (cases q)
  case (Cons j r)
  assume "k \<notin> fst ` set m"
  then have "map_of m k = None" by (simp add: map_of_eq_None_iff)
  then show ?thesis using Cons by (auto simp: writes_def)
qed (auto simp: writes_def)

definition clear :: "json \<Rightarrow> string list \<Rightarrow> string gmap \<Rightarrow> bool" where
  "clear patch path prot \<longleftrightarrow>
     (\<forall>q. writes patch q \<longrightarrow> (\<forall>pr \<in> set prot. \<not> pointersOverlap (pointerOf (path @ q)) (fst pr)))"

lemma clear_Cons:
  "k \<notin> fst ` set m \<Longrightarrow>
     clear (JObj ((k, v) # m)) path prot \<longleftrightarrow> clear v (path @ [k]) prot \<and> clear (JObj m) path prot"
  unfolding clear_def writes_Cons by (auto simp del: pointerOf_append)

lemma clear_leaf: "as_object v = None \<Longrightarrow> clear v path prot \<longleftrightarrow> check_pointer (pointerOf path) prot = None"
  by (simp add: clear_def writes_leaf check_pointer_None)

lemma clear_empty [simp]: "clear (JObj []) path prot"
  by (simp add: clear_def)

lemma validate_None: "wf_object patch \<Longrightarrow> validatePatchObject patch path prot = None \<longleftrightarrow> clear (JObj patch) path prot"
proof (induction patch path prot rule: validatePatchObject.induct)
  case (2 key v rest path prot)
  have wf: "wf_object rest" "wf_json v" "key \<notin> fst ` set rest" using "2.prems" by auto
  show ?case
  proof (cases "as_object v")
    case None
    then show ?thesis using "2.IH"(1) [OF None] wf
      by (auto simp: clear_Cons clear_leaf split: option.split simp del: pointerOf_append)
  next
    case (Some m)
    show ?thesis
    proof (cases "m = []")
      case True
      then show ?thesis using "2.IH"(4) [OF Some] wf Some by (simp add: clear_Cons del: pointerOf_append)
    next
      case False
      then show ?thesis using "2.IH"(2,3) [OF Some False] wf Some
        by (auto simp: clear_Cons split: option.split simp del: pointerOf_append)
    qed
  qed
qed simp

text \<open>A refusal names a protected path that the patch really overlaps.\<close>

lemma validate_Some:
  "validatePatchObject patch path prot = Some e \<Longrightarrow> wf_object patch \<Longrightarrow>
     \<exists>q. writes (JObj patch) q \<and> (pv_Path e, pv_Reason e) \<in> set prot \<and>
         pointersOverlap (pointerOf (path @ q)) (pv_Path e)"
proof (induction patch path prot rule: validatePatchObject.induct)
  case (2 key v rest path prot)
  have wf: "wf_object rest" "wf_json v" "key \<notin> fst ` set rest" using "2.prems" by auto
  have later: "\<exists>q. writes (JObj ((key, v) # rest)) q \<and> P q" if "\<exists>q. writes (JObj rest) q \<and> P q" for P
    using that by (auto simp: writes_Cons [OF wf(3)])
  have here: "\<exists>q. writes (JObj ((key, v) # rest)) q \<and> P q" if "\<exists>q. writes v q \<and> P (key # q)" for P
    using that by (auto simp: writes_Cons [OF wf(3)])
  show ?case
  proof (cases "as_object v")
    case None
    show ?thesis
    proof (cases "check_pointer (pointerOf (path @ [key])) prot")
      case None
      then show ?thesis using "2.IH"(1) [OF \<open>as_object v = None\<close> None] "2.prems" \<open>as_object v = None\<close> wf
        by (intro later) simp
    next
      case (Some e')
      then show ?thesis using "2.prems" \<open>as_object v = None\<close> check_pointer_Some [OF Some]
        by (intro here exI [of _ "[]"]) (simp add: writes_leaf)
    qed
  next
    case (Some m)
    show ?thesis
    proof (cases "m \<noteq> [] \<and> validatePatchObject m (path @ [key]) prot \<noteq> None")
      case True
      then show ?thesis using "2.IH"(2) [OF Some] "2.prems" Some wf
        by (intro here) (auto simp del: pointerOf_append)
    next
      case False
      then show ?thesis using "2.IH"(3,4) [OF Some] "2.prems" Some wf
        by (intro later) (auto split: if_splits)
    qed
  qed
qed simp

subsection \<open>What merging does\<close>

lemma merge_fold:
  "map_wf p \<Longrightarrow>
   map_of (fold (\<lambda>kv m. if snd kv = JNull then map_delete (fst kv) m else map_put (fst kv) (f (map_of m (fst kv)) (snd kv)) m) p m) k =
     (case map_of p k of
        None \<Rightarrow> map_of m k
      | Some v \<Rightarrow> if v = JNull then None else Some (f (map_of m k) v))"
proof (induction p arbitrary: m)
  case (Cons kv p)
  obtain j v where kv: "kv = (j, v)" by (cases kv)
  have "map_of p j = None" using Cons.prems kv by (simp add: map_of_eq_None_iff)
  then show ?case using Cons kv by (cases "j = k") (auto split: option.split)
qed simp

lemma touches_Cons [simp]: "touches (k # r) (k # q) = touches r q"
  by (simp add: touches_def)

lemma merge_unwritten:
  assumes "wf_json patch" and "\<And>r. writes patch r \<Longrightarrow> \<not> touches r q" and "\<not> binds_object patch q"
  shows "value_at (MergePatch t patch) q = (case t of None \<Rightarrow> None | Some v \<Rightarrow> value_at v q)"
  using assms
proof (induction q arbitrary: t patch)
  case Nil
  have "writes patch [] \<or> binds_object patch []" by (cases "as_object patch") (simp_all add: writes_def binds_object_def)
  then show ?case using Nil(2) [of "[]"] Nil(3) by (simp add: touches_def)
next
  case (Cons k q)
  have "as_object patch \<noteq> None"
    using Cons.prems(2) [of "[]"] by (auto simp: writes_def touches_def simp del: not_None_eq)
  then obtain p where p: "patch = JObj p" by auto
  let ?m = "case t of Some (JObj m) \<Rightarrow> m | _ \<Rightarrow> []"
  have wf: "map_wf p" using Cons.prems(1) p by simp
  have old: "(case map_of ?m k of None \<Rightarrow> None | Some v \<Rightarrow> value_at v q) = (case t of None \<Rightarrow> None | Some v \<Rightarrow> value_at v (k # q))"
    by (auto split: option.split json.split)
  show ?case
  proof (cases "map_of p k")
    case None
    then show ?thesis using old by (simp add: p merge_fold [OF wf])
  next
    case (Some v)
    have "\<not> touches r q" if "writes v r" for r
      using Cons.prems(2) [of "k # r"] that Some p by (simp add: writes_def)
    moreover have "\<not> binds_object v q" using Cons.prems(3) Some p by (simp add: binds_object_def)
    moreover have "wf_json v" using Cons.prems(1) Some p wf_object_lookup by blast
    ultimately have "value_at (MergePatch (map_of ?m k) v) q = (case map_of ?m k of None \<Rightarrow> None | Some w \<Rightarrow> value_at w q)"
      by (intro Cons.IH)
    moreover have "v \<noteq> JNull"
      using Cons.prems(2) [of "[k]"] Some p by (auto simp: writes_def touches_def)
    ultimately show ?thesis using old by (simp add: p merge_fold [OF wf] Some)
  qed
qed


subsection \<open>The protected paths\<close>

lemma keys_map_put: "fst ` set (map_put k v m) = insert k (fst ` set m)"
  by (induction m) (auto simp: map_put_def)

lemma keys_fold_put: "fst ` set (fold (\<lambda>x. map_put (g x) r) xs m) = g ` set xs \<union> fst ` set m"
  by (induction xs arbitrary: m) (auto simp: keys_map_put)

lemma machineryPaths_pointers: "machineryPaths = map pointerOf [managedFields_path, lastApplied_path]"
  by (simp add: machineryPaths_def managedFields_path_def lastApplied_path_def)

lemma redaction_pointers: "fst ` set (snd (project p o')) = pointerOf ` set (redacted_paths p o')"
proof -
  have one: "map pointerOf (case obj_field o' f of None \<Rightarrow> [] | Some m \<Rightarrow> map (\<lambda>kv. [f, fst kv]) m) =
      map fst (case obj_field o' f of None \<Rightarrow> [] | Some m \<Rightarrow> map (redaction_entry f) m)" for f
    by (simp add: redaction_entry_def split: option.split)
  have "map pointerOf (redacted_paths p o') = (if redacts p o' then map fst (secret_entries o') else [])"
    unfolding redacted_paths_def secret_entries_def if_distrib [of "map pointerOf"] map_concat
    by (simp only: list.map one)
  then have "pointerOf ` set (redacted_paths p o') = set (if redacts p o' then map fst (secret_entries o') else [])"
    by (simp only: list.set_map [symmetric])
  then show ?thesis by (cases "redacts p o'") (simp_all add: project_snd)
qed

lemma protected_pointers:
  "fst ` set (projectionProtectedPaths p o') = pointerOf ` set (removed_paths p o')"
proof -
  have "projectionProtectedPaths p o' =
      (let m = fold (\<lambda>path. map_put path ''removed by the projection'') machineryPaths
                (fold (\<lambda>value. map_put (fst value) ''redacted by the effective projection'') (snd (project p o')) [])
       in if p = ProjectionSpec then map_put ''/status'' ''ignored by the projection'' m else m)"
    unfolding projectionProtectedPaths_def Let_def by (simp only: case_prod_beta)
  moreover have "''/status'' = pointerOf [''status'']" by simp
  ultimately show ?thesis
    unfolding removed_paths_def Let_def
    by (simp only: keys_map_put keys_fold_put [of "\<lambda>x. x"] keys_fold_put [of fst] redaction_pointers
          machineryPaths_pointers split: if_split) (simp only: list.set set_append list.map image_insert image_Un; auto)
qed

lemma native_pointers: "fst ` set native_protected = pointerOf ` {managedFields_path, lastApplied_path}"
  unfolding native_protected_def keys_fold_put [of "\<lambda>x. x"] machineryPaths_pointers by simp

lemma removed_paths_nonempty: "r \<in> set (removed_paths p o') \<Longrightarrow> r \<noteq> []"
  unfolding removed_paths_machinery by (auto simp: managedFields_path_def lastApplied_path_def)

lemma clear_protects:
  assumes "wf_object patch" and "validatePatchObject patch [] prot = None"
    and "pointerOf r \<in> fst ` set prot" and "r \<noteq> []" and "\<not> binds_object (JObj patch) r"
  shows "value_at (MergePatch (Some (JObj o')) (JObj patch)) r = value_at (JObj o') r"
proof -
  have "\<not> touches q r" if "writes (JObj patch) q" for q
  proof -
    have "\<not> pointersOverlap (pointerOf q) (pointerOf r)"
      using that assms(2,3) unfolding validate_None [OF assms(1)] clear_def by force
    then show ?thesis using pointersOverlap_touches [of q r] writes_Nil [OF that] assms(4) by blast
  qed
  then have "value_at (MergePatch (Some (JObj o')) (JObj patch)) r =
      (case Some (JObj o') of None \<Rightarrow> None | Some v \<Rightarrow> value_at v r)"
    using assms(1,5) by (intro merge_unwritten)
  then show ?thesis by simp
qed

section \<open>Properties\<close>

text \<open>The textual overlap test on RFC 6901 pointers is the prefix relation on paths:
  escaping and the trailing-slash check neither confuse two sibling keys nor miss a parent.\<close>

theorem pointersOverlap_correct:
  assumes "a \<noteq> []" and "b \<noteq> []"
  shows "pointersOverlap (pointerOf a) (pointerOf b) \<longleftrightarrow> prefix a b \<or> prefix b a"
  using pointersOverlap_touches [OF assms] by (simp only: touches_def)

theorem pointersOverlap_correct_witness:
  "pointersOverlap (pointerOf [''a/b'']) (pointerOf [''a/b'', ''~'']) \<and>
   \<not> pointersOverlap (pointerOf [''data'']) (pointerOf [''data2''])"
  using pointersOverlap_correct [of "[''a/b'']" "[''a/b'', ''~'']"]
    pointersOverlap_correct [of "[''data'']" "[''data2'']"] by simp

text \<open>C30. A patch that \<open>ValidateMergePatch\<close> accepts, merged as RFC 7386 says, leaves
  every path that the projection removed or redacted as it was on the server, unless the
  patch binds that very path to an object.\<close>

theorem ValidateMergePatch_protects:
  assumes "ValidateMergePatch unmarshal p o' text = None"
    and "unmarshal text = Inr (Some patch)" and "wf_object patch"
    and "r \<in> set (removed_paths p o')" and "\<not> binds_object (JObj patch) r"
  shows "value_at (MergePatch (Some (JObj o')) (JObj patch)) r = value_at (JObj o') r"
proof (rule clear_protects [OF assms(3) _ _ _ assms(5)])
  show "validatePatchObject patch [] (projectionProtectedPaths p o') = None"
    using assms(1,2) by (simp add: ValidateMergePatch_def split: if_splits)
  show "pointerOf r \<in> fst ` set (projectionProtectedPaths p o')"
    unfolding protected_pointers using assms(4) by (rule imageI)
  show "r \<noteq> []" using assms(4) by (rule removed_paths_nonempty)
qed

definition sample_patch :: KRMObject where
  "sample_patch = [(''metadata'', JObj [(''labels'', JObj [(''x'', JStr ''y'')])]), (''type'', JStr ''Opaque'')]"

theorem ValidateMergePatch_protects_witness:
  "ValidateMergePatch (\<lambda>_. Inr (Some sample_patch)) ProjectionFull sample_secret [] = None \<and>
   value_at (MergePatch (Some (JObj sample_secret)) (JObj sample_patch)) [''data'', ''c''] = Some (JStr ''eQ=='')"
proof -
  have v: "ValidateMergePatch (\<lambda>_. Inr (Some sample_patch)) ProjectionFull sample_secret [] = None" by code_simp
  have w: "wf_object sample_patch" by code_simp
  have r: "[''data'', ''c''] \<in> set (removed_paths ProjectionFull sample_secret)" by code_simp
  have n: "\<not> binds_object (JObj sample_patch) [''data'', ''c'']" by code_simp
  have e: "value_at (JObj sample_secret) [''data'', ''c''] = Some (JStr ''eQ=='')" by code_simp
  show ?thesis using v ValidateMergePatch_protects [OF v refl w r n] e by (simp only: simp_thms)
qed

text \<open>C31. The validator refuses nothing else: under a built-in projection a well-formed
  patch is refused exactly when some value it writes (a leaf, \<open>null\<close> included) lies at,
  above or below a removed or redacted path.\<close>

theorem ValidateMergePatch_exact:
  assumes "isBuiltinProjection p" and "unmarshal text = Inr (Some patch)" and "wf_object patch"
  shows "ValidateMergePatch unmarshal p o' text \<noteq> None \<longleftrightarrow>
    (\<exists>q r. writes (JObj patch) q \<and> r \<in> set (removed_paths p o') \<and> touches q r)"
proof -
  let ?prot = "projectionProtectedPaths p o'"
  have "ValidateMergePatch unmarshal p o' text \<noteq> None \<longleftrightarrow> \<not> clear (JObj patch) [] ?prot"
    using assms validate_None [OF assms(3), of "[]" ?prot] by (simp add: ValidateMergePatch_def)
  also have "\<dots> \<longleftrightarrow> (\<exists>q. writes (JObj patch) q \<and> (\<exists>pp \<in> fst ` set ?prot. pointersOverlap (pointerOf q) pp))"
    unfolding clear_def by auto
  also have "\<dots> \<longleftrightarrow> (\<exists>q r. writes (JObj patch) q \<and> r \<in> set (removed_paths p o') \<and> pointersOverlap (pointerOf q) (pointerOf r))"
    unfolding protected_pointers by blast
  also have "\<dots> \<longleftrightarrow> (\<exists>q r. writes (JObj patch) q \<and> r \<in> set (removed_paths p o') \<and> touches q r)"
    using pointersOverlap_touches [OF writes_Nil removed_paths_nonempty, of patch _ _ p o'] by blast
  finally show ?thesis .
qed

theorem ValidateMergePatch_exact_witness:
  "ValidateMergePatch (\<lambda>_. Inr (Some [(''data'', JNull)])) ProjectionFull sample_secret [] \<noteq> None"
proof -
  have b: "isBuiltinProjection ProjectionFull" and w: "wf_object [(''data'', JNull)]"
    and r: "[''data'', ''c''] \<in> set (removed_paths ProjectionFull sample_secret)"
    and q: "writes (JObj [(''data'', JNull)]) [''data'']" and t: "touches [''data''] [''data'', ''c'']"
    by code_simp+
  show ?thesis using ValidateMergePatch_exact [OF b, of "\<lambda>_. Inr (Some [(''data'', JNull)])" "[]", OF refl w, of sample_secret] r q t by blast
qed

text \<open>A patch that \<open>ValidateNativeMergePatch\<close> accepts carries both preconditions, a
  non-empty \<open>metadata.uid\<close> and \<open>metadata.resourceVersion\<close>, and leaves the managed fields
  and the last-applied annotation of any target unchanged unless it binds one of these two
  paths to an object.\<close>

theorem ValidateNativeMergePatch_conditional:
  assumes "ValidateNativeMergePatch unmarshal text = None"
    and "unmarshal text = Inr (Some patch)" and "wf_object patch"
  shows "(\<exists>u. value_at (JObj patch) [''metadata'', ''uid''] = Some (JStr u) \<and> u \<noteq> []) \<and>
    (\<exists>v. value_at (JObj patch) [''metadata'', ''resourceVersion''] = Some (JStr v) \<and> v \<noteq> []) \<and>
    (\<forall>r o'. r \<in> {managedFields_path, lastApplied_path} \<and> \<not> binds_object (JObj patch) r \<longrightarrow>
        value_at (MergePatch (Some (JObj o')) (JObj patch)) r = value_at (JObj o') r)"
proof -
  obtain m where m: "obj_field patch ''metadata'' = Some m"
    and u: "str_field m ''uid'' \<noteq> []" and v: "str_field m ''resourceVersion'' \<noteq> []"
    and ok: "validatePatchObject patch [] native_protected = None"
    using assms(1,2)
    by (cases "obj_field patch ''metadata''")
       (simp_all add: ValidateNativeMergePatch_def str_field_def split: if_splits option.splits)
  have str: "\<exists>u. value_at (JObj patch) [''metadata'', k] = Some (JStr u) \<and> u \<noteq> []" if "str_field m k \<noteq> []" for k
    using m that by (simp add: obj_field_Some str_field_def split: option.splits json.splits)
  have "value_at (MergePatch (Some (JObj o')) (JObj patch)) r = value_at (JObj o') r"
    if "r \<in> {managedFields_path, lastApplied_path}" "\<not> binds_object (JObj patch) r" for r o'
  proof (rule clear_protects [OF assms(3) ok _ _ that(2)])
    show "pointerOf r \<in> fst ` set native_protected" unfolding native_pointers using that(1) by (rule imageI)
    show "r \<noteq> []" using that(1) by (auto simp: managedFields_path_def lastApplied_path_def)
  qed
  then show ?thesis using str [OF u] str [OF v] by blast
qed

definition sample_native :: KRMObject where
  "sample_native = [(''metadata'', JObj [(''uid'', JStr ''u1''), (''resourceVersion'', JStr ''7'')]),
     (''spec'', JObj [(''replicas'', JNum ''2'')])]"

theorem ValidateNativeMergePatch_conditional_witness:
  "ValidateNativeMergePatch (\<lambda>_. Inr (Some sample_native)) [] = None \<and>
   value_at (MergePatch (Some (JObj sample_secret)) (JObj sample_native)) managedFields_path = Some (JArr [])"
proof -
  have v: "ValidateNativeMergePatch (\<lambda>_. Inr (Some sample_native)) [] = None"
    and w: "wf_object sample_native" and n: "\<not> binds_object (JObj sample_native) managedFields_path"
    and e: "value_at (JObj sample_secret) managedFields_path = Some (JArr [])" by code_simp+
  show ?thesis using v n e ValidateNativeMergePatch_conditional [OF v refl w] by (metis insertI1)
qed

text \<open>C40. The validator lets an object through at a protected path, as the no-op the code
  takes it for, but merging it is not one: \<open>{"metadata":{"managedFields":{}}}\<close> is accepted
  under every built-in projection and replaces the managed fields array by an empty object.\<close>

theorem empty_object_accepted:
  assumes "isBuiltinProjection p"
  shows "ValidateMergePatch (\<lambda>_. Inr (Some [(''metadata'', JObj [(''managedFields'', JObj [])])])) p o' text = None \<and>
    value_at (MergePatch (Some (JObj sample_secret)) (JObj [(''metadata'', JObj [(''managedFields'', JObj [])])]))
      managedFields_path = Some (JObj []) \<and>
    value_at (JObj sample_secret) managedFields_path = Some (JArr [])"
proof -
  have "value_at (MergePatch (Some (JObj sample_secret)) (JObj [(''metadata'', JObj [(''managedFields'', JObj [])])]))
      managedFields_path = Some (JObj [])" and "value_at (JObj sample_secret) managedFields_path = Some (JArr [])"
    by code_simp+
  moreover have "ValidateMergePatch (\<lambda>_. Inr (Some [(''metadata'', JObj [(''managedFields'', JObj [])])])) p o' text = None"
    using assms by (simp add: ValidateMergePatch_def)
  ultimately show ?thesis by blast
qed

theorem empty_object_accepted_witness:
  "isBuiltinProjection ProjectionSpec \<and>
   ValidateMergePatch (\<lambda>_. Inr (Some [(''metadata'', JObj [(''managedFields'', JObj [])])])) ProjectionSpec sample_secret [] = None"
proof -
  have b: "isBuiltinProjection ProjectionSpec" by code_simp
  show ?thesis using b empty_object_accepted [OF b] by blast
qed

end
