(* ===== verification/Save.thy ===== *)
theory Save
  imports Patch Kube
begin

text \<open>
  The conditional save of an editor, \<open>gateway/kube/examples/conditionalsave/handler.go\<close>: a
  host endpoint that reads one ConfigMap and writes it back with a merge patch under the
  identity and version the editor captured, guarded by \<open>ValidateMergePatch\<close>.
\<close>

section \<open>Requests and answers\<close>

record saveRequest =
  sv_UID :: string
  sv_ResourceVersion :: string
  sv_Patch :: "KRMObject option"

text \<open>What the decoder makes of the body: an error, one request, or a request with more behind it.\<close>

datatype save_body = BadBody | OneRequest saveRequest | TrailingData saveRequest

text \<open>The object the API server holds: its UID, and its conversion to an unstructured object.\<close>

record save_object =
  so_UID :: string
  so_Unstructured :: "go_error + KRMObject"

text \<open>The caller's client: the first \<open>Get\<close>, the \<open>Patch\<close>, and the \<open>Get\<close> after a refused patch.\<close>

record save_client =
  cs_Get :: "go_error + save_object"
  cs_Patch :: "string \<Rightarrow> go_error option"
  cs_GetAgain :: "go_error + save_object"

datatype status_body = ServerStatus Status | RequestFailed | ObjectReplaced string string

datatype save_response =
    HTTPError int string
  | ShowObject KRMObject "string list"
  | StatusReply int status_body
  | NoContent

section \<open>Operations\<close>

definition writeStatus :: "int \<Rightarrow> status_body \<Rightarrow> save_response" where
  "writeStatus code body = StatusReply (if code < 400 \<or> code > 599 then 502 else code) body"

definition writeError :: "api \<Rightarrow> go_error \<Rightarrow> save_response" where
  "writeError ap err =
     (case ap_APIStatus ap err of
        Some status \<Rightarrow> writeStatus (st_Code status) (ServerStatus status)
      | None \<Rightarrow> writeStatus 502 RequestFailed)"

definition writeReplaced :: "string \<Rightarrow> string \<Rightarrow> save_response" where
  "writeReplaced name current = writeStatus 409 (ObjectReplaced name current)"

definition uidRejected :: "api \<Rightarrow> go_error \<Rightarrow> bool" where
  "uidRejected ap err =
     (if \<not> ap_IsInvalid ap err then False
      else case ap_APIStatus ap err of
        None \<Rightarrow> False
      | Some status \<Rightarrow>
          (case st_Causes status of
             None \<Rightarrow> False
           | Some causes \<Rightarrow> list_ex (\<lambda>(field, message). field = ''metadata.uid'') causes))"

text \<open>The application's edit policy over the top-level fields of the patch; the text of the refusal.\<close>

fun check_edits :: "KRMObject \<Rightarrow> string option" where
  "check_edits [] = None"
| "check_edits ((key, value) # rest) =
     (if key = ''data'' \<or> key = ''binaryData'' then check_edits rest
      else if key = ''metadata'' then
        (case as_object value of
           None \<Rightarrow> Some ''metadata must be an object''
         | Some metadata \<Rightarrow>
             (if list_ex (\<lambda>(field, v). field \<noteq> ''labels'' \<and> field \<noteq> ''annotations'') metadata
              then Some ''metadata field is not editable''
              else check_edits rest))
      else Some ''field is not editable'')"

text \<open>The patch that is sent: the user's, with the captured preconditions in its metadata.\<close>

definition conditional_patch :: "saveRequest \<Rightarrow> KRMObject \<Rightarrow> KRMObject" where
  "conditional_patch request patch =
     (let metadata = (case obj_field patch ''metadata'' of None \<Rightarrow> [] | Some m \<Rightarrow> m)
      in map_put ''metadata''
           (JObj (map_put ''resourceVersion'' (JStr (sv_ResourceVersion request))
              (map_put ''uid'' (JStr (sv_UID request)) metadata))) patch)"

text \<open>The part after the patch was sent.\<close>

definition after_patch ::
    "api \<Rightarrow> (go_error \<Rightarrow> bool) \<Rightarrow> save_client \<Rightarrow> string \<Rightarrow> saveRequest \<Rightarrow> go_error option \<Rightarrow> save_response" where
  "after_patch ap isConflict cs name request r =
     (case r of
        None \<Rightarrow> NoContent
      | Some err \<Rightarrow>
          (if isConflict err \<or> uidRejected ap err then
             (case cs_GetAgain cs of
                Inl getErr \<Rightarrow> writeError ap (if ap_IsNotFound ap getErr then getErr else err)
              | Inr latest \<Rightarrow>
                  (if so_UID latest \<noteq> sv_UID request then writeReplaced name (so_UID latest) else writeError ap err))
           else writeError ap err))"

text \<open>One request; beside the response, the patch that was sent to the API server, if any.\<close>

definition save_Handler ::
    "api \<Rightarrow> (go_error \<Rightarrow> bool) \<Rightarrow> unmarshal \<Rightarrow> string \<Rightarrow> string \<Rightarrow> go_error + save_client \<Rightarrow> save_body \<Rightarrow>
     save_response \<times> string option" where
  "save_Handler ap isConflict unmarshal name meth clientFor body =
     (if meth \<noteq> ''GET'' \<and> meth \<noteq> ''PATCH'' then (HTTPError 405 ''method not allowed'', None)
      else case clientFor of
        Inl _ \<Rightarrow> (HTTPError 401 ''not authenticated'', None)
      | Inr cs \<Rightarrow>
          (case cs_Get cs of
             Inl err \<Rightarrow> (writeError ap err, None)
           | Inr current \<Rightarrow>
               (case so_Unstructured current of
                  Inl _ \<Rightarrow> (HTTPError 500 ''conversion failed'', None)
                | Inr object \<Rightarrow>
                    (if meth = ''GET'' then (case Project ProjectionFull object of (out, paths) \<Rightarrow> (ShowObject out paths, None))
                     else case body of
                       BadBody \<Rightarrow> (HTTPError 400 ''invalid save request'', None)
                     | TrailingData _ \<Rightarrow> (HTTPError 400 ''expected one save request'', None)
                     | OneRequest request \<Rightarrow>
                         (case sv_Patch request of
                            None \<Rightarrow> (HTTPError 400 ''UID, resourceVersion and patch are required'', None)
                          | Some user_patch \<Rightarrow>
                              (if sv_UID request = [] \<or> sv_ResourceVersion request = []
                               then (HTTPError 400 ''UID, resourceVersion and patch are required'', None)
                               else if sv_UID request \<noteq> so_UID current then (writeReplaced name (so_UID current), None)
                               else case check_edits user_patch of
                                 Some msg \<Rightarrow> (HTTPError 400 msg, None)
                               | None \<Rightarrow>
                                   (let patch = json_Marshal (JObj (conditional_patch request user_patch)) in
                                    case ValidateMergePatch unmarshal ProjectionFull object patch of
                                      Some _ \<Rightarrow> (HTTPError 400 ''patch touches a protected field'', None)
                                    | None \<Rightarrow>
                                        (after_patch ap isConflict cs name request (cs_Patch cs patch), Some patch))))))))"

section \<open>Lemmas\<close>

lemma check_edits_None:
  "check_edits p = None \<Longrightarrow> (k, v) \<in> set p \<Longrightarrow>
     k = ''data'' \<or> k = ''binaryData'' \<or>
     (k = ''metadata'' \<and> (\<exists>m. v = JObj m \<and> fst ` set m \<subseteq> {''labels'', ''annotations''}))"
proof (induction p)
  case (Cons kv p)
  obtain k' v' where kv: "kv = (k', v')" by (cases kv)
  consider "k' = ''data'' \<or> k' = ''binaryData''" | "k' = ''metadata''" | "k' \<notin> {''data'', ''binaryData'', ''metadata''}" by blast
  then show ?case
  proof cases
    case 2
    show ?thesis
    proof (cases "as_object v'")
      case (Some m)
      have e: "\<not> list_ex (\<lambda>(field, v). field \<noteq> ''labels'' \<and> field \<noteq> ''annotations'') m" "check_edits p = None"
        using Cons.prems(1) Some 2 by (simp_all add: kv split: if_splits)
      have "fst ` set m \<subseteq> {''labels'', ''annotations''}" using e(1) unfolding list_ex_iff by force
      then show ?thesis using Cons.IH [OF e(2)] Cons.prems(2) Some 2 unfolding kv by fastforce
    qed (use Cons.prems(1) 2 kv in simp)
  next
    case 1
    then have "check_edits p = None" using Cons.prems(1) by (auto simp: kv)
    then show ?thesis using Cons.IH Cons.prems(2) 1 kv by auto
  next
    case 3
    then show ?thesis using Cons.prems(1) kv by simp
  qed
qed simp

lemma conditional_patch_metadata:
  "obj_field (conditional_patch request p) ''metadata'' =
     Some (map_put ''resourceVersion'' (JStr (sv_ResourceVersion request))
        (map_put ''uid'' (JStr (sv_UID request)) (case obj_field p ''metadata'' of None \<Rightarrow> [] | Some m \<Rightarrow> m)))"
  by (simp add: conditional_patch_def obj_field_def Let_def)

section \<open>Property\<close>

text \<open>C32. A save that reaches the API server is conditional and confined.  The patch it sends names
  the UID and the resource version the editor captured, both not empty, the UID being the one
  the server had a moment ago; beside them it writes only data, binary data, labels and
  annotations; and the merge-patch guard accepted it for the object as it stands.\<close>

theorem save_conditional:
  assumes "save_Handler ap isConflict unmarshal name meth clientFor body = (response, Some text)"
  shows "\<exists>cs current object request user_patch metadata. clientFor = Inr cs \<and> cs_Get cs = Inr current \<and>
    so_Unstructured current = Inr object \<and> body = OneRequest request \<and> sv_Patch request = Some user_patch \<and>
    text = json_Marshal (JObj (conditional_patch request user_patch)) \<and>
    sv_UID request = so_UID current \<and> sv_UID request \<noteq> [] \<and> sv_ResourceVersion request \<noteq> [] \<and>
    obj_field (conditional_patch request user_patch) ''metadata'' = Some metadata \<and>
    str_field metadata ''uid'' = sv_UID request \<and> str_field metadata ''resourceVersion'' = sv_ResourceVersion request \<and>
    fst ` set (conditional_patch request user_patch) \<subseteq> {''data'', ''binaryData'', ''metadata''} \<and>
    fst ` set metadata \<subseteq> {''labels'', ''annotations'', ''uid'', ''resourceVersion''} \<and>
    ValidateMergePatch unmarshal ProjectionFull object text = None"
proof -
  obtain cs current object request user_patch where h: "clientFor = Inr cs" "cs_Get cs = Inr current"
    "so_Unstructured current = Inr object" "body = OneRequest request" "sv_Patch request = Some user_patch"
    "text = json_Marshal (JObj (conditional_patch request user_patch))"
    "sv_UID request = so_UID current" "sv_UID request \<noteq> []" "sv_ResourceVersion request \<noteq> []"
    "check_edits user_patch = None" "ValidateMergePatch unmarshal ProjectionFull object text = None"
    using assms unfolding save_Handler_def Let_def
    by (auto split: if_splits sum.splits save_body.splits option.splits prod.splits)
  let ?m = "case obj_field user_patch ''metadata'' of None \<Rightarrow> [] | Some m \<Rightarrow> m"
  define md where "md = map_put ''resourceVersion'' (JStr (sv_ResourceVersion request)) (map_put ''uid'' (JStr (sv_UID request)) ?m)"
  have md: "obj_field (conditional_patch request user_patch) ''metadata'' = Some md"
    by (simp add: conditional_patch_metadata md_def)
  have m: "fst ` set ?m \<subseteq> {''labels'', ''annotations''}"
    using check_edits_None [OF h(10), of "''metadata''"] by (auto simp: obj_field_def dest: map_of_SomeD split: option.splits json.splits)
  have "fst ` set md \<subseteq> {''labels'', ''annotations'', ''uid'', ''resourceVersion''}"
    using m set_map_put_subset [of "''resourceVersion''" _ "map_put ''uid'' (JStr (sv_UID request)) ?m"]
      set_map_put_subset [of "''uid''" _ ?m] unfolding md_def by fastforce
  moreover have "fst ` set (conditional_patch request user_patch) \<subseteq> {''data'', ''binaryData'', ''metadata''}"
    using check_edits_None [OF h(10)] set_map_put_subset [of "''metadata''" _ user_patch]
    unfolding conditional_patch_def Let_def by fastforce
  moreover have "str_field md ''uid'' = sv_UID request" "str_field md ''resourceVersion'' = sv_ResourceVersion request"
    by (simp_all add: md_def str_field_def)
  ultimately show ?thesis using h md by blast
qed

definition sample_save :: saveRequest where
  "sample_save = \<lparr>sv_UID = ''u1'', sv_ResourceVersion = ''7'', sv_Patch = Some [(''data'', JObj [(''a'', JStr ''b'')])]\<rparr>"

definition sample_save_client :: save_client where
  "sample_save_client =
     \<lparr>cs_Get = Inr \<lparr>so_UID = ''u1'', so_Unstructured = Inr sample_item\<rparr>, cs_Patch = (\<lambda>text. None),
      cs_GetAgain = Inl (ErrText [])\<rparr>"

definition sample_unmarshal :: unmarshal where
  "sample_unmarshal text = Inr (Some (conditional_patch sample_save [(''data'', JObj [(''a'', JStr ''b'')])]))"

definition sample_saved :: "save_response \<times> string option" where
  "sample_saved =
     save_Handler sample_api (\<lambda>err. False) sample_unmarshal ''app'' ''PATCH'' (Inr sample_save_client) (OneRequest sample_save)"

theorem save_conditional_witness:
  "\<exists>text metadata. sample_saved = (NoContent, Some text) \<and>
     obj_field (conditional_patch sample_save [(''data'', JObj [(''a'', JStr ''b'')])]) ''metadata'' = Some metadata \<and>
     str_field metadata ''uid'' = ''u1'' \<and> str_field metadata ''resourceVersion'' = ''7''"
proof -
  have "case sample_saved of (r, t) \<Rightarrow> r = NoContent \<and> t \<noteq> None" by code_simp
  then obtain bytes where t: "sample_saved = (NoContent, Some bytes)" by (cases sample_saved) auto
  from save_conditional [OF t [unfolded sample_saved_def]] show ?thesis
    using t by (auto simp: sample_save_def)
qed

end
