(* ===== verification/Comparison.thy ===== *)
theory Comparison
  imports Save Transport
begin

text \<open>
  The comparison host, \<open>gateway/kube/examples/comparison\<close>: its counters (\<open>metrics.go\<close>),
  sessions and downstream connections (\<open>host.go\<close>), the proxy to the API server's own paths
  (\<open>native.go\<close>), the counted upstream watches of a stream route (\<open>gateway.go\<close>) and the save
  endpoint (\<open>save.go\<close>).  The host holds the only Kubernetes credential, so what matters is
  which requests leave it.
\<close>

section \<open>Metrics\<close>

text \<open>Counters and gauges are \<open>int64\<close> values in Go maps, zero when absent.\<close>

record Metrics =
  mt_since :: int
  mt_counters :: "64 word gmap"
  mt_gauges :: "64 word gmap"

definition NewMetrics :: "int \<Rightarrow> Metrics" where
  "NewMetrics now = \<lparr>mt_since = now, mt_counters = [], mt_gauges = []\<rparr>"

definition read_count :: "64 word gmap \<Rightarrow> string \<Rightarrow> 64 word" where
  "read_count m k = (case map_of m k of None \<Rightarrow> 0 | Some n \<Rightarrow> n)"

definition Metrics_Add :: "string \<Rightarrow> 64 word \<Rightarrow> Metrics \<Rightarrow> Metrics" where
  "Metrics_Add key n m = m\<lparr>mt_counters := map_put key (read_count (mt_counters m) key + n) (mt_counters m)\<rparr>"

definition Metrics_Gauge :: "string \<Rightarrow> 64 word \<Rightarrow> Metrics \<Rightarrow> Metrics" where
  "Metrics_Gauge key delta m = m\<lparr>mt_gauges := map_put key (read_count (mt_gauges m) key + delta) (mt_gauges m)\<rparr>"

definition Metrics_Reset :: "int \<Rightarrow> Metrics \<Rightarrow> Metrics" where
  "Metrics_Reset now m = m\<lparr>mt_counters := [], mt_since := now\<rparr>"

record Snapshot =
  sn_Since :: int
  sn_ElapsedMs :: int
  sn_Counters :: "64 word gmap"
  sn_Gauges :: "64 word gmap"

definition Metrics_Snapshot :: "int \<Rightarrow> Metrics \<Rightarrow> Snapshot" where
  "Metrics_Snapshot now m =
     \<lparr>sn_Since = mt_since m, sn_ElapsedMs = (now - mt_since m) div 1000000, sn_Counters = mt_counters m, sn_Gauges = mt_gauges m\<rparr>"

fun ObservationKind_name :: "ObservationKind \<Rightarrow> string" where
  "ObservationKind_name ObservationStreamOpened = ''stream_opened''"
| "ObservationKind_name ObservationStreamClosed = ''stream_closed''"
| "ObservationKind_name ObservationHTTPTransportRejected = ''http_transport_rejected''"
| "ObservationKind_name ObservationSharedSubscriptionOpened = ''shared_subscription_opened''"
| "ObservationKind_name ObservationSharedSubscriptionClosed = ''shared_subscription_closed''"
| "ObservationKind_name ObservationCycleStarted = ''cycle_started''"
| "ObservationKind_name ObservationEventEmitted = ''event_emitted''"
| "ObservationKind_name ObservationEventSuppressed = ''event_suppressed''"
| "ObservationKind_name ObservationConsumerResync = ''consumer_resync''"
| "ObservationKind_name ObservationSharedOverflow = ''shared_overflow''"
| "ObservationKind_name ObservationRetryableError = ''retryable_error''"
| "ObservationKind_name ObservationTerminalError = ''terminal_error''"

text \<open>The observer of one route.\<close>

definition observer :: "string \<Rightarrow> Observation \<Rightarrow> Metrics \<Rightarrow> Metrics" where
  "observer route o' m =
     (let prefix = ''gateway.'' @ route @ ''.obs.'';
          kind = prefix @ ObservationKind_name (ob_Kind o');
          typed = kind @ ''.'' @ (case ob_EventType o' of None \<Rightarrow> [] | Some t \<Rightarrow> EventType_name t);
          coded = kind @ ''.'' @ (case ob_Code o' of None \<Rightarrow> [] | Some c \<Rightarrow> ErrorCode_name c);
          streams = ''gateway.'' @ route @ ''.streams_active'';
          subscriptions = ''gateway.'' @ route @ ''.shared_subscriptions_active''
      in case ob_Kind o' of
           ObservationEventEmitted \<Rightarrow> Metrics_Add typed 1 m
         | ObservationEventSuppressed \<Rightarrow> Metrics_Add typed 1 m
         | ObservationStreamOpened \<Rightarrow> Metrics_Gauge streams 1 (Metrics_Add kind 1 m)
         | ObservationStreamClosed \<Rightarrow> Metrics_Gauge streams (- 1) (Metrics_Add kind 1 m)
         | ObservationSharedSubscriptionOpened \<Rightarrow> Metrics_Gauge subscriptions 1 (Metrics_Add kind 1 m)
         | ObservationSharedSubscriptionClosed \<Rightarrow> Metrics_Gauge subscriptions (- 1) (Metrics_Add kind 1 m)
         | ObservationRetryableError \<Rightarrow> Metrics_Add coded 1 m
         | ObservationTerminalError \<Rightarrow> Metrics_Add coded 1 m
         | _ \<Rightarrow> Metrics_Add kind 1 m)"

definition statusClass :: "int \<Rightarrow> string" where
  "statusClass code =
     (if code \<in> set [200, 201, 204, 400, 401, 403, 404, 409, 410, 415, 422, 502] then show_int code
      else if code \<ge> 500 then ''5xx''
      else if code \<ge> 400 then ''4xx''
      else ''other'')"

text \<open>\<open>bytes.Count\<close> for a separator that is not empty: occurrences that do not overlap.\<close>

function bytes_Count :: "string \<Rightarrow> string \<Rightarrow> nat" where
  "bytes_Count sep s =
     (if s = [] \<or> sep = [] then 0
      else if take (length sep) s = sep then Suc (bytes_Count sep (drop (length sep) s))
      else bytes_Count sep (tl s))"
  by pat_completeness auto

termination bytes_Count
  by (relation "measure (\<lambda>(sep, s). length s)") auto

declare bytes_Count.simps [simp del]

definition watchFrameTypes :: "string list" where
  "watchFrameTypes = [''ADDED'', ''MODIFIED'', ''DELETED'', ''BOOKMARK'', ''ERROR'']"

definition countFrames :: "string \<Rightarrow> Metrics \<Rightarrow> Metrics" where
  "countFrames chunk m =
     fold (\<lambda>kind m.
       let n = bytes_Count ([CHR ''{'', dquote] @ ''type'' @ [dquote, CHR '':'', dquote] @ kind @ [dquote]) chunk in
       if n > 0 then Metrics_Add (''native.watch_frames.'' @ kind) (word_of_nat n) m else m) watchFrameTypes m"

text \<open>A counting writer: the status it recorded, and the counter its bytes go to.\<close>

record countingWriter =
  cw_add :: "string option"
  cw_status :: int
  cw_frames :: bool

definition cw_WriteHeader :: "int \<Rightarrow> countingWriter \<Rightarrow> countingWriter" where
  "cw_WriteHeader code w = (if cw_status w = 0 then w\<lparr>cw_status := code\<rparr> else w)"

text \<open>\<open>n\<close> is how many bytes the wrapped writer took.\<close>

definition cw_Write :: "string \<Rightarrow> nat \<Rightarrow> countingWriter \<Rightarrow> Metrics \<Rightarrow> countingWriter \<times> Metrics" where
  "cw_Write p n w m =
     (let w = (if cw_status w = 0 then w\<lparr>cw_status := 200\<rparr> else w);
          m = (case cw_add w of None \<Rightarrow> m | Some key \<Rightarrow> Metrics_Add key (word_of_nat n) m)
      in (w, if cw_frames w \<and> n > 0 then countFrames (take n p) m else m))"

section \<open>Connections\<close>

text \<open>The open connections by number, and for the theorems the contexts that were cancelled.\<close>

record connections =
  cn_next :: nat
  cn_conns :: "(nat \<times> string) list"
  cn_cancelled :: "nat list"

definition newConnections :: connections where
  "newConnections = \<lparr>cn_next = 0, cn_conns = [], cn_cancelled = []\<rparr>"

definition conn_open :: "string \<Rightarrow> connections \<Rightarrow> nat \<times> connections" where
  "conn_open kind c =
     (cn_next c, c\<lparr>cn_next := Suc (cn_next c), cn_conns := (cn_next c, kind) # AList.delete (cn_next c) (cn_conns c)\<rparr>)"

definition conn_release :: "nat \<Rightarrow> connections \<Rightarrow> connections" where
  "conn_release i c = c\<lparr>cn_conns := AList.delete i (cn_conns c), cn_cancelled := i # cn_cancelled c\<rparr>"

definition conn_cancel :: "string \<Rightarrow> connections \<Rightarrow> nat \<times> connections" where
  "conn_cancel kind c =
     (let hit = (\<lambda>(i, k). kind = ''all'' \<or> k = kind);
          closed = filter hit (cn_conns c)
      in (length closed,
          c\<lparr>cn_conns := filter (\<lambda>e. \<not> hit e) (cn_conns c), cn_cancelled := map fst closed @ cn_cancelled c\<rparr>))"

section \<open>Sessions\<close>

record host_config =
  hg_namespace :: string
  hg_ViewerToken :: string
  hg_RefusedToken :: string

text \<open>The checks of \<open>New\<close> on the session tokens.\<close>

definition tokens_error :: "host_config \<Rightarrow> go_error option" where
  "tokens_error cf =
     (if hg_ViewerToken cf = [] \<or> hg_RefusedToken cf = [] \<or> hg_ViewerToken cf = hg_RefusedToken cf
      then Some (ErrText ''comparison: two distinct session tokens are required'') else None)"

record host_session =
  hs_name :: string
  hs_refused :: bool

text \<open>A request's session header and, when it has one, its session cookie.\<close>

record credentials =
  cr_Header :: string
  cr_Cookie :: "string option"

definition sessionOf :: "host_config \<Rightarrow> string \<Rightarrow> credentials \<Rightarrow> Metrics \<Rightarrow> host_session option \<times> Metrics" where
  "sessionOf cf path cr m =
     (let token = (if cr_Header cr = [] then (case cr_Cookie cr of None \<Rightarrow> [] | Some v \<Rightarrow> v) else cr_Header cr)
      in if token = hg_ViewerToken cf then
           (Some \<lparr>hs_name = ''viewer'', hs_refused = False\<rparr>, Metrics_Add (''sessions.'' @ path @ ''.viewer'') 1 m)
         else if token = hg_RefusedToken cf then
           (Some \<lparr>hs_name = ''refused'', hs_refused = True\<rparr>, Metrics_Add (''sessions.'' @ path @ ''.refused'') 1 m)
         else (None, Metrics_Add (''sessions.'' @ path @ ''.missing'') 1 m))"

text \<open>The guard of the metrics and admin routes: the status of its refusal, if it refuses.\<close>

definition admin :: "host_config \<Rightarrow> credentials \<Rightarrow> Metrics \<Rightarrow> (int \<times> string) option \<times> Metrics" where
  "admin cf cr m =
     (case sessionOf cf ''admin'' cr m of
        (None, m) \<Rightarrow> (Some (401, ''sign in first''), m)
      | (Some s, m) \<Rightarrow> (if hs_refused s then Some (403, ''not an administrator'') else None, m))"

definition disconnect :: "string \<Rightarrow> Metrics \<Rightarrow> connections \<Rightarrow> nat \<times> Metrics \<times> connections" where
  "disconnect target m c =
     (case conn_cancel target c of
        (n, c) \<Rightarrow>
          (n, Metrics_Add ''admin.connections_closed'' (word_of_nat n) (Metrics_Add (''admin.disconnects.'' @ target) 1 m), c))"

section \<open>The native proxy\<close>

definition WidgetGroup :: string where
  "WidgetGroup = ''e2e.krm-stream.configbutler.io''"

record nativeTarget =
  nt_resource :: string
  nt_name :: string

definition strings_CutPrefix :: "string \<Rightarrow> string \<Rightarrow> string option" where
  "strings_CutPrefix s p = (if take (length p) s = p then Some (drop (length p) s) else None)"

definition native_prefixes :: "string \<Rightarrow> (string \<times> string) list" where
  "native_prefixes ns =
     [(''/k8s/apis/'' @ WidgetGroup @ ''/v1/namespaces/'' @ ns @ ''/widgets'', ''widgets''),
      (''/k8s/api/v1/namespaces/'' @ ns @ ''/secrets'', ''secrets'')]"

fun classify_path :: "(string \<times> string) list \<Rightarrow> string \<Rightarrow> nativeTarget option" where
  "classify_path [] path = None"
| "classify_path ((p, resource) # cs) path =
     (if path = p then Some \<lparr>nt_resource = resource, nt_name = []\<rparr>
      else case strings_CutPrefix path (p @ ''/'') of
        Some name \<Rightarrow>
          (if name \<noteq> [] \<and> CHR ''/'' \<notin> set name then Some \<lparr>nt_resource = resource, nt_name = name\<rparr>
           else classify_path cs path)
      | None \<Rightarrow> classify_path cs path)"

definition native_classify :: "string \<Rightarrow> string \<Rightarrow> nativeTarget option" where
  "native_classify ns path = classify_path (native_prefixes ns) path"

definition isWatch :: "Values \<Rightarrow> bool" where
  "isWatch q = (let v = Values_Get q ''watch'' in v = ''1'' \<or> v = ''true'')"

text \<open>\<open>url.QueryEscape\<close>, and \<open>Encode\<close> of the two selectors in the order of their names.\<close>

definition escape_byte :: "char \<Rightarrow> string" where
  "escape_byte c =
     (if in_range CHR ''a'' CHR ''z'' c \<or> in_range CHR ''A'' CHR ''Z'' c \<or> in_range CHR ''0'' CHR ''9'' c \<or>
         c \<in> set ''-_.~'' then [c]
      else if c = CHR '' '' then ''+''
      else [CHR ''%'', upper_hex (of_char c div 16), upper_hex (of_char c mod 16)])"

definition selectorsOf :: "Values \<Rightarrow> string" where
  "selectorsOf q =
     join_with CHR ''&'' (concat (map (\<lambda>k. map (\<lambda>v. k @ ''='' @ concat (map escape_byte v))
       (case map_of q k of None \<Rightarrow> [] | Some vs \<Rightarrow> vs)) [''fieldSelector'', ''labelSelector'']))"

record host_state =
  ho_metrics :: Metrics
  ho_pending :: "int gmap"
  ho_conns :: connections

definition pending_count :: "int gmap \<Rightarrow> string \<Rightarrow> int" where
  "pending_count p key = (case map_of p key of None \<Rightarrow> 0 | Some n \<Rightarrow> n)"

definition pending_listed :: "string \<Rightarrow> int gmap \<Rightarrow> int gmap" where
  "pending_listed key p = map_put key (pending_count p key + 1) p"

definition pending_take :: "string \<Rightarrow> int gmap \<Rightarrow> bool \<times> int gmap" where
  "pending_take key p =
     (if pending_count p key = 0 then (False, p) else (True, map_put key (pending_count p key - 1) p))"

record native_request =
  nr_Method :: string
  nr_Path :: string
  nr_Query :: Values
  nr_ContentType :: string
  nr_Body :: "go_error + string"
  nr_Credentials :: credentials

text \<open>
  What the proxy does with a request: it answers itself, or it forwards to the API server, with
  the class of the request, the path it rewrites to, the body of a patch as the host read it
  (\<open>None\<close> when the host reads none: the proxy then passes the request's own body on as it is),
  and the connection a watch opened.
\<close>

datatype native_outcome =
    NativeRefuse int string
  | NativeForward string string "string option" "nat option"

definition upstream_path :: "string \<Rightarrow> string" where
  "upstream_path path = (case strings_CutPrefix path ''/k8s'' of Some p \<Rightarrow> p | None \<Rightarrow> path)"

definition add_metric :: "string \<Rightarrow> host_state \<Rightarrow> host_state" where
  "add_metric key st = st\<lparr>ho_metrics := Metrics_Add key 1 (ho_metrics st)\<rparr>"

definition native_watch :: "host_session \<Rightarrow> native_request \<Rightarrow> host_state \<Rightarrow> native_outcome \<times> host_state" where
  "native_watch session r st =
     (let q = nr_Query r;
          key = hs_name session @ '' '' @ nr_Path r @ ''?'' @ selectorsOf q;
          st = add_metric ''native.watch_requests'' st;
          st = (if Values_Get q ''sendInitialEvents'' = ''true'' then add_metric ''native.watch_streaming_list'' st
                else case pending_take key (ho_pending st) of
                  (True, p) \<Rightarrow> add_metric ''native.watch_after_list'' (st\<lparr>ho_pending := p\<rparr>)
                | (False, _) \<Rightarrow> add_metric ''native.watch_resumed'' st);
          st = (if Values_Get q ''resourceVersion'' = [] then add_metric ''native.watch_without_resource_version'' st else st);
          st = (if Values_Get q ''allowWatchBookmarks'' = ''true'' then add_metric ''native.watch_bookmarks_requested'' st else st);
          st = st\<lparr>ho_metrics := Metrics_Gauge ''native.watches_active'' 1 (ho_metrics st)\<rparr>
      in case conn_open ''native'' (ho_conns st) of
           (i, conns) \<Rightarrow> (NativeForward ''watch'' (upstream_path (nr_Path r)) None (Some i), st\<lparr>ho_conns := conns\<rparr>))"

definition native_patch ::
    "(patch_error \<Rightarrow> string) \<Rightarrow> unmarshal \<Rightarrow> native_request \<Rightarrow> host_state \<Rightarrow> native_outcome \<times> host_state" where
  "native_patch patch_text unmarshal r st =
     (let st = add_metric ''native.patch_requests'' st in
      if nr_ContentType r \<noteq> ''application/merge-patch+json'' then
        (NativeRefuse 415 ''only application/merge-patch+json is forwarded'', add_metric (''native.patch_status.'' @ statusClass 415) st)
      else case nr_Body r of
        Inl _ \<Rightarrow> (NativeRefuse 413 ''patch too large'', st)
      | Inr patch \<Rightarrow>
          (case ValidateNativeMergePatch unmarshal patch of
             Some err \<Rightarrow> (NativeRefuse 400 (patch_text err), add_metric (''native.patch_status.'' @ statusClass 400) st)
           | None \<Rightarrow> (NativeForward ''patch'' (upstream_path (nr_Path r)) (Some patch) None, st)))"

definition native_ServeHTTP ::
    "(patch_error \<Rightarrow> string) \<Rightarrow> unmarshal \<Rightarrow> host_config \<Rightarrow> native_request \<Rightarrow> host_state \<Rightarrow> native_outcome \<times> host_state" where
  "native_ServeHTTP patch_text unmarshal cf r st =
     (let st = add_metric ''native.session_checks'' st in
      case sessionOf cf ''native'' (nr_Credentials r) (ho_metrics st) of
        (None, m) \<Rightarrow> (NativeRefuse 401 ''sign in first'', st\<lparr>ho_metrics := m\<rparr>)
      | (Some session, m) \<Rightarrow>
          (let st = st\<lparr>ho_metrics := m\<rparr> in
           if hs_refused session then
             (NativeRefuse 403 ''this session may not read these objects'', add_metric ''native.refused_session_requests'' st)
           else case native_classify (hg_namespace cf) (nr_Path r) of
             None \<Rightarrow> (NativeRefuse 403 ''not proxied by this host'', add_metric ''native.refused_path'' st)
           | Some target \<Rightarrow>
               (if nr_Method r = ''GET'' \<and> nt_name target = [] \<and> isWatch (nr_Query r) then native_watch session r st
                else if nr_Method r = ''GET'' \<and> nt_name target = [] then
                  (NativeForward ''list'' (upstream_path (nr_Path r)) None None,
                   (add_metric ''native.list_requests'' st)\<lparr>ho_pending :=
                      pending_listed (hs_name session @ '' '' @ nr_Path r @ ''?'' @ selectorsOf (nr_Query r)) (ho_pending st)\<rparr>)
                else if nr_Method r = ''GET'' then
                  (NativeForward ''get'' (upstream_path (nr_Path r)) None None, add_metric ''native.get_requests'' st)
                else if nr_Method r = ''PATCH'' \<and> nt_resource target = ''widgets'' \<and> nt_name target \<noteq> [] then
                  native_patch patch_text unmarshal r st
                else (NativeRefuse 405 ''not proxied'', add_metric ''native.refused_method'' st))))"

text \<open>
  The deferred calls after the proxy wrote the status and the chunks of the API server's
  answer, each with the number of bytes the connection took.
\<close>

definition native_done :: "string \<Rightarrow> nat option \<Rightarrow> int \<Rightarrow> (string \<times> nat) list \<Rightarrow> host_state \<Rightarrow> host_state" where
  "native_done class conn code chunks st =
     (let w = cw_WriteHeader code \<lparr>cw_add = Some (''native.bytes.'' @ class), cw_status = 0, cw_frames = (class = ''watch'')\<rparr>;
          (w, m) = fold (\<lambda>(p, n) (w, m). cw_Write p n w m) chunks (w, ho_metrics st);
          m = Metrics_Add (''native.'' @ class @ ''_status.'' @ statusClass (cw_status w)) 1 m
      in case conn of
           None \<Rightarrow> st\<lparr>ho_metrics := m\<rparr>
         | Some i \<Rightarrow> st\<lparr>ho_metrics := Metrics_Gauge ''native.watches_active'' (- 1) m, ho_conns := conn_release i (ho_conns st)\<rparr>)"

section \<open>Counted upstream watches\<close>

text \<open>The watchers a route's backend handed out, each with whether its \<open>once\<close> has run.\<close>

record countingBackend =
  cb_metrics :: Metrics
  cb_watchers :: "bool list"

definition watches_active :: "string \<Rightarrow> string" where
  "watches_active route = ''gateway.'' @ route @ ''.upstream_watches_active''"

text \<open>\<open>Watch\<close>, given the error of the wrapped backend's.\<close>

definition counting_Watch :: "string \<Rightarrow> go_error option \<Rightarrow> countingBackend \<Rightarrow> (go_error + nat) \<times> countingBackend" where
  "counting_Watch route inner b =
     (let m = Metrics_Add (''gateway.'' @ route @ ''.upstream_watch_calls'') 1 (cb_metrics b) in
      case inner of
        Some err \<Rightarrow> (Inl err, b\<lparr>cb_metrics := Metrics_Add (''gateway.'' @ route @ ''.upstream_watch_errors'') 1 m\<rparr>)
      | None \<Rightarrow>
          (Inr (length (cb_watchers b)),
           b\<lparr>cb_metrics := Metrics_Gauge (watches_active route) 1 m, cb_watchers := cb_watchers b @ [False]\<rparr>))"

definition counting_Stop :: "string \<Rightarrow> nat \<Rightarrow> countingBackend \<Rightarrow> countingBackend" where
  "counting_Stop route i b =
     (if cb_watchers b ! i then b
      else b\<lparr>cb_metrics := Metrics_Gauge (watches_active route) (- 1) (cb_metrics b), cb_watchers := (cb_watchers b)[i := True]\<rparr>)"

section \<open>Stream routes\<close>

record Route =
  ro_Name :: string
  ro_Path :: string
  ro_Projection :: Projection
  ro_Shared :: bool

definition Routes :: "Route list" where
  "Routes =
     [\<lparr>ro_Name = ''full'', ro_Path = ''/stream/full'', ro_Projection = ProjectionFull, ro_Shared = False\<rparr>,
      \<lparr>ro_Name = ''spec'', ro_Path = ''/stream/spec'', ro_Projection = ProjectionSpec, ro_Shared = False\<rparr>,
      \<lparr>ro_Name = ''full-shared'', ro_Path = ''/stream/full-shared'', ro_Projection = ProjectionFull, ro_Shared = True\<rparr>,
      \<lparr>ro_Name = ''spec-shared'', ro_Path = ''/stream/spec-shared'', ro_Projection = ProjectionSpec, ro_Shared = True\<rparr>]"

text \<open>The callbacks of a route.  A principal is the name of its session.\<close>

definition route_principal :: "host_config \<Rightarrow> Route \<Rightarrow> credentials \<Rightarrow> Metrics \<Rightarrow> (go_error + string) \<times> Metrics" where
  "route_principal cf route cr m =
     (case sessionOf cf ''gateway'' cr (Metrics_Add (''gateway.'' @ ro_Name route @ ''.session_checks'') 1 m) of
        (None, m) \<Rightarrow> (Inl (ErrStream (Unauthenticated ''sign in to watch these objects'')), m)
      | (Some s, m) \<Rightarrow> (Inr (hs_name s), m))"

definition route_authorize :: "host_config \<Rightarrow> Route \<Rightarrow> bool \<Rightarrow> string \<Rightarrow> Scope \<Rightarrow> Metrics \<Rightarrow> go_error option \<times> Metrics" where
  "route_authorize cf route hasDeadline caller s m =
     (let prefix = ''gateway.'' @ ro_Name route;
          m = Metrics_Add (prefix @ ''.authorizer_calls.'' @ (if hasDeadline then ''timed'' else ''cycle'')) 1 m
      in if caller \<noteq> ''viewer'' then
           (Some (ErrStream (Forbidden ''this session may not watch these objects'')), Metrics_Add (prefix @ ''.authorizer_refusals'') 1 m)
         else if sc_Namespace s \<noteq> hg_namespace cf then
           (Some (ErrStream (Forbidden ''outside this host's namespace'')), Metrics_Add (prefix @ ''.authorizer_refusals'') 1 m)
         else (None, m))"

definition route_options :: "(string \<Rightarrow> string) \<Rightarrow> int \<Rightarrow> options" where
  "route_options sha reauthorizeEvery =
     \<lparr>op_Config =
        \<lparr>ht_Stream = \<lparr>cf_Ordering = OrderingStrict, cf_DefaultProjections = False,
                      cf_ReauthorizationInterval = reauthorizeEvery, cf_sha = sha\<rparr>,
         ht_WriteTimeout = 5000000000, ht_HeartbeatInterval = 0\<rparr>,
      op_hasPrincipal = True, op_hasAuthorizer = True, op_hasClients = True,
      op_Scopes = \<lparr>sp_Targets = [[]],
        sp_Resources = [\<lparr>gr_Group = WidgetGroup, gr_Resource = ''widgets'', gr_Scope = ResourceScopeNamespaced,
                         gr_AllowAllNamespaces = False\<rparr>,
                        \<lparr>gr_Group = [], gr_Resource = ''secrets'', gr_Scope = ResourceScopeNamespaced,
                         gr_AllowAllNamespaces = False\<rparr>],
        sp_AnyResource = False, sp_AllowLabelSelector = False\<rparr>\<rparr>"

section \<open>The save endpoint\<close>

text \<open>The host's client for Widgets: a \<open>Get\<close>, the \<open>Patch\<close>, and the \<open>Get\<close> after a refused patch.\<close>

record widget_client =
  wc_Get :: "go_error + KRMObject"
  wc_Patch :: "string \<Rightarrow> go_error option"
  wc_GetAgain :: "go_error + KRMObject"

datatype widget_response =
    NotFoundPage
  | MethodNotAllowed
  | Refusal int string
  | ShowWidget KRMObject "string list"
  | WidgetStatus int status_body
  | Saved

definition save_projection :: "string list \<Rightarrow> (Projection \<times> string) option" where
  "save_projection parts =
     (case parts of
        [kind, resource, name] \<Rightarrow>
          (if resource \<noteq> ''widgets'' \<or> name = [] then None
           else if kind = ''full'' then Some (ProjectionFull, name)
           else if kind = ''spec'' then Some (ProjectionSpec, name)
           else None)
      | _ \<Rightarrow> None)"

fun host_status :: "save_response \<Rightarrow> widget_response" where
  "host_status (StatusReply code body) = WidgetStatus code body"
| "host_status _ = Saved"

definition widget_patch :: "saveRequest \<Rightarrow> KRMObject \<Rightarrow> KRMObject" where
  "widget_patch request patch =
     map_put ''metadata'' (JObj [(''uid'', JStr (sv_UID request)), (''resourceVersion'', JStr (sv_ResourceVersion request))]) patch"

definition after_widget_patch ::
    "api \<Rightarrow> (go_error \<Rightarrow> bool) \<Rightarrow> widget_client \<Rightarrow> string \<Rightarrow> KRMObject \<Rightarrow> go_error option \<Rightarrow> widget_response" where
  "after_widget_patch ap isConflict client name current r =
     (case r of
        None \<Rightarrow> Saved
      | Some err \<Rightarrow>
          (if isConflict err \<or> uidRejected ap err then
             (case wc_GetAgain client of
                Inl getErr \<Rightarrow> host_status (writeError ap (if ap_IsNotFound ap getErr then getErr else err))
              | Inr latest \<Rightarrow>
                  (if UID latest \<noteq> UID current then host_status (writeReplaced name (UID latest))
                   else host_status (writeError ap err)))
           else host_status (writeError ap err)))"

text \<open>One request, without its counters; beside the response, the patch that was sent, if any.\<close>

definition saveHandler ::
    "api \<Rightarrow> (go_error \<Rightarrow> bool) \<Rightarrow> unmarshal \<Rightarrow> string \<Rightarrow> string \<Rightarrow> host_session option \<Rightarrow> widget_client \<Rightarrow> save_body \<Rightarrow>
     widget_response \<times> string option" where
  "saveHandler ap isConflict unmarshal path meth session client body =
     (case save_projection (pieces CHR ''/'' (case strings_CutPrefix path ''/save/'' of None \<Rightarrow> path | Some rest \<Rightarrow> rest)) of
        None \<Rightarrow> (NotFoundPage, None)
      | Some (projection, name) \<Rightarrow>
          (case session of
             None \<Rightarrow> (Refusal 401 ''sign in first'', None)
           | Some session \<Rightarrow>
               (if hs_refused session then (Refusal 403 ''this session may not edit these objects'', None)
                else if meth \<noteq> ''GET'' \<and> meth \<noteq> ''PATCH'' then (MethodNotAllowed, None)
                else case wc_Get client of
                  Inl err \<Rightarrow> (host_status (writeError ap err), None)
                | Inr current \<Rightarrow>
                    (if meth = ''GET'' then (case Project projection current of (out, paths) \<Rightarrow> (ShowWidget out paths, None))
                     else case body of
                       BadBody \<Rightarrow> (Refusal 400 ''invalid save request'', None)
                     | TrailingData _ \<Rightarrow> (Refusal 400 ''expected one save request'', None)
                     | OneRequest request \<Rightarrow>
                         (case sv_Patch request of
                            None \<Rightarrow> (Refusal 400 ''UID, resourceVersion and patch are required'', None)
                          | Some user_patch \<Rightarrow>
                              (if sv_UID request = [] \<or> sv_ResourceVersion request = []
                               then (Refusal 400 ''UID, resourceVersion and patch are required'', None)
                               else if sv_UID request \<noteq> UID current then (host_status (writeReplaced name (UID current)), None)
                               else if list_ex (\<lambda>(key, v). key \<noteq> ''spec'') user_patch
                               then (Refusal 400 ''only spec is editable here'', None)
                               else
                                 (let patch = json_Marshal (JObj (widget_patch request user_patch)) in
                                  case ValidateMergePatch unmarshal projection current patch of
                                    Some _ \<Rightarrow> (Refusal 400 ''patch touches a protected field'', None)
                                  | None \<Rightarrow>
                                      (after_widget_patch ap isConflict client name current (wc_Patch client patch), Some patch))))))))"

section \<open>Lemmas\<close>

subsection \<open>Gauges\<close>

lemma gauge_simps [simp]:
  "mt_gauges (Metrics_Add k n m) = mt_gauges m"
  "mt_gauges (Metrics_Reset now m) = mt_gauges m"
  "read_count (mt_gauges (Metrics_Gauge k n m)) j = read_count (mt_gauges m) j + (if j = k then n else 0)"
  by (simp_all add: Metrics_Add_def Metrics_Reset_def Metrics_Gauge_def read_count_def)

datatype counted_op = WatchUpstream "go_error option" | StopWatcher nat | ResetCounters int

inductive counted_step :: "string \<Rightarrow> countingBackend \<Rightarrow> counted_op \<Rightarrow> countingBackend \<Rightarrow> bool" for route where
  watched: "counting_Watch route inner b = (r, b') \<Longrightarrow> counted_step route b (WatchUpstream inner) b'"
| stopped: "i < length (cb_watchers b) \<Longrightarrow> counted_step route b (StopWatcher i) (counting_Stop route i b)"
| reset: "counted_step route b (ResetCounters now) (b\<lparr>cb_metrics := Metrics_Reset now (cb_metrics b)\<rparr>)"

definition open_watchers :: "countingBackend \<Rightarrow> nat" where
  "open_watchers b = length (filter Not (cb_watchers b))"

lemma open_watchers_stop:
  "i < length ws \<Longrightarrow> \<not> ws ! i \<Longrightarrow> length (filter Not ws) = Suc (length (filter Not (ws[i := True])))"
proof (induction ws arbitrary: i)
  case (Cons w ws)
  then show ?case by (cases i) auto
qed simp

lemma gauge_step:
  assumes "read_count (mt_gauges (cb_metrics b)) (watches_active route) = word_of_nat (open_watchers b)"
    and "counted_step route b l b'"
  shows "read_count (mt_gauges (cb_metrics b')) (watches_active route) = word_of_nat (open_watchers b')"
  using assms(2)
proof (cases rule: counted_step.cases)
  case (watched inner r)
  then show ?thesis using assms(1) by (auto simp: counting_Watch_def Let_def open_watchers_def split: option.splits)
next
  case (stopped i)
  then show ?thesis
    using assms(1) open_watchers_stop [of i "cb_watchers b"]
    by (cases "cb_watchers b ! i") (simp_all add: counting_Stop_def open_watchers_def)
next
  case (reset now)
  then show ?thesis using assms(1) by (simp add: open_watchers_def)
qed

text \<open>
  A route's gauge is the number of its open upstream watches, however often a watcher is
  stopped and whenever the counters are reset.
\<close>

interpretation counted: invariant_system "\<lambda>b. cb_metrics b = NewMetrics t \<and> cb_watchers b = []" "counted_step route"
  "\<lambda>b. read_count (mt_gauges (cb_metrics b)) (watches_active route) = word_of_nat (open_watchers b)" for route t
proof
  fix b :: countingBackend
  assume "cb_metrics b = NewMetrics t \<and> cb_watchers b = []"
  then show "read_count (mt_gauges (cb_metrics b)) (watches_active route) = word_of_nat (open_watchers b)"
    by (simp add: NewMetrics_def read_count_def open_watchers_def)
qed (rule gauge_step)

lemmas upstream_gauge_exact = counted.inv_reachable

subsection \<open>Connections\<close>

text \<open>Numbers are fresh, and a connection that is no longer registered was cancelled.\<close>

definition conns_ok :: "connections \<Rightarrow> bool" where
  "conns_ok c \<longleftrightarrow> distinct (map fst (cn_conns c)) \<and> fst ` set (cn_conns c) \<subseteq> {..<cn_next c} \<and>
     (\<forall>i < cn_next c. i \<in> fst ` set (cn_conns c) \<or> i \<in> set (cn_cancelled c))"

lemma set_delete_fst: "fst ` set (AList.delete k xs) = fst ` set xs - {k}"
  by (force simp: AList.delete_eq)

lemma conn_open_ok: "conns_ok c \<Longrightarrow> conns_ok (snd (conn_open kind c)) \<and> fst (conn_open kind c) \<notin> fst ` set (cn_conns c)"
  by (auto simp: conns_ok_def conn_open_def set_delete_fst distinct_delete less_Suc_eq)

lemma conn_release_ok: "conns_ok c \<Longrightarrow> conns_ok (conn_release i c)"
  by (auto simp: conns_ok_def conn_release_def set_delete_fst distinct_delete)

lemma conn_cancel_ok:
  assumes "conns_ok c"
  shows "conns_ok (snd (conn_cancel kind c))"
    and "fst (conn_cancel kind c) = length (filter (\<lambda>(i, k). kind = ''all'' \<or> k = kind) (cn_conns c))"
    and "kind = ''all'' \<Longrightarrow> cn_conns (snd (conn_cancel kind c)) = []"
  using assms by (force simp: conns_ok_def conn_cancel_def Let_def distinct_map_filter)+

subsection \<open>Saving a Widget\<close>

text \<open>
  As in the editor's handler: a patch that is sent names the captured UID and version, writes
  nothing else beside the spec, and was accepted by the guard under the route's projection.
\<close>

lemma save_projection_Some: "save_projection parts = Some (projection, name) \<Longrightarrow> projection \<in> {ProjectionFull, ProjectionSpec}"
  unfolding save_projection_def by (auto split: list.splits if_splits)

lemma spec_keys: "\<not> list_ex (\<lambda>(key, v). key \<noteq> k) xs \<Longrightarrow> fst ` set xs \<subseteq> {k}"
  unfolding list_ex_iff by force

lemma saveHandler_conditional:
  assumes "saveHandler ap isConflict unmarshal path meth session client body = (response, Some text)"
  shows "\<exists>projection current request user_patch.
    projection \<in> {ProjectionFull, ProjectionSpec} \<and> wc_Get client = Inr current \<and> body = OneRequest request \<and>
    sv_Patch request = Some user_patch \<and> text = json_Marshal (JObj (widget_patch request user_patch)) \<and>
    sv_UID request = UID current \<and> sv_UID request \<noteq> [] \<and> sv_ResourceVersion request \<noteq> [] \<and>
    fst ` set (widget_patch request user_patch) \<subseteq> {''spec'', ''metadata''} \<and>
    ValidateMergePatch unmarshal projection current text = None"
proof -
  obtain projection name current request user_patch where h: "wc_Get client = Inr current" "body = OneRequest request"
    "save_projection (pieces CHR ''/'' (case strings_CutPrefix path ''/save/'' of None \<Rightarrow> path | Some rest \<Rightarrow> rest)) = Some (projection, name)"
    "sv_Patch request = Some user_patch" "text = json_Marshal (JObj (widget_patch request user_patch))"
    "sv_UID request = UID current" "sv_UID request \<noteq> []" "sv_ResourceVersion request \<noteq> []"
    "\<not> list_ex (\<lambda>(key, v). key \<noteq> ''spec'') user_patch" "ValidateMergePatch unmarshal projection current text = None"
    using assms unfolding saveHandler_def Let_def
    by (auto split: if_splits sum.splits save_body.splits option.splits prod.splits)
  have "projection \<in> {ProjectionFull, ProjectionSpec}" using save_projection_Some [OF h(3)] .
  moreover have "fst ` set (widget_patch request user_patch) \<subseteq> {''spec'', ''metadata''}"
    using spec_keys [OF h(9)] set_map_put_subset [of "''metadata''" _ user_patch] unfolding widget_patch_def by fastforce
  ultimately show ?thesis using h by blast
qed

subsection \<open>Paths\<close>

lemma strings_CutPrefix_Some: "strings_CutPrefix s p = Some r \<longleftrightarrow> s = p @ r"
  by (auto simp: strings_CutPrefix_def dest: append_take_drop_id [of "length p" s, symmetric, THEN trans])
    (metis append_take_drop_id)

lemma classify_path_Some:
  "classify_path cs path = Some t \<Longrightarrow>
     \<exists>p. (p, nt_resource t) \<in> set cs \<and>
       (path = p \<and> nt_name t = [] \<or> path = p @ ''/'' @ nt_name t \<and> nt_name t \<noteq> [] \<and> CHR ''/'' \<notin> set (nt_name t))"
  by (induction cs path rule: classify_path.induct)
    (auto simp: strings_CutPrefix_Some split: if_splits option.splits)

text \<open>The collections this host forwards, as the API server names them.\<close>

definition native_collections :: "string \<Rightarrow> (string \<times> string) list" where
  "native_collections ns =
     [(''/apis/'' @ WidgetGroup @ ''/v1/namespaces/'' @ ns @ ''/widgets'', ''widgets''),
      (''/api/v1/namespaces/'' @ ns @ ''/secrets'', ''secrets'')]"

lemma native_prefixes_collections: "native_prefixes ns = map (\<lambda>(p, r). (''/k8s'' @ p, r)) (native_collections ns)"
  by (simp add: native_prefixes_def native_collections_def)

lemma upstream_path_k8s: "upstream_path (''/k8s'' @ p) = p"
  by (simp add: upstream_path_def strings_CutPrefix_def)

lemma native_classify_Some:
  assumes "native_classify ns path = Some t"
  shows "\<exists>p. (p, nt_resource t) \<in> set (native_collections ns) \<and>
    (upstream_path path = p \<and> nt_name t = [] \<or>
     upstream_path path = p @ ''/'' @ nt_name t \<and> nt_name t \<noteq> [] \<and> CHR ''/'' \<notin> set (nt_name t))"
proof -
  obtain p where p: "(p, nt_resource t) \<in> set (native_collections ns)"
    "path = ''/k8s'' @ p \<and> nt_name t = [] \<or>
     path = (''/k8s'' @ p) @ ''/'' @ nt_name t \<and> nt_name t \<noteq> [] \<and> CHR ''/'' \<notin> set (nt_name t)"
    using classify_path_Some [OF assms [unfolded native_classify_def]] unfolding native_prefixes_collections by auto
  then show ?thesis using upstream_path_k8s [of p] upstream_path_k8s [of "p @ ''/'' @ nt_name t"] by auto
qed

subsection \<open>What is forwarded\<close>

lemma native_watch_forward:
  "fst (native_watch session r st) = NativeForward class path body conn \<Longrightarrow>
     path = upstream_path (nr_Path r) \<and> body = None"
  by (simp add: native_watch_def Let_def split: prod.splits)

lemma native_patch_forward:
  "fst (native_patch patch_text unmarshal r st) = NativeForward class path body conn \<Longrightarrow>
     path = upstream_path (nr_Path r) \<and> nr_ContentType r = ''application/merge-patch+json'' \<and>
     (\<exists>patch. body = Some patch \<and> nr_Body r = Inr patch \<and> ValidateNativeMergePatch unmarshal patch = None)"
  unfolding native_patch_def Let_def by (auto split: if_splits sum.splits option.splits)

lemma sessionOf_viewer:
  assumes "sessionOf cf path cr m = (Some session, m')" and "\<not> hs_refused session" and "tokens_error cf = None"
  shows "hg_ViewerToken cf \<in> {cr_Header cr} \<union> set_option (cr_Cookie cr)"
  using assms by (auto simp: sessionOf_def tokens_error_def Let_def split: if_splits option.splits)

lemma native_ServeHTTP_forward:
  assumes "native_ServeHTTP patch_text unmarshal cf r st = (NativeForward class path body conn, st')"
  obtains session target m m' where
    "sessionOf cf ''native'' (nr_Credentials r) m = (Some session, m')" "\<not> hs_refused session"
    "native_classify (hg_namespace cf) (nr_Path r) = Some target" "path = upstream_path (nr_Path r)"
    "nr_Method r = ''GET'' \<and> body = None \<or>
     nr_Method r = ''PATCH'' \<and> nt_resource target = ''widgets'' \<and> nt_name target \<noteq> [] \<and>
     nr_ContentType r = ''application/merge-patch+json'' \<and>
     (\<exists>patch. body = Some patch \<and> nr_Body r = Inr patch \<and> ValidateNativeMergePatch unmarshal patch = None)"
proof -
  define st0 where "st0 = add_metric ''native.session_checks'' st"
  obtain s m' where s: "sessionOf cf ''native'' (nr_Credentials r) (ho_metrics st0) = (s, m')" by fastforce
  define st1 where "st1 = st0\<lparr>ho_metrics := m'\<rparr>"
  obtain session where session: "s = Some session"
    using assms s unfolding native_ServeHTTP_def Let_def st0_def by (cases s) auto
  note body = assms [unfolded native_ServeHTTP_def Let_def, folded st0_def, unfolded s session prod.case option.case, folded st1_def]
  have ref: "\<not> hs_refused session" using body by (auto split: if_splits)
  note body = body [unfolded if_not_P [OF ref]]
  obtain target where target: "native_classify (hg_namespace cf) (nr_Path r) = Some target"
    using body by (auto split: option.splits)
  note body = body [unfolded target option.case]
  show thesis
  proof (cases "nr_Method r = ''GET''")
    case True
    then have "fst (native_watch session r st1) = NativeForward class path body conn \<or>
        path = upstream_path (nr_Path r) \<and> body = None"
      using body by (simp split: if_splits)
    then have "path = upstream_path (nr_Path r) \<and> body = None" using native_watch_forward by blast
    then show thesis using that [OF s [unfolded session] ref target] True by blast
  next
    case False
    show thesis
    proof (cases "nr_Method r = ''PATCH'' \<and> nt_resource target = ''widgets'' \<and> nt_name target \<noteq> []")
      case True
      then have "fst (native_patch patch_text unmarshal r st1) = NativeForward class path body conn"
        using body False by simp
      then show thesis using that [OF s [unfolded session] ref target] True native_patch_forward by blast
    next
      case other: False
      then show thesis using body False by (simp only: simp_thms if_False prod.inject native_outcome.distinct)
    qed
  qed
qed

text \<open>A route permits exactly the viewer, in the host's namespace, and its options are valid.\<close>

lemma route_authorize_None:
  "fst (route_authorize cf route hasDeadline caller s m) = None \<longleftrightarrow> caller = ''viewer'' \<and> sc_Namespace s = hg_namespace cf"
  by (simp add: route_authorize_def Let_def)

lemma route_options_valid: "Handler_panic (route_options sha reauthorizeEvery) = None"
  by (simp add: Handler_panic_def route_options_def validateHTTPServing_def)

section \<open>Property\<close>

text \<open>C33. Only these requests leave the host with its credentials.  The session is the viewer's, the
  path is the Widget or the Secret collection of the host's namespace or one member of it, never
  a subresource or another namespace, and the request is a \<open>GET\<close>, passed on as it came, body
  included, or a merge patch of one Widget whose text \<open>ValidateNativeMergePatch\<close> accepted and
  which is the body that is sent.\<close>

theorem native_forwards:
  assumes "native_ServeHTTP patch_text unmarshal cf r st = (NativeForward class path body conn, st')"
    and "tokens_error cf = None"
  shows "hg_ViewerToken cf \<in> {cr_Header (nr_Credentials r)} \<union> set_option (cr_Cookie (nr_Credentials r)) \<and>
    (\<exists>p resource name. (p, resource) \<in> set (native_collections (hg_namespace cf)) \<and>
      (path = p \<and> name = [] \<or> path = p @ ''/'' @ name \<and> name \<noteq> [] \<and> CHR ''/'' \<notin> set name) \<and>
      (case body of
         None \<Rightarrow> nr_Method r = ''GET''
       | Some patch \<Rightarrow> nr_Method r = ''PATCH'' \<and> resource = ''widgets'' \<and> name \<noteq> [] \<and>
           nr_ContentType r = ''application/merge-patch+json'' \<and> nr_Body r = Inr patch \<and>
           ValidateNativeMergePatch unmarshal patch = None))"
proof -
  obtain session target m m' where h: "sessionOf cf ''native'' (nr_Credentials r) m = (Some session, m')"
    "\<not> hs_refused session" "native_classify (hg_namespace cf) (nr_Path r) = Some target" "path = upstream_path (nr_Path r)"
    "nr_Method r = ''GET'' \<and> body = None \<or>
     nr_Method r = ''PATCH'' \<and> nt_resource target = ''widgets'' \<and> nt_name target \<noteq> [] \<and>
     nr_ContentType r = ''application/merge-patch+json'' \<and>
     (\<exists>patch. body = Some patch \<and> nr_Body r = Inr patch \<and> ValidateNativeMergePatch unmarshal patch = None)"
    by (rule native_ServeHTTP_forward [OF assms(1)])
  from native_classify_Some [OF h(3)] obtain p where "(p, nt_resource target) \<in> set (native_collections (hg_namespace cf))"
    "path = p \<and> nt_name target = [] \<or> path = p @ ''/'' @ nt_name target \<and> nt_name target \<noteq> [] \<and> CHR ''/'' \<notin> set (nt_name target)"
    unfolding h(4) by blast
  moreover have "case body of
         None \<Rightarrow> nr_Method r = ''GET''
       | Some patch \<Rightarrow> nr_Method r = ''PATCH'' \<and> nt_resource target = ''widgets'' \<and> nt_name target \<noteq> [] \<and>
           nr_ContentType r = ''application/merge-patch+json'' \<and> nr_Body r = Inr patch \<and>
           ValidateNativeMergePatch unmarshal patch = None"
    using h(5) by (elim disjE conjE exE) simp_all
  ultimately show ?thesis using sessionOf_viewer [OF h(1,2) assms(2)] by blast
qed

definition sample_host :: host_config where
  "sample_host = \<lparr>hg_namespace = ''ns'', hg_ViewerToken = ''v'', hg_RefusedToken = ''r''\<rparr>"

definition sample_native_request :: native_request where
  "sample_native_request =
     \<lparr>nr_Method = ''PATCH'', nr_Path = ''/k8s/apis/'' @ WidgetGroup @ ''/v1/namespaces/ns/widgets/w-00'', nr_Query = [],
      nr_ContentType = ''application/merge-patch+json'', nr_Body = Inr ''{}'',
      nr_Credentials = \<lparr>cr_Header = [], cr_Cookie = Some ''v''\<rparr>\<rparr>"

definition sample_host_state :: host_state where
  "sample_host_state = \<lparr>ho_metrics = NewMetrics 0, ho_pending = [], ho_conns = newConnections\<rparr>"

definition sample_forward :: "native_outcome \<times> host_state" where
  "sample_forward =
     native_ServeHTTP (\<lambda>err. []) (\<lambda>t. Inr (Some sample_native)) sample_host sample_native_request sample_host_state"

theorem native_forwards_witness:
  "fst sample_forward =
     NativeForward ''patch'' (''/apis/'' @ WidgetGroup @ ''/v1/namespaces/ns/widgets/w-00'') (Some ''{}'') None \<and>
   ValidateNativeMergePatch (\<lambda>t. Inr (Some sample_native)) ''{}'' = None"
proof -
  have f: "fst sample_forward =
      NativeForward ''patch'' (''/apis/'' @ WidgetGroup @ ''/v1/namespaces/ns/widgets/w-00'') (Some ''{}'') None"
    and t: "tokens_error sample_host = None" by code_simp+
  obtain st' where "sample_forward =
      (NativeForward ''patch'' (''/apis/'' @ WidgetGroup @ ''/v1/namespaces/ns/widgets/w-00'') (Some ''{}'') None, st')"
    using f by (metis prod.collapse)
  from native_forwards [OF this [unfolded sample_forward_def] t] f show ?thesis by auto
qed

end
