(* ===== verification/Objects.thy ===== *)
theory Objects
  imports Comparison
begin

text \<open>
  The objects of the comparison host, \<open>gateway/kube/examples/comparison/objects.go\<close>: their
  names and initial content, the merge patches that write them, the reset that every
  measurement starts from, and the read that its correctness gate compares with.  The cluster
  behind the dynamic client is a parameter: functions from requests and a state of its own to
  answers.  The theorems say which writes the host sends and in which order.
\<close>

section \<open>The cluster\<close>

record 's cluster =
  ck_Create :: "resource_ref \<Rightarrow> KRMObject \<Rightarrow> 's \<Rightarrow> (go_error + KRMObject) \<times> 's"
  ck_Patch :: "resource_ref \<Rightarrow> string \<Rightarrow> string \<Rightarrow> string list \<Rightarrow> 's \<Rightarrow> (go_error + KRMObject) \<times> 's"
  ck_List :: "resource_ref \<Rightarrow> 's \<Rightarrow> (go_error + KRMObject list) \<times> 's"

record objects =
  oj_namespace :: string
  oj_widgets :: int
  oj_secrets :: int

definition widgetClient :: "objects \<Rightarrow> resource_ref" where
  "widgetClient o' = (WidgetGroup, ''v1'', ''widgets'', Some (oj_namespace o'))"

definition secretClient :: "objects \<Rightarrow> resource_ref" where
  "secretClient o' = ([], ''v1'', ''secrets'', Some (oj_namespace o'))"

section \<open>Names and content\<close>

text \<open>\<open>w-%02d\<close> pads one digit with a zero.\<close>

definition WidgetName :: "int \<Rightarrow> string" where
  "WidgetName i = ''w-'' @ (if 0 \<le> i \<and> i < 10 then ''0'' else []) @ show_int i"

definition SecretName :: "int \<Rightarrow> string" where
  "SecretName i = ''s-'' @ show_int i"

definition json_int :: "int \<Rightarrow> json" where
  "json_int i = JNum (show_int i)"

text \<open>\<open>base64.StdEncoding\<close>: three bytes are four digits, the last group padded.\<close>

definition base64_digit :: "nat \<Rightarrow> char" where
  "base64_digit d =
     (if d < 26 then char_of (65 + d) else if d < 52 then char_of (71 + d) else if d < 62 then char_of (d - 4)
      else if d = 62 then CHR ''+'' else CHR ''/'')"

definition base64_group :: "nat \<Rightarrow> string" where
  "base64_group n = [base64_digit (n div 262144), base64_digit (n div 4096 mod 64),
     base64_digit (n div 64 mod 64), base64_digit (n mod 64)]"

fun base64 :: "string \<Rightarrow> string" where
  "base64 (a # b # c # s) = base64_group (of_char a * 65536 + of_char b * 256 + of_char c) @ base64 s"
| "base64 [a, b] = take 3 (base64_group (of_char a * 65536 + of_char b * 256)) @ ''=''"
| "base64 [a] = take 2 (base64_group (of_char a * 65536)) @ ''==''"
| "base64 [] = []"

definition colors :: "string list" where
  "colors = [''red'', ''green'', ''blue'', ''amber'']"

definition initialSpec :: "int \<Rightarrow> KRMObject" where
  "initialSpec i =
     [(''replicas'', json_int (i mod 5 + 1)), (''color'', JStr (colors ! nat (i mod int (length colors)))),
      (''note'', JStr ''initial''), (''revision'', json_int 0)]"

definition initialStatus :: KRMObject where
  "initialStatus = [(''phase'', JStr ''Ready''), (''heartbeat'', json_int 0), (''observedRevision'', json_int 0)]"

definition initialSecretData :: "int \<Rightarrow> KRMObject" where
  "initialSecretData i =
     [(''token'', JStr (base64 (''initial-token-'' @ show_int i))), (''user'', JStr (base64 (''svc-'' @ show_int i)))]"

section \<open>Writing\<close>

text \<open>
  \<open>json.Marshal\<close> cannot fail on the bodies that are written here: they hold strings and
  integers only.  \<open>%v\<close> prints the subresources in brackets.
\<close>

definition patchVersion ::
    "'s cluster \<Rightarrow> resource_ref \<Rightarrow> string \<Rightarrow> KRMObject \<Rightarrow> string list \<Rightarrow> 's \<Rightarrow> (go_error + string) \<times> 's" where
  "patchVersion cl client name body subresource s =
     (case ck_Patch cl client name (json_Marshal (JObj body)) subresource s of
        (Inl err, s) \<Rightarrow> (Inl (ErrWrap (''patch '' @ name @ '' ['' @ join_with CHR '' '' subresource @ '']'') err), s)
      | (Inr object, s) \<Rightarrow> (Inr (resourceVersionOf object), s))"

definition patch ::
    "'s cluster \<Rightarrow> resource_ref \<Rightarrow> string \<Rightarrow> KRMObject \<Rightarrow> string list \<Rightarrow> 's \<Rightarrow> go_error option \<times> 's" where
  "patch cl client name body subresource s =
     (case patchVersion cl client name body subresource s of
        (Inl err, s) \<Rightarrow> (Some err, s)
      | (Inr _, s) \<Rightarrow> (None, s))"

text \<open>A loop whose body may return an error, which ends it.\<close>

fun each :: "('a \<Rightarrow> 's \<Rightarrow> go_error option \<times> 's) \<Rightarrow> 'a list \<Rightarrow> 's \<Rightarrow> go_error option \<times> 's" where
  "each f [] s = (None, s)"
| "each f (x # xs) s = (case f x s of (Some err, s) \<Rightarrow> (Some err, s) | (None, s) \<Rightarrow> each f xs s)"

definition andthen :: "('s \<Rightarrow> go_error option \<times> 's) \<Rightarrow> ('s \<Rightarrow> go_error option \<times> 's) \<Rightarrow> 's \<Rightarrow> go_error option \<times> 's" where
  "andthen p q s = (case p s of (Some err, s) \<Rightarrow> (Some err, s) | (None, s) \<Rightarrow> q s)"

definition reset_widget :: "'s cluster \<Rightarrow> objects \<Rightarrow> int \<Rightarrow> 's \<Rightarrow> go_error option \<times> 's" where
  "reset_widget cl o' i =
     andthen (patch cl (widgetClient o') (WidgetName i) [(''spec'', JObj (initialSpec i))] [])
       (patch cl (widgetClient o') (WidgetName i) [(''status'', JObj initialStatus)] [''status''])"

definition reset_secret :: "'s cluster \<Rightarrow> objects \<Rightarrow> int \<Rightarrow> 's \<Rightarrow> go_error option \<times> 's" where
  "reset_secret cl o' i = patch cl (secretClient o') (SecretName i) [(''data'', JObj (initialSecretData i))] []"

definition reset :: "'s cluster \<Rightarrow> objects \<Rightarrow> 's \<Rightarrow> go_error option \<times> 's" where
  "reset cl o' =
     andthen (each (reset_widget cl o') [0..oj_widgets o' - 1]) (each (reset_secret cl o') [0..oj_secrets o' - 1])"

definition create_one :: "'s cluster \<Rightarrow> resource_ref \<Rightarrow> string \<Rightarrow> KRMObject \<Rightarrow> 's \<Rightarrow> go_error option \<times> 's" where
  "create_one cl client what object s =
     (case ck_Create cl client object s of
        (Inl err, s) \<Rightarrow> (Some (ErrWrap (''create '' @ what) err), s)
      | (Inr _, s) \<Rightarrow> (None, s))"

definition new_widget :: "int \<Rightarrow> KRMObject" where
  "new_widget i =
     [(''apiVersion'', JStr (WidgetGroup @ ''/v1'')), (''kind'', JStr ''Widget''),
      (''metadata'', JObj [(''name'', JStr (WidgetName i)), (''labels'', JObj [(''compare'', JStr ''widget'')])]),
      (''spec'', JObj (initialSpec i))]"

definition new_secret :: "int \<Rightarrow> KRMObject" where
  "new_secret i =
     [(''apiVersion'', JStr ''v1''), (''kind'', JStr ''Secret''),
      (''metadata'', JObj [(''name'', JStr (SecretName i)), (''labels'', JObj [(''compare'', JStr ''secret'')])]),
      (''type'', JStr ''Opaque''), (''data'', JObj (initialSecretData i))]"

definition create :: "'s cluster \<Rightarrow> objects \<Rightarrow> 's \<Rightarrow> go_error option \<times> 's" where
  "create cl o' =
     andthen (each (\<lambda>i. create_one cl (widgetClient o') (''widget '' @ WidgetName i) (new_widget i)) [0..oj_widgets o' - 1])
       (andthen (each (\<lambda>i. create_one cl (secretClient o') (''secret '' @ SecretName i) (new_secret i)) [0..oj_secrets o' - 1])
         (reset cl o'))"

section \<open>Installing the definition\<close>

definition crds :: resource_ref where
  "crds = (''apiextensions.k8s.io'', ''v1'', ''customresourcedefinitions'', None)"

definition preserve :: json where
  "preserve = JObj [(''type'', JStr ''object''), (''x-kubernetes-preserve-unknown-fields'', JBool True)]"

definition widget_crd :: KRMObject where
  "widget_crd =
     [(''apiVersion'', JStr ''apiextensions.k8s.io/v1''), (''kind'', JStr ''CustomResourceDefinition''),
      (''metadata'', JObj [(''name'', JStr (''widgets.'' @ WidgetGroup))]),
      (''spec'', JObj
        [(''group'', JStr WidgetGroup), (''scope'', JStr ''Namespaced''),
         (''names'', JObj [(''plural'', JStr ''widgets''), (''singular'', JStr ''widget''), (''kind'', JStr ''Widget''),
                           (''listKind'', JStr ''WidgetList'')]),
         (''versions'', JArr [JObj
            [(''name'', JStr ''v1''), (''served'', JBool True), (''storage'', JBool True),
             (''subresources'', JObj [(''status'', JObj [])]),
             (''schema'', JObj [(''openAPIV3Schema'', JObj
                [(''type'', JStr ''object''), (''properties'', JObj [(''spec'', preserve), (''status'', preserve)])])])]])])]"

text \<open>
  One turn of the wait for the definition to be served: whether the deadline of 60 seconds has
  passed after the list failed, and the error of the context if that ended the pause.  The list
  asks for one Widget of the default namespace.
\<close>

record crd_poll =
  cp_late :: bool
  cp_cancelled :: "go_error option"

fun wait_served :: "'s cluster \<Rightarrow> crd_poll list \<Rightarrow> 's \<Rightarrow> go_error option option \<times> 's" where
  "wait_served cl [] s = (None, s)"
| "wait_served cl (p # ps) s =
     (case ck_List cl (WidgetGroup, ''v1'', ''widgets'', Some ''default'') s of
        (Inr _, s) \<Rightarrow> (Some None, s)
      | (Inl err, s) \<Rightarrow>
          (if cp_late p then (Some (Some (ErrWrap ''the Widget CRD is not served'' err)), s)
           else case cp_cancelled p of
             Some cancelled \<Rightarrow> (Some (Some cancelled), s)
           | None \<Rightarrow> wait_served cl ps s))"

definition ensureWidgetCRD ::
    "(go_error \<Rightarrow> bool) \<Rightarrow> 's cluster \<Rightarrow> crd_poll list \<Rightarrow> 's \<Rightarrow> go_error option option \<times> 's" where
  "ensureWidgetCRD isAlreadyExists cl polls s =
     (case ck_Create cl crds widget_crd s of
        (Inl err, s) \<Rightarrow>
          (if isAlreadyExists err then wait_served cl polls s
           else (Some (Some (ErrWrap ''install the Widget CRD'' err)), s))
      | (Inr _, s) \<Rightarrow> wait_served cl polls s)"

section \<open>Reading\<close>

record StateObject =
  so_Kind :: string
  so_UID :: string
  so_Name :: string
  so_ResourceVersion :: string
  so_Labels :: "string gmap"
  so_Spec :: "json option"
  so_Status :: "json option"
  so_Data :: "KRMObject option"

text \<open>\<open>GetName\<close> and \<open>GetLabels\<close>: labels that are not all strings read as none.\<close>

definition meta_of :: "KRMObject \<Rightarrow> KRMObject" where
  "meta_of o' = (case obj_field o' ''metadata'' of None \<Rightarrow> [] | Some meta \<Rightarrow> meta)"

fun string_entries :: "KRMObject \<Rightarrow> string gmap option" where
  "string_entries [] = Some []"
| "string_entries ((k, v) # m) =
     (case (v, string_entries m) of (JStr s, Some r) \<Rightarrow> Some ((k, s) # r) | _ \<Rightarrow> None)"

definition labels_of :: "KRMObject \<Rightarrow> string gmap" where
  "labels_of o' =
     (case obj_field (meta_of o') ''labels'' of
        None \<Rightarrow> []
      | Some m \<Rightarrow> (case string_entries m of None \<Rightarrow> [] | Some labels \<Rightarrow> labels))"

definition state_object :: "KRMObject \<Rightarrow> StateObject" where
  "state_object item =
     \<lparr>so_Kind = str_field item ''kind'', so_UID = UID item, so_Name = str_field (meta_of item) ''name'',
      so_ResourceVersion = resourceVersionOf item, so_Labels = labels_of item,
      so_Spec = map_of item ''spec'', so_Status = map_of item ''status'', so_Data = obj_field item ''data''\<rparr>"

fun list_all_of :: "'s cluster \<Rightarrow> resource_ref list \<Rightarrow> StateObject list \<Rightarrow> 's \<Rightarrow> (go_error + StateObject list) \<times> 's" where
  "list_all_of cl [] out s = (Inr out, s)"
| "list_all_of cl (client # clients) out s =
     (case ck_List cl client s of
        (Inl err, s) \<Rightarrow> (Inl err, s)
      | (Inr items, s) \<Rightarrow> list_all_of cl clients (out @ map state_object items) s)"

definition state :: "'s cluster \<Rightarrow> objects \<Rightarrow> 's \<Rightarrow> (go_error + StateObject list) \<times> 's" where
  "state cl o' = list_all_of cl [widgetClient o', secretClient o'] []"

section \<open>Names are distinct\<close>

lemma show_nat_inj [simp]: "show_nat m = show_nat n \<longleftrightarrow> m = n"
  by (metis dec_val_show_nat)

lemma show_nat_no_sign: "show_nat n \<noteq> CHR ''-'' # s"
proof
  assume "show_nat n = CHR ''-'' # s"
  then have "is_digit CHR ''-''" using show_nat_digits [of "CHR ''-''" n] by simp
  then show False by (simp add: is_digit_def)
qed

lemma show_int_inj [simp]: "show_int i = show_int j \<longleftrightarrow> i = j"
  using show_nat_no_sign show_nat_no_sign [symmetric] by (auto simp: show_int_def)

lemma SecretName_inj: "SecretName i = SecretName j \<Longrightarrow> i = j"
  by (simp add: SecretName_def)

lemma WidgetName_inj:
  assumes "WidgetName i = WidgetName j" and "0 \<le> i" and "0 \<le> j"
  shows "i = j"
proof -
  have val: "dec_val (drop 2 (WidgetName k)) = nat k" if "0 \<le> k" for k
    using that by (simp add: WidgetName_def show_int_def dec_val_show_nat dec_val_Cons)
  have "nat i = nat j" using val [OF assms(2)] val [OF assms(3)] assms(1) by simp
  then show ?thesis using assms(2,3) by simp
qed

section \<open>What is sent\<close>

text \<open>A cluster that also keeps the writes it was asked for.\<close>

datatype cluster_write = Created resource_ref KRMObject | Patched resource_ref string string "string list"

definition traced :: "'s cluster \<Rightarrow> ('s \<times> cluster_write list) cluster" where
  "traced cl =
     \<lparr>ck_Create = (\<lambda>client object (s, ws).
        case ck_Create cl client object s of (r, s) \<Rightarrow> (r, (s, ws @ [Created client object]))),
      ck_Patch = (\<lambda>client name body subresource (s, ws).
        case ck_Patch cl client name body subresource s of (r, s) \<Rightarrow> (r, (s, ws @ [Patched client name body subresource]))),
      ck_List = (\<lambda>client (s, ws). case ck_List cl client s of (r, s) \<Rightarrow> (r, (s, ws)))\<rparr>"

text \<open>
  A procedure sends a list of writes in order: all of them when it succeeds, and up to the one
  that failed when it does not.
\<close>

definition sends :: "('s \<times> cluster_write list \<Rightarrow> go_error option \<times> 's \<times> cluster_write list) \<Rightarrow> cluster_write list \<Rightarrow> bool" where
  "sends p ws \<longleftrightarrow>
     (\<forall>s log. \<exists>r s' n. p (s, log) = (r, (s', log @ take n ws)) \<and> (case r of None \<Rightarrow> n = length ws | Some _ \<Rightarrow> 0 < n \<and> n \<le> length ws))"

lemma sendsI:
  "(\<And>s log. \<exists>r s' n. p (s, log) = (r, (s', log @ take n ws)) \<and>
      (case r of None \<Rightarrow> n = length ws | Some _ \<Rightarrow> 0 < n \<and> n \<le> length ws)) \<Longrightarrow> sends p ws"
  by (simp add: sends_def)

lemma sendsE:
  assumes "sends p ws"
  obtains (sent) s' where "p (s, log) = (None, (s', log @ ws))"
  | (failed) err s' n where "p (s, log) = (Some err, (s', log @ take n ws))" "0 < n" "n \<le> length ws"
proof -
  from assms obtain r s' n where "p (s, log) = (r, (s', log @ take n ws))"
    "case r of None \<Rightarrow> n = length ws | Some _ \<Rightarrow> 0 < n \<and> n \<le> length ws"
    unfolding sends_def by blast
  then show thesis using sent failed by (cases r) auto
qed

lemma sends_andthen:
  assumes "sends p ws" and "sends q vs"
  shows "sends (andthen p q) (ws @ vs)"
proof (rule sendsI)
  fix s log
  from assms(1) show "\<exists>r s' n. andthen p q (s, log) = (r, (s', log @ take n (ws @ vs))) \<and>
      (case r of None \<Rightarrow> n = length (ws @ vs) | Some _ \<Rightarrow> 0 < n \<and> n \<le> length (ws @ vs))"
  proof (cases rule: sendsE [of p ws s log])
    case first: (sent s')
    from assms(2) show ?thesis
    proof (cases rule: sendsE [of q vs s' "log @ ws"])
      case (sent s'')
      with first show ?thesis by (intro exI [of _ None] exI [of _ s''] exI [of _ "length (ws @ vs)"]) (simp add: andthen_def)
    next
      case (failed err s'' n)
      with first show ?thesis
        by (intro exI [of _ "Some err"] exI [of _ s''] exI [of _ "length ws + n"]) (simp add: andthen_def)
    qed
  next
    case (failed err s' n)
    then show ?thesis by (intro exI [of _ "Some err"] exI [of _ s'] exI [of _ n]) (simp add: andthen_def)
  qed
qed

lemma each_Cons: "each f (x # xs) = andthen (f x) (each f xs)"
  by (simp add: andthen_def fun_eq_iff)

lemma sends_each:
  assumes "\<And>x. sends (f x) (w x)"
  shows "sends (each f xs) (concat (map w xs))"
proof (induction xs)
  case Nil
  show ?case by (simp add: sends_def)
next
  case (Cons x xs)
  then show ?case using sends_andthen [OF assms] by (simp add: each_Cons)
qed

lemma sends_patch: "sends (patch (traced cl) client name body sub) [Patched client name (json_Marshal (JObj body)) sub]"
proof (rule sendsI)
  fix s log
  obtain r s' where "ck_Patch cl client name (json_Marshal (JObj body)) sub s = (r, s')" by fastforce
  then show "\<exists>r s' n. patch (traced cl) client name body sub (s, log) =
      (r, (s', log @ take n [Patched client name (json_Marshal (JObj body)) sub])) \<and>
      (case r of None \<Rightarrow> n = length [Patched client name (json_Marshal (JObj body)) sub]
       | Some _ \<Rightarrow> 0 < n \<and> n \<le> length [Patched client name (json_Marshal (JObj body)) sub])"
    by (cases r) (auto simp: patch_def patchVersion_def traced_def intro: exI [of _ 1])
qed

lemma sends_create: "sends (create_one (traced cl) client what object) [Created client object]"
proof (rule sendsI)
  fix s log
  obtain r s' where "ck_Create cl client object s = (r, s')" by fastforce
  then show "\<exists>r s' n. create_one (traced cl) client what object (s, log) = (r, (s', log @ take n [Created client object])) \<and>
      (case r of None \<Rightarrow> n = length [Created client object] | Some _ \<Rightarrow> 0 < n \<and> n \<le> length [Created client object])"
    by (cases r) (auto simp: create_one_def traced_def intro: exI [of _ 1])
qed

text \<open>The initial content of one Widget, its status through the subresource, and of one Secret.\<close>

definition widget_writes :: "objects \<Rightarrow> int \<Rightarrow> cluster_write list" where
  "widget_writes o' i =
     [Patched (widgetClient o') (WidgetName i) (json_Marshal (JObj [(''spec'', JObj (initialSpec i))])) [],
      Patched (widgetClient o') (WidgetName i) (json_Marshal (JObj [(''status'', JObj initialStatus)])) [''status'']]"

definition secret_write :: "objects \<Rightarrow> int \<Rightarrow> cluster_write" where
  "secret_write o' i =
     Patched (secretClient o') (SecretName i) (json_Marshal (JObj [(''data'', JObj (initialSecretData i))])) []"

definition reset_writes :: "objects \<Rightarrow> cluster_write list" where
  "reset_writes o' =
     concat (map (widget_writes o') [0..oj_widgets o' - 1]) @ map (secret_write o') [0..oj_secrets o' - 1]"

lemma sends_reset_widget: "sends (reset_widget (traced cl) o' i) (widget_writes o' i)"
  using sends_andthen [OF sends_patch sends_patch] by (simp add: reset_widget_def widget_writes_def)

lemma sends_reset_secret: "sends (reset_secret (traced cl) o' i) [secret_write o' i]"
  using sends_patch by (simp add: reset_secret_def secret_write_def)

lemma sends_reset: "sends (reset (traced cl) o') (reset_writes o')"
  using sends_andthen [OF sends_each [OF sends_reset_widget] sends_each [OF sends_reset_secret]]
  by (simp add: reset_def reset_writes_def)

lemma sends_create_all:
  "sends (create (traced cl) o')
     (map (\<lambda>i. Created (widgetClient o') (new_widget i)) [0..oj_widgets o' - 1] @
      map (\<lambda>i. Created (secretClient o') (new_secret i)) [0..oj_secrets o' - 1] @ reset_writes o')"
  using sends_andthen [OF sends_each [of "\<lambda>i. create_one (traced cl) (widgetClient o') (''widget '' @ WidgetName i) (new_widget i)",
        OF sends_create]
      sends_andthen [OF sends_each [of "\<lambda>i. create_one (traced cl) (secretClient o') (''secret '' @ SecretName i) (new_secret i)",
        OF sends_create] sends_reset]]
  by (simp add: create_def)

end
