(* ===== verification/Workload.thy ===== *)
theory Workload
  imports Complex_Main Objects Shared "HOL-Library.Log_Nat"
begin

text \<open>
  The workload of the comparison host, \<open>gateway/kube/examples/comparison/workload.go\<close>: a
  request becomes a schedule of writes and forced disconnects, and the schedule is run against
  the cluster.  Durations are \<open>int64\<close> nanoseconds and wrap; the rate is a finite \<open>float64\<close>,
  which is all that JSON can carry, by its exact value (the theorems hold for every rational,
  so for every binary64 value, and the sample rates are binary64 values); the random generator is a parameter of
  which the theorems use that \<open>IntN(n)\<close> is between 0 and \<open>n - 1\<close>.  The loops that build a
  schedule may not end, and then the result is \<open>None\<close>.
\<close>

section \<open>Requests\<close>

record WorkloadRequest =
  wr_Name :: string
  wr_DurationMs :: int
  wr_Seed :: "64 word"
  wr_Rate :: rat
  wr_Reconnects :: int
  wr_DisconnectEveryMs :: int
  wr_Target :: string

definition WorkloadQuiet :: string where
  "WorkloadQuiet = ''quiet''"

definition WorkloadBurst :: string where
  "WorkloadBurst = ''burst''"

definition WorkloadChurn :: string where
  "WorkloadChurn = ''churn''"

definition WorkloadForcedDisconnect :: string where
  "WorkloadForcedDisconnect = ''forced-disconnect''"

definition Workloads :: "string list" where
  "Workloads = [WorkloadQuiet, WorkloadBurst, WorkloadChurn, WorkloadForcedDisconnect]"

definition default_rate :: "string \<Rightarrow> rat \<Rightarrow> rat" where
  "default_rate name rate =
     (if rate \<le> 0 then
        (if name = WorkloadChurn then 10 else if name = WorkloadForcedDisconnect then 4
         else if name = WorkloadBurst then 12 else rate)
      else rate)"

definition withDefaults :: "WorkloadRequest \<Rightarrow> WorkloadRequest" where
  "withDefaults r =
     \<lparr>wr_Name = wr_Name r,
      wr_DurationMs = (if wr_DurationMs r \<le> 0 then 20000 else wr_DurationMs r),
      wr_Seed = (if wr_Seed r = 0 then 1 else wr_Seed r),
      wr_Rate = default_rate (wr_Name r) (wr_Rate r),
      wr_Reconnects = (if wr_Reconnects r \<le> 0 then 2 else wr_Reconnects r),
      wr_DisconnectEveryMs = (if wr_DisconnectEveryMs r \<le> 0 then 4000 else wr_DisconnectEveryMs r),
      wr_Target = (if wr_Target r = [] then ''all'' else wr_Target r)\<rparr>"

section \<open>Steps\<close>

datatype StepKind = StepSpec | StepStatus | StepSecret | StepDisconnect

record Step =
  sp_At :: int
  sp_Kind :: StepKind
  sp_Object :: int
  sp_Seq :: int

record Plan =
  pl_Request :: WorkloadRequest
  pl_Steps :: "Step list"

text \<open>A map of counters: a missing kind is incremented from zero.\<close>

type_synonym tally = "StepKind \<rightharpoonup> int"

definition tally_of :: "tally \<Rightarrow> StepKind \<Rightarrow> int" where
  "tally_of t k = (case t k of None \<Rightarrow> 0 | Some n \<Rightarrow> n)"

definition count_up :: "StepKind \<Rightarrow> tally \<Rightarrow> tally" where
  "count_up k t = t(k \<mapsto> tally_of t k + 1)"

definition Counts :: "Plan \<Rightarrow> tally" where
  "Counts p = fold (\<lambda>s. count_up (sp_Kind s)) (pl_Steps p) (\<lambda>_. None)"

section \<open>Numbers\<close>

definition millisecond :: int where
  "millisecond = 1000000"

definition second :: int where
  "second = 1000000000"

text \<open>Division of integers truncates.\<close>

definition go_div :: "int \<Rightarrow> int \<Rightarrow> int" where
  "go_div a b = sgn a * sgn b * (\<bar>a\<bar> div \<bar>b\<bar>)"

text \<open>
  The nearest \<open>float64\<close> of a rational that is at least one: 53 significant bits, ties to an
  even last one.
\<close>

definition round_half_even :: "rat \<Rightarrow> int" where
  "round_half_even q =
     (let f = \<lfloor>q\<rfloor>; d = q - of_int f
      in if d < 1 / 2 then f else if 1 / 2 < d then f + 1 else if even f then f else f + 1)"

definition float64 :: "rat \<Rightarrow> rat" where
  "float64 q =
     (let k = nat (bitlen \<lfloor>q\<rfloor>)
      in if k \<le> 53 then of_int (round_half_even (q * 2 ^ (53 - k))) / 2 ^ (53 - k)
         else of_int (round_half_even (q / 2 ^ (k - 53))) * 2 ^ (k - 53))"

text \<open>\<open>math.Round\<close> of what is not negative: halves go up.\<close>

definition math_Round :: "rat \<Rightarrow> int" where
  "math_Round q = \<lfloor>q + 1 / 2\<rfloor>"

text \<open>
  The period of a rate.  The conversion of a float that no \<open>int64\<close> holds is left to the
  platform by the language: \<open>huge\<close> is what it gives, the least \<open>int64\<close> on amd64 and the
  greatest on arm64.
\<close>

definition perSecond :: "int \<Rightarrow> rat \<Rightarrow> int" where
  "perSecond huge rate = (let q = math_Round (float64 (of_int second / rate)) in if q < 2 ^ 63 then q else huge)"

section \<open>Building a schedule\<close>

text \<open>The generator of \<open>math/rand/v2\<close>: \<open>NewPCG\<close>, and \<open>IntN\<close> with the state it leaves.\<close>

record 'g random =
  rn_NewPCG :: "64 word \<Rightarrow> 64 word \<Rightarrow> 'g"
  rn_IntN :: "'g \<Rightarrow> int \<Rightarrow> int \<times> 'g"

type_synonym 'g building = "'g \<times> Step list"

definition step_at :: "int \<Rightarrow> StepKind \<Rightarrow> int \<Rightarrow> Step" where
  "step_at t kind object = \<lparr>sp_At = t, sp_Kind = kind, sp_Object = object, sp_Seq = 0\<rparr>"

definition add :: "'g random \<Rightarrow> int \<Rightarrow> int \<Rightarrow> StepKind \<Rightarrow> int \<Rightarrow> 'g building \<Rightarrow> 'g building" where
  "add rn widgetCount secretCount kind t st =
     (case st of (g, steps) \<Rightarrow>
        (case (case kind of
                 StepSpec \<Rightarrow> rn_IntN rn g widgetCount
               | StepStatus \<Rightarrow> rn_IntN rn g widgetCount
               | StepSecret \<Rightarrow> rn_IntN rn g secretCount
               | StepDisconnect \<Rightarrow> (0, g)) of
           (object, g) \<Rightarrow> (g, steps @ [step_at t kind object])))"

text \<open>\<open>for at := start; at < duration; at += period\<close>\<close>

partial_function (option) for_ticks :: "(int \<Rightarrow> 's \<Rightarrow> 's) \<Rightarrow> int \<Rightarrow> int \<Rightarrow> int \<Rightarrow> 's \<Rightarrow> 's option" where
  "for_ticks body duration period t st =
     (if t < duration then for_ticks body duration period (wrap64 (t + period)) (body t st) else Some st)"

declare for_ticks.simps [code]

text \<open>\<open>for i := 1; i <= n; i++\<close>\<close>

partial_function (option) for_upto :: "(int \<Rightarrow> 's \<Rightarrow> 's) \<Rightarrow> int \<Rightarrow> int \<Rightarrow> 's \<Rightarrow> 's option" where
  "for_upto body n i st = (if i \<le> n then for_upto body n (wrap64 (i + 1)) (body i st) else Some st)"

declare for_upto.simps [code]

definition every :: "'g random \<Rightarrow> int \<Rightarrow> int \<Rightarrow> int \<Rightarrow> int \<Rightarrow> StepKind \<Rightarrow> 'g building \<Rightarrow> 'g building option" where
  "every rn wc sc duration period kind st = for_ticks (add rn wc sc kind) duration period period st"

definition burst :: "'g random \<Rightarrow> int \<Rightarrow> int \<Rightarrow> int \<Rightarrow> int \<Rightarrow> 'g building \<Rightarrow> 'g building" where
  "burst rn wc sc n start st =
     fold (\<lambda>i (g, steps).
       case rn_IntN rn g 2 of
         (coin, g) \<Rightarrow>
           add rn wc sc (if coin = 1 then StepStatus else StepSpec) (wrap64 (start + wrap64 (i * 20 * millisecond))) (g, steps))
       [0..n - 1] st"

definition mixed_kinds :: "StepKind list" where
  "mixed_kinds = [StepSpec, StepStatus, StepStatus, StepSecret]"

definition mixed :: "'g random \<Rightarrow> int \<Rightarrow> int \<Rightarrow> int \<Rightarrow> 'g building \<Rightarrow> 'g building" where
  "mixed rn wc sc t st =
     (case st of (g, steps) \<Rightarrow>
        (case rn_IntN rn g (int (length mixed_kinds)) of
           (i, g) \<Rightarrow> add rn wc sc (mixed_kinds ! nat i) t (g, steps)))"

text \<open>The schedule of a workload by name; \<open>Inl\<close> is an unknown name.\<close>

definition workload_steps ::
    "int \<Rightarrow> 'g random \<Rightarrow> WorkloadRequest \<Rightarrow> int \<Rightarrow> int \<Rightarrow> int \<Rightarrow> 'g building \<Rightarrow> (go_error + 'g building) option" where
  "workload_steps huge rn req wc sc duration st =
     (if wr_Name req = WorkloadQuiet then Some (Inr st)
      else if wr_Name req = WorkloadBurst then
        map_option Inr (for_ticks (burst rn wc sc \<lfloor>wr_Rate req\<rfloor>) duration (4 * second) (2 * second) st)
      else if wr_Name req = WorkloadChurn then
        map_option Inr (Option.bind (every rn wc sc duration (perSecond huge (wr_Rate req)) StepStatus st)
          (\<lambda>st. Option.bind (every rn wc sc duration (2 * second) StepSpec st)
          (\<lambda>st. every rn wc sc duration (3 * second) StepSecret st)))
      else if wr_Name req = WorkloadForcedDisconnect then
        (let period = perSecond huge (wr_Rate req) in
         map_option Inr (Option.bind (for_ticks (mixed rn wc sc) duration period (go_div period 2) st)
           (\<lambda>st. every rn wc sc duration (wrap64 (wr_DisconnectEveryMs req * millisecond)) StepDisconnect st)))
      else Some (Inl (ErrText (''comparison: unknown workload '' @ go_quote (wr_Name req) @
             '' (want one of ['' @ join_with CHR '' '' Workloads @ ''])''))))"

definition reconnect_at :: "int \<Rightarrow> int \<Rightarrow> int \<Rightarrow> int" where
  "reconnect_at duration n i =
     wrap64 (go_div (wrap64 (duration * i)) (wrap64 (n + 1)) + 250 * millisecond)"

definition reconnects :: "int \<Rightarrow> int \<Rightarrow> Step list \<Rightarrow> Step list option" where
  "reconnects duration n steps =
     for_upto (\<lambda>i steps. steps @ [step_at (reconnect_at duration n i) StepDisconnect 0]) n 1 steps"

text \<open>
  \<open>slices.SortStableFunc\<close> for a comparison that is a strict weak order; equal elements keep
  their order.  The comparison here is the difference of two \<open>int64\<close> values.
\<close>

fun insert_by :: "('a \<Rightarrow> 'a \<Rightarrow> int) \<Rightarrow> 'a \<Rightarrow> 'a list \<Rightarrow> 'a list" where
  "insert_by cmp x [] = [x]"
| "insert_by cmp x (y # ys) = (if cmp y x < 0 then y # insert_by cmp x ys else x # y # ys)"

definition SortStableFunc :: "('a \<Rightarrow> 'a \<Rightarrow> int) \<Rightarrow> 'a list \<Rightarrow> 'a list" where
  "SortStableFunc cmp xs = foldr (insert_by cmp) xs []"

definition compare_At :: "Step \<Rightarrow> Step \<Rightarrow> int" where
  "compare_At a b = wrap64 (sp_At a - sp_At b)"

definition number_steps :: "Step list \<Rightarrow> Step list" where
  "number_steps steps = map (\<lambda>(i, s). s\<lparr>sp_Seq := i\<rparr>) (zip [1..int (length steps)] steps)"

text \<open>
  \<open>None\<close> when a loop does not end.  The target of a disconnect is checked before the name of
  the workload.
\<close>

definition NewPlan :: "int \<Rightarrow> 'g random \<Rightarrow> WorkloadRequest \<Rightarrow> int \<Rightarrow> int \<Rightarrow> (go_error + Plan) option" where
  "NewPlan huge rn req0 widgetCount secretCount =
     (let req = withDefaults req0 in
      if widgetCount < 1 \<or> secretCount < 1 then
        Some (Inl (ErrText ''comparison: a workload needs at least one Widget and one Secret''))
      else if wr_Target req \<notin> set [''all'', ''native'', ''gateway''] then
        Some (Inl (ErrText (''comparison: unknown disconnect target '' @ go_quote (wr_Target req))))
      else if wr_DurationMs req > 10 * 60 * 1000 \<or> wr_Rate req > 200 then
        Some (Inl (ErrText ''comparison: duration or rate out of range''))
      else
        (let duration = wrap64 (wr_DurationMs req * millisecond);
             g = rn_NewPCG rn (wr_Seed req) (word_of_nat (length (wr_Name req)))
         in case workload_steps huge rn req widgetCount secretCount duration (g, []) of
              None \<Rightarrow> None
            | Some (Inl err) \<Rightarrow> Some (Inl err)
            | Some (Inr (g, steps)) \<Rightarrow>
                map_option (\<lambda>steps. Inr \<lparr>pl_Request = req, pl_Steps = number_steps (SortStableFunc compare_At steps)\<rparr>)
                  (reconnects duration (wr_Reconnects req) steps)))"

section \<open>Running a plan\<close>

text \<open>The errors are kept as errors; the result reports their texts.\<close>

record WorkloadResult =
  rs_Plan :: tally
  rs_Done :: tally
  rs_Closed :: int
  rs_Errors :: "go_error list"
  rs_SecretRotations :: "string gmap"
  rs_MaxLateMs :: int
  rs_ElapsedMs :: int
  rs_DurationMs :: int
  rs_Seed :: "64 word"
  rs_Rate :: rat
  rs_Reconnects :: int
  rs_StartedUnix :: int

definition spec_body :: "Step \<Rightarrow> KRMObject" where
  "spec_body step =
     [(''spec'', JObj [(''revision'', json_int (sp_Seq step)), (''replicas'', json_int (sp_Seq step mod 5 + 1))])]"

definition status_body_of :: "Step \<Rightarrow> KRMObject" where
  "status_body_of step =
     [(''status'', JObj [(''heartbeat'', json_int (sp_Seq step)),
        (''phase'', JStr ([''Ready'', ''Progressing''] ! nat (sp_Seq step mod 2)))])]"

definition secret_body :: "64 word \<Rightarrow> Step \<Rightarrow> KRMObject" where
  "secret_body seed step =
     [(''data'', JObj [(''token'',
        JStr (base64 (''rotated-'' @ show_nat (unat seed) @ ''-'' @ show_int (sp_Seq step))))])]"

text \<open>
  The action of one step: its error, and the result with what the action itself records.
  \<open>disc\<close> is the callback that closes downstream connections and says how many.
\<close>

definition run_step ::
    "'s cluster \<Rightarrow> (string \<Rightarrow> 's \<Rightarrow> int \<times> 's) \<Rightarrow> objects \<Rightarrow> WorkloadRequest \<Rightarrow> Step \<Rightarrow> WorkloadResult \<Rightarrow> 's \<Rightarrow>
       go_error option \<times> WorkloadResult \<times> 's" where
  "run_step cl disc o' req step result s =
     (case sp_Kind step of
        StepSpec \<Rightarrow>
          (case patch cl (widgetClient o') (WidgetName (sp_Object step)) (spec_body step) [] s of
             (err, s) \<Rightarrow> (err, result, s))
      | StepStatus \<Rightarrow>
          (case patch cl (widgetClient o') (WidgetName (sp_Object step)) (status_body_of step) [''status''] s of
             (err, s) \<Rightarrow> (err, result, s))
      | StepSecret \<Rightarrow>
          (case patchVersion cl (secretClient o') (SecretName (sp_Object step)) (secret_body (wr_Seed req) step) [] s of
             (Inl err, s) \<Rightarrow> (Some err, result, s)
           | (Inr rv, s) \<Rightarrow>
               (None, result\<lparr>rs_SecretRotations := map_put (SecretName (sp_Object step)) rv (rs_SecretRotations result)\<rparr>, s))
      | StepDisconnect \<Rightarrow>
          (case disc (wr_Target req) s of (n, s) \<Rightarrow> (None, result\<lparr>rs_Closed := rs_Closed result + n\<rparr>, s)))"

definition after_step :: "StepKind \<Rightarrow> go_error option \<Rightarrow> WorkloadResult \<Rightarrow> WorkloadResult" where
  "after_step kind err result =
     (case err of
        Some err \<Rightarrow> result\<lparr>rs_Errors := rs_Errors result @ [err]\<rparr>
      | None \<Rightarrow> result\<lparr>rs_Done := count_up kind (rs_Done result)\<rparr>)"

text \<open>
  What the clock says at the \<open>i\<close>-th step: the time left until it is due, and the error of the
  context when that ended the pause.  The first component of the result says whether it did.
\<close>

type_synonym clock = "nat \<Rightarrow> int \<times> go_error option"

definition late :: "int \<Rightarrow> WorkloadResult \<Rightarrow> WorkloadResult" where
  "late wait result = result\<lparr>rs_MaxLateMs := max (rs_MaxLateMs result) (go_div (wrap64 (- wait)) millisecond)\<rparr>"

fun run_from ::
    "'s cluster \<Rightarrow> (string \<Rightarrow> 's \<Rightarrow> int \<times> 's) \<Rightarrow> objects \<Rightarrow> WorkloadRequest \<Rightarrow> clock \<Rightarrow> nat \<Rightarrow> Step list \<Rightarrow>
       WorkloadResult \<Rightarrow> 's \<Rightarrow> bool \<times> WorkloadResult \<times> 's" where
  "run_from cl disc o' req clock i [] result s = (False, result, s)"
| "run_from cl disc o' req clock i (step # steps) result s =
     (case clock i of
        (wait, interrupt) \<Rightarrow>
          (case (if wait > 0 then interrupt else None) of
             Some err \<Rightarrow> (True, result\<lparr>rs_Errors := rs_Errors result @ [err]\<rparr>, s)
           | None \<Rightarrow>
               (let result = (if wait > 0 then result else late wait result) in
                case run_step cl disc o' req step result s of
                  (err, result, s) \<Rightarrow>
                    run_from cl disc o' req clock (Suc i) steps (after_step (sp_Kind step) err result) s)))"

definition start_result :: "int \<Rightarrow> Plan \<Rightarrow> WorkloadResult" where
  "start_result started plan =
     \<lparr>rs_Plan = Counts plan, rs_Done = (\<lambda>_. None), rs_Closed = 0, rs_Errors = [], rs_SecretRotations = [],
      rs_MaxLateMs = 0, rs_ElapsedMs = 0, rs_DurationMs = wr_DurationMs (pl_Request plan),
      rs_Seed = wr_Seed (pl_Request plan), rs_Rate = wr_Rate (pl_Request plan),
      rs_Reconnects = wr_Reconnects (pl_Request plan), rs_StartedUnix = started\<rparr>"

text \<open>After the last step the run pauses until its duration is over, and notes how long it took.\<close>

definition workload_run ::
    "'s cluster \<Rightarrow> (string \<Rightarrow> 's \<Rightarrow> int \<times> 's) \<Rightarrow> objects \<Rightarrow> clock \<Rightarrow> int \<Rightarrow> int \<Rightarrow> Plan \<Rightarrow> 's \<Rightarrow> WorkloadResult \<times> 's" where
  "workload_run cl disc o' clock started elapsed plan s =
     (case run_from cl disc o' (pl_Request plan) clock 0 (pl_Steps plan) (start_result started plan) s of
        (True, result, s) \<Rightarrow> (result, s)
      | (False, result, s) \<Rightarrow> (result\<lparr>rs_ElapsedMs := elapsed\<rparr>, s))"

section \<open>Arithmetic\<close>

lemma wrap64_id: "- (2 ^ 63) \<le> x \<Longrightarrow> x < 2 ^ 63 \<Longrightarrow> wrap64 x = x"
  by (simp add: wrap64_def sint_sbintrunc' signed_take_bit_int_eq_self)

lemma round_half_even_bounds: "\<lfloor>q\<rfloor> \<le> round_half_even q \<and> round_half_even q \<le> \<lfloor>q\<rfloor> + 1"
  by (simp add: round_half_even_def Let_def)

lemma bitlen_bounds_nat:
  assumes "1 \<le> q"
  shows "0 < nat (bitlen \<lfloor>q\<rfloor>)" and "2 ^ (nat (bitlen \<lfloor>q\<rfloor>) - 1) \<le> (q :: rat)"
proof -
  have f: "0 < \<lfloor>q\<rfloor>" using assms by simp
  then have b: "0 < bitlen \<lfloor>q\<rfloor>" by (simp add: bitlen_def compute_floorlog)
  then show "0 < nat (bitlen \<lfloor>q\<rfloor>)" by simp
  have "2 ^ nat (bitlen \<lfloor>q\<rfloor> - 1) \<le> \<lfloor>q\<rfloor>" using bitlen_bounds [OF f] by simp
  then have "of_int (2 ^ nat (bitlen \<lfloor>q\<rfloor> - 1)) \<le> (of_int \<lfloor>q\<rfloor> :: rat)" by (simp only: of_int_le_iff)
  then have "(2 :: rat) ^ (nat (bitlen \<lfloor>q\<rfloor>) - 1) \<le> of_int \<lfloor>q\<rfloor>" 
    using b by (simp add: nat_diff_distrib')
  also have "\<dots> \<le> q" by simp
  finally show "2 ^ (nat (bitlen \<lfloor>q\<rfloor>) - 1) \<le> q" .
qed

lemma float64_bounds:
  assumes "1 \<le> q"
  shows "q / 2 \<le> float64 q \<and> float64 q \<le> 2 * q"
proof -
  define k where "k = nat (bitlen \<lfloor>q\<rfloor>)"
  have k: "0 < k" "2 ^ (k - 1) \<le> q" using bitlen_bounds_nat [OF assms] by (simp_all add: k_def)
  define x where "x = (if k \<le> 53 then q * 2 ^ (53 - k) else q / 2 ^ (k - 53))"
  define u :: rat where "u = (if k \<le> 53 then 1 / 2 ^ (53 - k) else 2 ^ (k - 53))"
  have u: "0 < u" "q = x * u" "float64 q = of_int (round_half_even x) * u"
    by (auto simp: float64_def Let_def k_def [symmetric] x_def u_def)
  have "(2 :: rat) ^ (53 - k) * 2 ^ (k - 1) = 2 ^ 52" if "k \<le> 53" using k(1) that by (simp only: power_add [symmetric]) simp
  moreover have "(2 :: rat) ^ (k - 53) * 2 ^ 52 = 2 ^ (k - 1)" if "\<not> k \<le> 53" using that by (simp only: power_add [symmetric]) simp
  ultimately have "u * 2 ^ 52 = 2 ^ (k - 1)" by (simp add: u_def divide_simps mult.commute)
  then have ux: "2 * u \<le> q" using k(2) u(1) by simp
  have "(of_int \<lfloor>x\<rfloor> :: rat) \<le> of_int (round_half_even x)" "of_int (round_half_even x) \<le> (of_int (\<lfloor>x\<rfloor> + 1) :: rat)"
    using round_half_even_bounds [of x] by (simp_all only: of_int_le_iff)
  then have "x - 1 \<le> of_int (round_half_even x)" "of_int (round_half_even x) \<le> x + 1"
    using of_int_floor_le [of x] floor_correct [of x] by linarith+
  then have "(x - 1) * u \<le> float64 q" "float64 q \<le> (x + 1) * u"
    using u(1) unfolding u(3) by (auto intro!: mult_right_mono)
  then show ?thesis using ux u(2) by (simp add: algebra_simps)
qed

lemma perSecond_bounds:
  assumes "1 / 2 ^ 32 \<le> rate" and "rate \<le> 200"
  shows "2 \<le> perSecond huge rate \<and> perSecond huge rate < 2 ^ 63"
proof -
  define q where "q = of_int second / rate"
  have r: "0 < rate" using assms(1) by (rule less_le_trans [rotated]) simp
  have lo: "5000000 \<le> q" using assms(2) r by (simp add: q_def second_def field_simps)
  have hi: "q \<le> 1000000000 * 2 ^ 32" using assms(1) r by (simp add: q_def second_def field_simps)
  have f: "q / 2 \<le> float64 q" "float64 q \<le> 2 * q" using float64_bounds [of q] lo by simp_all
  have "2 \<le> math_Round (float64 q)" using f(1) lo unfolding math_Round_def by linarith
  moreover have "math_Round (float64 q) < 2 ^ 63"
  proof -
    have "float64 q + 1 / 2 < of_int (2 ^ 63)" using f(2) hi by simp
    then show ?thesis unfolding math_Round_def floor_less_iff .
  qed
  ultimately show ?thesis by (simp add: perSecond_def q_def [symmetric] Let_def)
qed

section \<open>Loops\<close>

text \<open>The values a counting loop goes through, and that the loop is a fold over them.\<close>

function ticks :: "int \<Rightarrow> int \<Rightarrow> int \<Rightarrow> int list" where
  "ticks period duration t = (if t < duration \<and> 0 < period then t # ticks period duration (t + period) else [])"
  by pat_completeness auto

termination ticks
  by (relation "measure (\<lambda>(period, duration, t). nat (duration - t))") auto

declare ticks.simps [simp del]

lemma ticks_bounds: "x \<in> set (ticks period duration t) \<Longrightarrow> t \<le> x \<and> x < duration"
proof (induction period duration t rule: ticks.induct)
  case (1 period duration t)
  then show ?case by (subst (asm) (2) ticks.simps) (auto split: if_splits)
qed

lemma sorted_ticks: "sorted (ticks period duration t)"
proof (induction period duration t rule: ticks.induct)
  case (1 period duration t)
  then show ?case using ticks_bounds [of _ period duration "t + period"] by (subst ticks.simps) force
qed

lemma set_ticks:
  "0 < period \<Longrightarrow> set (ticks period duration t) = {t + int k * period | k. t + int k * period < duration}"
proof (induction period duration t rule: ticks.induct)
  case (1 period duration t)
  show ?case
  proof (cases "t < duration")
    case True
    have "{t + int k * period | k. t + int k * period < duration} =
        insert t {t + period + int k * period | k. t + period + int k * period < duration}" (is "?L = ?R")
    proof (intro set_eqI iffI)
      fix x assume "x \<in> ?L"
      then obtain k where "x = t + int k * period" "x < duration" by blast
      then show "x \<in> ?R" by (cases k) (auto simp: algebra_simps intro: exI [of _ "k - 1"])
    next
      fix x assume "x \<in> ?R"
      then show "x \<in> ?L"
      proof
        assume "x = t" then show ?thesis using True by (auto intro: exI [of _ 0])
      next
        assume "x \<in> {t + period + int k * period | k. t + period + int k * period < duration}"
        then obtain k where "x = t + period + int k * period" "x < duration" by blast
        then show ?thesis by (auto simp: algebra_simps intro!: exI [of _ "Suc k"])
      qed
    qed
    with 1 True show ?thesis by (subst ticks.simps) auto
  next
    case False
    moreover have "\<not> t + int k * period < duration" for k
      using False "1.prems" mult_nonneg_nonneg [of "int k" period] by linarith
    ultimately show ?thesis by (subst ticks.simps) auto
  qed
qed

lemma for_ticks_fold:
  assumes "0 < period" and "duration + period \<le> 2 ^ 63" and "- (2 ^ 63) \<le> t"
  shows "for_ticks body duration period t st = Some (fold body (ticks period duration t) st)"
  using assms
proof (induction period duration t arbitrary: st rule: ticks.induct)
  case (1 period duration t)
  show ?case
  proof (cases "t < duration")
    case True
    have "wrap64 (t + period) = t + period" using 1 True by (intro wrap64_id) linarith+
    then show ?thesis using 1 True by (subst for_ticks.simps, subst ticks.simps) simp
  next
    case False
    then show ?thesis by (subst for_ticks.simps, subst ticks.simps) simp
  qed
qed

lemma for_ticks_from:
  assumes "0 < period" and "0 \<le> t" and "period \<le> 2 * t + 1" and "duration \<le> 2 ^ 60"
  shows "for_ticks body duration period t st = Some (fold body (ticks period duration t) st)"
proof (cases "t < duration")
  case True
  then show ?thesis using assms by (intro for_ticks_fold) simp_all
next
  case False
  then show ?thesis by (subst for_ticks.simps, subst ticks.simps) simp
qed

lemma for_upto_fold:
  assumes "n < 2 ^ 63 - 1" and "- (2 ^ 63) \<le> i"
  shows "for_upto body n i st = Some (fold body [i..n] st)"
  using assms
proof (induction "nat (n + 1 - i)" arbitrary: i st)
  case 0
  then show ?case by (subst for_upto.simps) simp
next
  case (Suc m)
  then have "wrap64 (i + 1) = i + 1" by (intro wrap64_id) linarith+
  moreover have "for_upto body n (i + 1) (body i st) = Some (fold body [i + 1..n] (body i st))"
    using Suc by (intro Suc.hyps(1)) auto
  moreover have "i \<le> n" using Suc.hyps(2) by linarith
  ultimately show ?case by (subst for_upto.simps) (simp add: upto.simps [of i])
qed

text \<open>Loops that never end: a period of zero, and the least \<open>int64\<close>, which alternates with zero.\<close>

lemma for_ticks_never:
  assumes T: "\<forall>t \<in> T. t < duration \<and> wrap64 (t + period) \<in> T" and "t \<in> T"
  shows "for_ticks body duration period t st = None"
proof (rule ccontr)
  assume "for_ticks body duration period t st \<noteq> None"
  then obtain st' where "for_ticks body duration period t st = Some st'" by blast
  from for_ticks.raw_induct [where P = "\<lambda>body d p t st st'. d = duration \<longrightarrow> p = period \<longrightarrow> t \<notin> T", OF _ this]
  have "t \<notin> T" using T by (metis option.distinct(1))
  then show False using assms(2) by simp
qed

section \<open>Schedules are well formed\<close>

text \<open>What the generator promises, and what a step of a schedule is.\<close>

definition draws :: "'g random \<Rightarrow> bool" where
  "draws rn \<longleftrightarrow> (\<forall>g n. 0 < n \<longrightarrow> 0 \<le> fst (rn_IntN rn g n) \<and> fst (rn_IntN rn g n) < n)"

fun object_range :: "int \<Rightarrow> int \<Rightarrow> StepKind \<Rightarrow> int" where
  "object_range wc sc StepSpec = wc"
| "object_range wc sc StepStatus = wc"
| "object_range wc sc StepSecret = sc"
| "object_range wc sc StepDisconnect = 1"

definition scheduled_ok :: "int \<Rightarrow> int \<Rightarrow> int \<Rightarrow> Step \<Rightarrow> bool" where
  "scheduled_ok wc sc hi s \<longleftrightarrow>
     0 < sp_At s \<and> sp_At s \<le> hi \<and> 0 \<le> sp_Object s \<and> sp_Object s < object_range wc sc (sp_Kind s)"

definition steps_ok :: "int \<Rightarrow> int \<Rightarrow> int \<Rightarrow> 'g building \<Rightarrow> bool" where
  "steps_ok wc sc hi st \<longleftrightarrow> list_all (scheduled_ok wc sc hi) (snd st)"

lemma add_ok:
  assumes "draws rn" and "1 \<le> wc" and "1 \<le> sc" and "0 < t" and "t \<le> hi" and "steps_ok wc sc hi st"
  shows "steps_ok wc sc hi (add rn wc sc kind t st)"
proof -
  obtain g steps where st: "st = (g, steps)" by fastforce
  have "0 \<le> fst (rn_IntN rn g n) \<and> fst (rn_IntN rn g n) < n" if "0 < n" for n
    using assms(1) that by (simp add: draws_def)
  from this [of wc] this [of sc] assms(2-) show ?thesis
    by (cases kind) (auto simp: st add_def steps_ok_def scheduled_ok_def step_at_def split: prod.splits)
qed

lemma steps_ok_fold:
  assumes "steps_ok wc sc hi st" and "\<And>t. t \<in> set ts \<Longrightarrow> 0 < t \<and> t \<le> upto_time"
    and "\<And>t st. 0 < t \<Longrightarrow> t \<le> upto_time \<Longrightarrow> steps_ok wc sc hi st \<Longrightarrow> steps_ok wc sc hi (body t st)"
  shows "steps_ok wc sc hi (fold body ts st)"
  using assms by (induction ts arbitrary: st) auto

lemma ticks_fold_ok:
  assumes "0 < t" and "steps_ok wc sc hi st"
    and "\<And>t st. 0 < t \<Longrightarrow> t \<le> duration \<Longrightarrow> steps_ok wc sc hi st \<Longrightarrow> steps_ok wc sc hi (body t st)"
  shows "steps_ok wc sc hi (fold body (ticks period duration t) st)"
  using assms ticks_bounds [of _ period duration t] by (intro steps_ok_fold [where upto_time = duration]) fastforce+

lemma mixed_ok:
  assumes "draws rn" and "1 \<le> wc" and "1 \<le> sc" and "0 < t" and "t \<le> hi" and "steps_ok wc sc hi st"
  shows "steps_ok wc sc hi (mixed rn wc sc t st)"
proof -
  obtain g steps i g' where st: "st = (g, steps)" and "rn_IntN rn g (int (length mixed_kinds)) = (i, g')" by fastforce
  moreover have "steps_ok wc sc hi (g', steps)" using assms(6) by (simp add: st steps_ok_def)
  ultimately show ?thesis using add_ok [OF assms(1-5)] by (simp add: mixed_def)
qed

lemma burst_ok:
  assumes "draws rn" and "1 \<le> wc" and "1 \<le> sc" and "n \<le> 200" and "0 < t" and "t + 4 * second \<le> hi"
    and "hi < 2 ^ 62" and "steps_ok wc sc hi st"
  shows "steps_ok wc sc hi (burst rn wc sc n t st)"
proof -
  define body where "body = (\<lambda>i (g, steps). case rn_IntN rn g 2 of (coin, g) \<Rightarrow>
    add rn wc sc (if coin = 1 then StepStatus else StepSpec) (wrap64 (t + wrap64 (i * 20 * millisecond))) (g, steps))"
  have "steps_ok wc sc hi (body i st)" if i: "i \<in> set [0..n - 1]" and st: "steps_ok wc sc hi st" for i st
  proof -
    obtain g steps coin g' where g: "st = (g, steps)" "rn_IntN rn g 2 = (coin, g')" by fastforce
    define d where "d = i * 20 * millisecond"
    have m: "0 \<le> d" "d \<le> 4 * second"
      using i assms(4) by (auto simp: d_def millisecond_def second_def)
    have "wrap64 d = d" "wrap64 (t + d) = t + d"
      using m assms(5-7) by (simp_all add: second_def wrap64_id)
    then show ?thesis
      using add_ok [OF assms(1-3), of "t + d" hi "(g', steps)"] m st assms(5,6)
      by (simp add: body_def g steps_ok_def d_def [symmetric])
  qed
  then have "steps_ok wc sc hi (fold body xs st)" if "set xs \<subseteq> set [0..n - 1]" for xs
    using that assms(8) by (induction xs arbitrary: st) auto
  then show ?thesis by (simp add: burst_def body_def)
qed

text \<open>The requests for which no product or sum wraps.\<close>

definition within_range :: "WorkloadRequest \<Rightarrow> bool" where
  "within_range req \<longleftrightarrow>
     (wr_Rate req \<le> 0 \<or> 1 / 2 ^ 32 \<le> wr_Rate req) \<and> wr_Reconnects req \<le> 10 ^ 7 \<and>
     wr_DisconnectEveryMs req \<le> 9 * 10 ^ 12"

lemma every_fold:
  assumes "0 < period" and "duration \<le> 2 ^ 60"
  shows "every rn wc sc duration period kind st = Some (fold (add rn wc sc kind) (ticks period duration period) st)"
  unfolding every_def using assms by (intro for_ticks_from) simp_all

lemma rate_in_range:
  assumes "within_range req" and "default_rate (wr_Name req) (wr_Rate req) \<le> 200"
    and "wr_Name req = WorkloadChurn \<or> wr_Name req = WorkloadForcedDisconnect"
  shows "2 \<le> perSecond huge (default_rate (wr_Name req) (wr_Rate req)) \<and>
    perSecond huge (default_rate (wr_Name req) (wr_Rate req)) < 2 ^ 63"
  using assms by (intro perSecond_bounds) (auto simp: within_range_def default_rate_def WorkloadChurn_def WorkloadForcedDisconnect_def)

lemma workload_steps_churn:
  "wr_Name req = WorkloadChurn \<Longrightarrow> workload_steps huge rn req wc sc duration st =
     map_option Inr (Option.bind (every rn wc sc duration (perSecond huge (wr_Rate req)) StepStatus st)
       (\<lambda>st. Option.bind (every rn wc sc duration (2 * second) StepSpec st)
       (\<lambda>st. every rn wc sc duration (3 * second) StepSecret st)))"
  by (simp add: workload_steps_def WorkloadQuiet_def WorkloadBurst_def WorkloadChurn_def)

lemma workload_steps_forced:
  "wr_Name req = WorkloadForcedDisconnect \<Longrightarrow> workload_steps huge rn req wc sc duration st =
     map_option Inr (Option.bind (for_ticks (mixed rn wc sc) duration (perSecond huge (wr_Rate req))
         (go_div (perSecond huge (wr_Rate req)) 2) st)
       (\<lambda>st. every rn wc sc duration (wrap64 (wr_DisconnectEveryMs req * millisecond)) StepDisconnect st))"
  by (simp add: workload_steps_def Let_def WorkloadQuiet_def WorkloadBurst_def WorkloadChurn_def WorkloadForcedDisconnect_def)

lemma workload_steps_named:
  assumes "draws rn" and "1 \<le> wc" and "1 \<le> sc" and "within_range req" and "0 < duration" and "duration \<le> 2 ^ 60"
    and "wr_Rate (withDefaults req) \<le> 200" and "wr_Name req \<in> set Workloads" and "steps_ok wc sc (duration + 4 * second) st"
  shows "\<exists>st'. workload_steps huge rn (withDefaults req) wc sc duration st = Some (Inr st') \<and>
    steps_ok wc sc (duration + 4 * second) st'"
proof -
  define hi where "hi = duration + 4 * second"
  define rate where "rate = wr_Rate (withDefaults req)"
  define disconnect_period where "disconnect_period = wrap64 (wr_DisconnectEveryMs (withDefaults req) * millisecond)"
  have s: "0 < second" "hi < 2 ^ 62" "duration \<le> hi" using assms(6) by (simp_all add: second_def hi_def)
  note st = assms(9) [folded hi_def]
  have tick: "steps_ok wc sc hi (fold (add rn wc sc kind) (ticks period duration t) st)"
    if "0 < t" "steps_ok wc sc hi st" for kind period t st
    using that s(3) by (intro ticks_fold_ok add_ok [OF assms(1-3)]) simp_all
  have dp: "0 < disconnect_period"
  proof -
    define ms where "ms = wr_DisconnectEveryMs (withDefaults req)"
    have "1 \<le> ms" "ms \<le> 9 * 10 ^ 12" using assms(4) by (simp_all add: ms_def within_range_def withDefaults_def)
    then show ?thesis unfolding disconnect_period_def ms_def [symmetric] by (simp add: wrap64_id millisecond_def)
  qed
  have quick: "2 \<le> perSecond huge rate"
    if "wr_Name req = WorkloadChurn \<or> wr_Name req = WorkloadForcedDisconnect"
    using rate_in_range [OF assms(4) _ that, of huge] assms(7) by (simp add: rate_def withDefaults_def)
  have name: "wr_Name (withDefaults req) = wr_Name req" by (simp add: withDefaults_def)
  consider "wr_Name req = WorkloadQuiet" | "wr_Name req = WorkloadBurst" | "wr_Name req = WorkloadChurn"
    | "wr_Name req = WorkloadForcedDisconnect"
    using assms(8) by (auto simp: Workloads_def)
  then have "\<exists>st'. workload_steps huge rn (withDefaults req) wc sc duration st = Some (Inr st') \<and> steps_ok wc sc hi st'"
  proof cases
    case 1
    then show ?thesis using st by (simp add: workload_steps_def name)
  next
    case 2
    have "\<lfloor>rate\<rfloor> \<le> 200" using assms(7) by (simp add: rate_def floor_le_iff)
    then have "steps_ok wc sc hi (fold (burst rn wc sc \<lfloor>rate\<rfloor>) (ticks (4 * second) duration (2 * second)) st)"
      using s st by (intro ticks_fold_ok burst_ok [OF assms(1-3)]) (simp_all add: hi_def)
    moreover have "for_ticks (burst rn wc sc \<lfloor>rate\<rfloor>) duration (4 * second) (2 * second) st =
        Some (fold (burst rn wc sc \<lfloor>rate\<rfloor>) (ticks (4 * second) duration (2 * second)) st)"
      using s assms(6) by (intro for_ticks_from) simp_all
    ultimately show ?thesis using 2 by (simp add: workload_steps_def name rate_def WorkloadQuiet_def WorkloadBurst_def)
  next
    case 3
    then have "0 < perSecond huge rate" using quick by simp
    then show ?thesis using 3 s st assms(6)
      by (simp add: workload_steps_churn name rate_def [symmetric] every_fold tick)
  next
    case 4
    define p where "p = perSecond huge rate"
    have p: "2 \<le> p" using quick 4 by (simp add: p_def)
    then have d: "go_div p 2 = p div 2" by (simp add: go_div_def)
    have "for_ticks (mixed rn wc sc) duration p (go_div p 2) st = Some (fold (mixed rn wc sc) (ticks p duration (go_div p 2)) st)"
      using p assms(6) unfolding d by (intro for_ticks_from) simp_all
    moreover have "steps_ok wc sc hi (fold (mixed rn wc sc) (ticks p duration (go_div p 2)) st)"
      using p st s(3) unfolding d by (intro ticks_fold_ok mixed_ok [OF assms(1-3)]) simp_all
    ultimately show ?thesis using 4 dp assms(6)
      by (simp add: workload_steps_forced name rate_def [symmetric] p_def [symmetric] disconnect_period_def [symmetric] every_fold tick)
  qed
  then show ?thesis by (simp add: hi_def)
qed

lemma workload_steps_unknown:
  "wr_Name req \<notin> set Workloads \<Longrightarrow> \<exists>err. workload_steps huge rn req wc sc duration st = Some (Inl err)"
  by (simp add: workload_steps_def Workloads_def)

lemma reconnect_at_bounds:
  assumes "0 < duration" and "duration \<le> 6 * 10 ^ 11" and "1 \<le> i" and "i \<le> n" and "n \<le> 10 ^ 7"
  shows "reconnect_at duration n i = duration * i div (n + 1) + 250 * millisecond"
    and "0 \<le> duration * i div (n + 1)" and "duration * i div (n + 1) \<le> duration"
proof -
  have p: "0 \<le> duration * i" "duration * i \<le> 6 * 10 ^ 18"
    using assms mult_mono [of duration "6 * 10 ^ 11" i "10 ^ 7"] by simp_all
  show nn: "0 \<le> duration * i div (n + 1)" using p assms by (simp add: pos_imp_zdiv_nonneg_iff)
  have "duration * i \<le> duration * (n + 1)" using assms by (intro mult_left_mono) simp_all
  then have "duration * i div (n + 1) \<le> duration * (n + 1) div (n + 1)" using assms by (intro zdiv_mono1) simp_all
  then show le: "duration * i div (n + 1) \<le> duration" using assms by simp
  have "wrap64 (duration * i) = duration * i"
    by (rule wrap64_id [OF order_trans [OF _ p(1)] le_less_trans [OF p(2)]]) simp_all
  moreover have "wrap64 (n + 1) = n + 1" using assms by (simp add: wrap64_id)
  ultimately have w: "wrap64 (duration * i) = duration * i" "wrap64 (n + 1) = n + 1" .
  have "go_div (duration * i) (n + 1) = duration * i div (n + 1)"
    using p assms by (cases "duration * i = 0") (simp_all add: go_div_def sgn_if)
  then show "reconnect_at duration n i = duration * i div (n + 1) + 250 * millisecond"
    unfolding reconnect_at_def w using nn le assms(2) by (simp add: wrap64_id millisecond_def)
qed

lemma reconnects_ok:
  assumes "0 < duration" and "duration \<le> 6 * 10 ^ 11" and "n \<le> 10 ^ 7" and "list_all (scheduled_ok wc sc (duration + 4 * second)) steps"
  shows "\<exists>steps'. reconnects duration n steps = Some steps' \<and> list_all (scheduled_ok wc sc (duration + 4 * second)) steps'"
proof -
  define body where "body = (\<lambda>i steps. steps @ [step_at (reconnect_at duration n i) StepDisconnect 0])"
  have "list_all (scheduled_ok wc sc (duration + 4 * second)) (fold body xs steps)" if "set xs \<subseteq> {1..n}" for xs
    using that assms(4)
  proof (induction xs arbitrary: steps)
    case (Cons i xs)
    then have "scheduled_ok wc sc (duration + 4 * second) (step_at (reconnect_at duration n i) StepDisconnect 0)"
      using reconnect_at_bounds [OF assms(1,2) _ _ assms(3), of i]
      by (simp add: scheduled_ok_def step_at_def millisecond_def second_def)
    then show ?case using Cons by (simp add: body_def)
  qed simp
  moreover have "reconnects duration n steps = Some (fold body [1..n] steps)"
    unfolding reconnects_def body_def using assms(3) by (intro for_upto_fold) simp_all
  ultimately show ?thesis by simp
qed

subsection \<open>Sorting\<close>

text \<open>While the difference of two times does not wrap, the comparison sorts by time.\<close>

lemma insert_by_insort_key:
  assumes "\<And>y. y \<in> set ys \<Longrightarrow> \<bar>sp_At y - sp_At x\<bar> < 2 ^ 63"
  shows "insert_by compare_At x ys = insort_key sp_At x ys"
  using assms
proof (induction ys)
  case (Cons y ys)
  have "\<bar>sp_At y - sp_At x\<bar> < 2 ^ 63" using Cons.prems by simp
  then have "wrap64 (sp_At y - sp_At x) = sp_At y - sp_At x" by (intro wrap64_id) (simp_all only: abs_less_iff, linarith+)
  then show ?case using Cons by (auto simp: compare_At_def)
qed simp

lemma SortStableFunc_sort_key:
  assumes "list_all (scheduled_ok wc sc hi) xs" and "hi < 2 ^ 62"
  shows "SortStableFunc compare_At xs = sort_key sp_At xs"
  using assms(1) unfolding SortStableFunc_def sort_key_def
proof (induction xs)
  case (Cons x xs)
  have "insert_by compare_At x (sort_key sp_At xs) = insort_key sp_At x (sort_key sp_At xs)"
  proof (rule insert_by_insort_key)
    fix y assume "y \<in> set (sort_key sp_At xs)"
    then show "\<bar>sp_At y - sp_At x\<bar> < 2 ^ 63" using Cons.prems assms(2) by (auto simp: list_all_iff scheduled_ok_def)
  qed
  then show ?case using Cons by (simp add: sort_key_def)
qed simp

lemma number_steps_At: "map sp_At (number_steps xs) = map sp_At xs"
  by (rule nth_equalityI) (simp_all add: number_steps_def)

lemma number_steps_Seq: "map sp_Seq (number_steps xs) = [1..int (length xs)]"
  by (rule nth_equalityI) (simp_all add: number_steps_def)

lemma scheduled_ok_numbered: "list_all (scheduled_ok wc sc hi) (number_steps xs) = list_all (scheduled_ok wc sc hi) xs"
  by (simp add: list_all_length number_steps_def scheduled_ok_def)

lemma length_number_steps [simp]: "length (number_steps xs) = length xs"
  by (simp add: number_steps_def)

subsection \<open>The times of a schedule\<close>

definition multiples :: "int \<Rightarrow> int \<Rightarrow> int list" where
  "multiples period duration = map (\<lambda>k. k * period) [1..(duration - 1) div period]"

lemma ticks_multiples:
  "0 < period \<Longrightarrow> ticks period duration t = map (\<lambda>k. t + k * period) [0..(duration - t - 1) div period]"
proof (induction period duration t rule: ticks.induct)
  case (1 period duration t)
  show ?case
  proof (cases "t < duration")
    case True
    define m where "m = (duration - (t + period) - 1) div period"
    have "duration - t - 1 = (duration - (t + period) - 1) + 1 * period" by simp
    then have m: "(duration - t - 1) div period = m + 1" using "1.prems" unfolding m_def by (metis div_mult_self3 add.commute less_irrefl)
    have "0 \<le> m + 1" using True "1.prems" by (simp add: m [symmetric] pos_imp_zdiv_nonneg_iff)
    then have "[0..m + 1] = 0 # [1..m + 1]" by (simp add: upto.simps)
    moreover have "[1..m + 1] = map (\<lambda>k. k + 1) [0..m]" by (rule nth_equalityI) simp_all
    moreover have "(\<lambda>k. t + period + k * period) = (\<lambda>k. t + k * period) \<circ> (\<lambda>k. k + 1)" by (auto simp: algebra_simps)
    moreover have "ticks period duration (t + period) = map (\<lambda>k. t + period + k * period) [0..m]"
      unfolding m_def using 1 True by simp
    ultimately show ?thesis using True "1.prems" by (subst ticks.simps) (simp add: m)
  next
    case False
    then have "(duration - t - 1) div period < 0" using "1.prems" by (simp add: pos_imp_zdiv_neg_iff)
    then show ?thesis using False by (subst ticks.simps) simp
  qed
qed

lemma ticks_period:
  assumes "0 < period"
  shows "ticks period duration period = multiples period duration"
proof -
  define m where "m = (duration - period - 1) div period"
  have "duration - 1 = (duration - period - 1) + 1 * period" by simp
  then have "(duration - 1) div period = m + 1" using assms unfolding m_def by (metis div_mult_self3 add.commute less_irrefl)
  moreover have "[1..m + 1] = map (\<lambda>k. k + 1) [0..m]" by (rule nth_equalityI) simp_all
  moreover have "(\<lambda>k. period + k * period) = (\<lambda>k. k * period) \<circ> (\<lambda>k. k + 1)" by (auto simp: algebra_simps)
  moreover have "ticks period duration period = map (\<lambda>k. period + k * period) [0..m]"
    unfolding m_def by (rule ticks_multiples [OF assms])
  ultimately show ?thesis by (simp add: multiples_def)
qed

definition times_of :: "StepKind \<Rightarrow> Step list \<Rightarrow> int list" where
  "times_of k steps = map sp_At (filter (\<lambda>s. sp_Kind s = k) steps)"

lemma times_append [simp]: "times_of k (xs @ ys) = times_of k xs @ times_of k ys"
  by (simp add: times_of_def)

lemma times_Nil [simp]: "times_of k [] = []"
  by (simp add: times_of_def)

lemma times_step_at [simp]: "times_of k [step_at t kind object] = (if kind = k then [t] else [])"
  by (simp add: times_of_def step_at_def)

lemma times_add: "times_of k (snd (add rn wc sc kind t st)) = times_of k (snd st) @ (if kind = k then [t] else [])"
  by (simp add: add_def split: prod.splits)

lemma times_fold_add:
  "times_of k (snd (fold (add rn wc sc kind) ts st)) = times_of k (snd st) @ (if kind = k then ts else [])"
  by (induction ts arbitrary: st) (simp_all add: times_add)

lemma times_reconnects:
  assumes "n < 2 ^ 63 - 1" and "reconnects duration n steps = Some steps'"
  shows "times_of k steps' = times_of k steps @ (if k = StepDisconnect then map (reconnect_at duration n) [1..n] else [])"
proof -
  have "times_of k (fold (\<lambda>i steps. steps @ [step_at (reconnect_at duration n i) StepDisconnect 0]) xs steps) =
      times_of k steps @ (if k = StepDisconnect then map (reconnect_at duration n) xs else [])" for xs
    by (induction xs arbitrary: steps) auto
  moreover have "steps' = fold (\<lambda>i steps. steps @ [step_at (reconnect_at duration n i) StepDisconnect 0]) [1..n] steps"
    using assms(2) unfolding reconnects_def by (subst (asm) for_upto_fold [OF assms(1)]) simp_all
  ultimately show ?thesis by simp
qed

lemma times_number_steps [simp]: "times_of k (number_steps xs) = times_of k xs"
proof -
  have "times_of k (map (\<lambda>(i, s). s\<lparr>sp_Seq := i\<rparr>) (zip is xs)) = times_of k xs" if "length is = length xs" for "is"
    using that by (induction "is" xs rule: list_induct2) (auto simp: times_of_def)
  then show ?thesis by (simp add: number_steps_def)
qed

lemma map_insort_key: "map f (insort_key f x xs) = insort (f x) (map f xs)"
  by (induction xs) simp_all

lemma map_sort_key: "map f (sort_key f xs) = sort (map f xs)"
  by (induction xs) (simp_all add: map_insort_key)

lemma times_sort_key: "times_of k (sort_key sp_At xs) = sort (times_of k xs)"
  by (simp add: times_of_def filter_sort map_sort_key)

section \<open>Properties\<close>

text \<open>The requests a plan refuses.\<close>

definition refused :: "WorkloadRequest \<Rightarrow> int \<Rightarrow> int \<Rightarrow> bool" where
  "refused req widgetCount secretCount \<longleftrightarrow>
     widgetCount < 1 \<or> secretCount < 1 \<or> wr_Target req \<notin> {[], ''all'', ''native'', ''gateway''} \<or>
     wr_DurationMs req > 600000 \<or> default_rate (wr_Name req) (wr_Rate req) > 200 \<or> wr_Name req \<notin> set Workloads"

lemma NewPlan_refused:
  assumes "refused req wc sc"
  shows "\<exists>err. NewPlan huge rn req wc sc = Some (Inl err)"
proof (cases "wr_Name req \<in> set Workloads")
  case True
  then show ?thesis using assms
    by (auto simp: refused_def NewPlan_def Let_def withDefaults_def split: if_splits)
next
  case False
  have "wr_Name (withDefaults req) \<notin> set Workloads" using False by (simp add: withDefaults_def)
  from workload_steps_unknown [OF this] obtain err where
    "workload_steps huge rn (withDefaults req) wc sc (wrap64 (wr_DurationMs (withDefaults req) * millisecond))
       (rn_NewPCG rn (wr_Seed (withDefaults req)) (word_of_nat (length (wr_Name (withDefaults req)))), []) = Some (Inl err)" by metis
  then show ?thesis unfolding NewPlan_def Let_def by (simp only: option.case sum.case split: if_split) blast
qed

lemma NewPlan_accepted:
  fixes req huge wc sc and rn :: "'g random"
  defines "req' \<equiv> withDefaults req"
  defines "duration \<equiv> wr_DurationMs req' * millisecond"
  assumes "draws rn" and "within_range req" and "\<not> refused req wc sc"
  obtains g' steps steps' where
    "workload_steps huge rn req' wc sc duration (rn_NewPCG rn (wr_Seed req') (word_of_nat (length (wr_Name req'))), []) =
       Some (Inr (g', steps))"
    "reconnects duration (wr_Reconnects req') steps = Some steps'"
    "NewPlan huge rn req wc sc = Some (Inr \<lparr>pl_Request = req', pl_Steps = number_steps (sort_key sp_At steps')\<rparr>)"
    "list_all (scheduled_ok wc sc (duration + 4 * second)) steps'"
    "0 < duration" "duration \<le> 6 * 10 ^ 11" "wr_Reconnects req' \<le> 10 ^ 7" "1 \<le> wr_Reconnects req'"
proof -
  define g where "g = rn_NewPCG rn (wr_Seed req') (word_of_nat (length (wr_Name req')))"
  have ms: "0 < wr_DurationMs req'" "wr_DurationMs req' \<le> 600000"
    using assms(5) by (auto simp: req'_def withDefaults_def refused_def)
  then have d: "0 < duration" "duration \<le> 6 * 10 ^ 11" "wrap64 duration = duration"
    by (simp_all add: duration_def millisecond_def wrap64_id)
  have rate: "wr_Rate req' \<le> 200" using assms(5) by (simp add: req'_def withDefaults_def refused_def)
  have wc: "1 \<le> wc" "1 \<le> sc" "wr_Name req \<in> set Workloads" using assms(5) by (simp_all add: refused_def)
  obtain g' steps where w: "workload_steps huge rn req' wc sc duration (g, []) = Some (Inr (g', steps))"
    "list_all (scheduled_ok wc sc (duration + 4 * second)) steps"
    using workload_steps_named [OF assms(3) wc(1,2) assms(4) d(1) _ rate [unfolded req'_def] wc(3), of "(g, [])" huge] d(2)
    by (auto simp: steps_ok_def req'_def)
  have n: "wr_Reconnects req' \<le> 10 ^ 7" "1 \<le> wr_Reconnects req'"
    using assms(4) by (simp_all add: req'_def withDefaults_def within_range_def)
  obtain steps' where r: "reconnects duration (wr_Reconnects req') steps = Some steps'"
    "list_all (scheduled_ok wc sc (duration + 4 * second)) steps'"
    using reconnects_ok [OF d(1,2) n(1) w(2)] by blast
  have "SortStableFunc compare_At steps' = sort_key sp_At steps'"
    using SortStableFunc_sort_key [OF r(2)] d(2) by (simp add: second_def)
  moreover have "wr_Target req' \<in> set [''all'', ''native'', ''gateway'']"
    using assms(5) by (auto simp: req'_def withDefaults_def refused_def)
  ultimately have "NewPlan huge rn req wc sc = Some (Inr \<lparr>pl_Request = req', pl_Steps = number_steps (sort_key sp_At steps')\<rparr>)"
    unfolding NewPlan_def Let_def req'_def [symmetric] duration_def [symmetric] g_def [symmetric] d(3)
    using w(1) r(1) ms rate wc(1,2) by simp
  then show thesis using that w(1) r d(1,2) n by (simp add: g_def)
qed

text \<open>C36. A request whose numbers do not wrap is always answered: with an error exactly when it is
  refused, and otherwise with a plan whose steps are in the order of their times, which lie within
  the duration and the four seconds after it, are numbered from one, and each name a Widget or
  Secret that exists.\<close>

theorem NewPlan_correct:
  assumes "draws rn" and "within_range req"
  shows "if refused req widgetCount secretCount
    then \<exists>err. NewPlan huge rn req widgetCount secretCount = Some (Inl err)
    else \<exists>plan. NewPlan huge rn req widgetCount secretCount = Some (Inr plan) \<and> pl_Request plan = withDefaults req \<and>
      sorted (map sp_At (pl_Steps plan)) \<and> map sp_Seq (pl_Steps plan) = [1..int (length (pl_Steps plan))] \<and>
      list_all (scheduled_ok widgetCount secretCount (wr_DurationMs (pl_Request plan) * millisecond + 4 * second)) (pl_Steps plan)"
proof (cases "refused req widgetCount secretCount")
  case True
  then show ?thesis using NewPlan_refused [of req widgetCount secretCount huge rn] by simp
next
  case False
  from NewPlan_accepted [OF assms False, of huge] obtain steps where
    p: "NewPlan huge rn req widgetCount secretCount =
      Some (Inr \<lparr>pl_Request = withDefaults req, pl_Steps = number_steps (sort_key sp_At steps)\<rparr>)"
    "list_all (scheduled_ok widgetCount secretCount (wr_DurationMs (withDefaults req) * millisecond + 4 * second)) steps" by metis
  moreover from p(2) have "list_all (scheduled_ok widgetCount secretCount (wr_DurationMs (withDefaults req) * millisecond + 4 * second))
      (sort_key sp_At steps)" by (simp add: list_all_iff)
  ultimately show ?thesis using False by (simp add: number_steps_At number_steps_Seq scheduled_ok_numbered)
qed

definition sample_random :: "nat random" where
  "sample_random = \<lparr>rn_NewPCG = (\<lambda>seed len. unat seed), rn_IntN = (\<lambda>g n. (int g mod n, Suc g))\<rparr>"

lemma draws_sample_random: "draws sample_random"
  by (simp add: draws_def sample_random_def)

definition sample_workload :: WorkloadRequest where
  "sample_workload =
     \<lparr>wr_Name = ''churn'', wr_DurationMs = 7000, wr_Seed = 0, wr_Rate = 3 / 8, wr_Reconnects = 0,
      wr_DisconnectEveryMs = 0, wr_Target = []\<rparr>"

lemma sample_workload_ok: "within_range sample_workload" "\<not> refused sample_workload 8 3"
  by (simp_all add: within_range_def sample_workload_def refused_def default_rate_def Workloads_def WorkloadQuiet_def
      WorkloadBurst_def WorkloadChurn_def WorkloadForcedDisconnect_def)

definition sample_plan :: "(go_error + Plan) option" where
  "sample_plan = NewPlan 0 sample_random sample_workload 8 3"

theorem NewPlan_correct_witness:
  "\<exists>plan. sample_plan = Some (Inr plan) \<and> length (pl_Steps plan) = 9 \<and> map sp_Seq (pl_Steps plan) = [1..9]"
proof -
  have "case sample_plan of Some (Inr plan) \<Rightarrow> length (pl_Steps plan) = 9 | _ \<Rightarrow> False" by code_simp
  then obtain plan where p: "sample_plan = Some (Inr plan)" "length (pl_Steps plan) = 9"
    by (auto split: option.splits sum.splits)
  have "map sp_Seq (pl_Steps plan) = [1..9]"
    using NewPlan_correct [OF draws_sample_random sample_workload_ok(1), of 8 3 0] sample_workload_ok(2)
      p(1) [unfolded sample_plan_def] p(2) by simp
  with p show ?thesis by blast
qed

text \<open>The schedule of a churn workload: status writes at the multiples of the period of its rate, a
  spec write every two seconds, a rotation every three, all before the end, and the disconnects at
  an even split of the duration plus a quarter second.\<close>

theorem churn_schedule:
  assumes "draws rn" and "within_range req" and "wr_Name req = WorkloadChurn"
    and "NewPlan huge rn req widgetCount secretCount = Some (Inr plan)"
  shows "times_of StepStatus (pl_Steps plan) =
      multiples (perSecond huge (wr_Rate (pl_Request plan))) (wr_DurationMs (pl_Request plan) * millisecond) \<and>
    times_of StepSpec (pl_Steps plan) = multiples (2 * second) (wr_DurationMs (pl_Request plan) * millisecond) \<and>
    times_of StepSecret (pl_Steps plan) = multiples (3 * second) (wr_DurationMs (pl_Request plan) * millisecond) \<and>
    times_of StepDisconnect (pl_Steps plan) =
      map (\<lambda>i. wr_DurationMs (pl_Request plan) * millisecond * i div (wr_Reconnects (pl_Request plan) + 1) + 250 * millisecond)
        [1..wr_Reconnects (pl_Request plan)]"
proof -
  define req' where "req' = withDefaults req"
  define duration where "duration = wr_DurationMs req' * millisecond"
  define n where "n = wr_Reconnects req'"
  define period where "period = perSecond huge (wr_Rate req')"
  have nr: "\<not> refused req widgetCount secretCount"
    using NewPlan_refused [of req widgetCount secretCount huge rn] assms(4) by auto
  obtain g g' steps steps' where
    w: "workload_steps huge rn req' widgetCount secretCount duration (g, []) = Some (Inr (g', steps))" and
    r: "reconnects duration n steps = Some steps'" and
    p: "NewPlan huge rn req widgetCount secretCount = Some (Inr \<lparr>pl_Request = req', pl_Steps = number_steps (sort_key sp_At steps')\<rparr>)" and
    d: "0 < duration" "duration \<le> 6 * 10 ^ 11" "n \<le> 10 ^ 7" "1 \<le> n"
    by (rule NewPlan_accepted [OF assms(1,2) nr, of huge]) (auto simp: req'_def duration_def n_def)
  have name: "wr_Name req' = WorkloadChurn" using assms(3) by (simp add: req'_def withDefaults_def)
  have "2 \<le> period"
    using rate_in_range [OF assms(2), of huge] nr assms(3) by (simp add: period_def req'_def withDefaults_def refused_def)
  then have "(g', steps) = fold (add rn widgetCount secretCount StepSecret) (multiples (3 * second) duration)
      (fold (add rn widgetCount secretCount StepSpec) (multiples (2 * second) duration)
        (fold (add rn widgetCount secretCount StepStatus) (multiples period duration) (g, [])))"
    using w d(2) name by (simp add: workload_steps_churn period_def [symmetric] every_fold ticks_period second_def)
  from arg_cong [OF this, of "\<lambda>st. times_of _ (snd st)"]
  have t: "times_of k steps = (if k = StepStatus then multiples period duration else
      if k = StepSpec then multiples (2 * second) duration else if k = StepSecret then multiples (3 * second) duration else [])" for k
    by (cases k) (simp_all add: times_fold_add)
  have at_i: "map (reconnect_at duration n) [1..n] = map (\<lambda>i. duration * i div (n + 1) + 250 * millisecond) [1..n]"
    using reconnect_at_bounds(1) [OF d(1,2) _ _ d(3)] by simp
  have mono: "sorted (map (\<lambda>i. duration * i div (n + 1) + 250 * millisecond) [1..n])"
    using d by (auto simp: sorted_iff_nth_mono intro!: zdiv_mono1 mult_left_mono)
  have sm: "sort (multiples q duration) = multiples q duration" if "0 < q" for q
    using sorted_ticks [of q duration q] by (simp add: ticks_period [OF that] sorted_sort_id)
  have all: "times_of k (sort_key sp_At steps') =
      sort (times_of k steps @ (if k = StepDisconnect then map (\<lambda>i. duration * i div (n + 1) + 250 * millisecond) [1..n] else []))" for k
    unfolding at_i [symmetric] using times_reconnects [OF _ r, of k] d(3) by (simp add: times_sort_key)
  have "plan = \<lparr>pl_Request = req', pl_Steps = number_steps (sort_key sp_At steps')\<rparr>" using p assms(4) by simp
  then show ?thesis using \<open>2 \<le> period\<close> sm mono
    by (simp add: all t duration_def [symmetric] n_def [symmetric] period_def [symmetric] second_def sorted_sort_id)
qed

theorem churn_schedule_witness:
  "\<exists>plan. sample_plan = Some (Inr plan) \<and> times_of StepStatus (pl_Steps plan) = [2666666667, 5333333334]"
proof -
  obtain steps where n: "sample_plan = Some (Inr \<lparr>pl_Request = withDefaults sample_workload, pl_Steps = number_steps (sort_key sp_At steps)\<rparr>)"
    unfolding sample_plan_def by (rule NewPlan_accepted [OF draws_sample_random sample_workload_ok, of 0])
  then obtain plan where p: "sample_plan = Some (Inr plan)" by blast
  from trans [OF p [symmetric] n] have r: "pl_Request plan = withDefaults sample_workload" by simp
  have c: "wr_Name sample_workload = WorkloadChurn" by code_simp
  have "multiples (perSecond 0 (wr_Rate (withDefaults sample_workload))) (wr_DurationMs (withDefaults sample_workload) * millisecond) =
      [2666666667, 5333333334]" by code_simp
  with churn_schedule [OF draws_sample_random sample_workload_ok(1) c p [unfolded sample_plan_def]]
  have "times_of StepStatus (pl_Steps plan) = [2666666667, 5333333334]" by (simp only: r)
  with p show ?thesis by blast
qed

text \<open>A forced reconnect can fall on the start of a burst: here the first of two, at two seconds.\<close>

lemma reconnect_hits_burst: "reconnect_at (5250 * millisecond) 2 1 = 2 * second"
  by code_simp

text \<open>C39. A plan may never be returned.  A period that wraps to zero repeats one disconnect for
  ever: \<open>DisconnectEveryMs\<close> is not bounded, and \<open>2^58\<close> milliseconds are a multiple of
  \<open>2^64\<close> nanoseconds.  A positive rate of \<open>2^-34\<close> overflows the conversion to \<open>int64\<close>; where
  that gives the least \<open>int64\<close>, status writes alternate between it and zero.\<close>

definition zero_period :: WorkloadRequest where
  "zero_period = sample_workload\<lparr>wr_Name := WorkloadForcedDisconnect, wr_DisconnectEveryMs := 2 ^ 58\<rparr>"

definition tiny_rate :: WorkloadRequest where
  "tiny_rate = sample_workload\<lparr>wr_Rate := 1 / 2 ^ 34\<rparr>"

theorem plan_may_not_return:
  assumes "1 \<le> widgetCount" and "1 \<le> secretCount"
  shows "NewPlan huge rn zero_period widgetCount secretCount = None \<and>
    NewPlan (- (2 ^ 63)) rn tiny_rate widgetCount secretCount = None"
proof
  have z: "wr_Name (withDefaults zero_period) = WorkloadForcedDisconnect" "wr_Target (withDefaults zero_period) = ''all''"
    "wr_DurationMs (withDefaults zero_period) = 7000" "\<not> wr_Rate (withDefaults zero_period) > 200"
    "wrap64 (wr_DisconnectEveryMs (withDefaults zero_period) * millisecond) = 0" "wrap64 (7000 * millisecond) = 7000000000" by code_simp+
  have "every rn widgetCount secretCount 7000000000 0 StepDisconnect = (\<lambda>_. None)"
    unfolding every_def by (rule ext, rule for_ticks_never [of "{0}"]) (simp_all add: wrap64_def)
  then show "NewPlan huge rn zero_period widgetCount secretCount = None"
    using assms z by (simp add: NewPlan_def Let_def workload_steps_forced)
next
  have t: "wr_Name (withDefaults tiny_rate) = WorkloadChurn" "wr_Target (withDefaults tiny_rate) = ''all''"
    "wr_DurationMs (withDefaults tiny_rate) = 7000" "\<not> wr_Rate (withDefaults tiny_rate) > 200"
    "perSecond (- (2 ^ 63)) (wr_Rate (withDefaults tiny_rate)) = - (2 ^ 63)" "wrap64 (7000 * millisecond) = 7000000000" by code_simp+
  have "every rn widgetCount secretCount 7000000000 (- (2 ^ 63)) StepStatus = (\<lambda>_. None)"
    unfolding every_def by (rule ext, rule for_ticks_never [of "{0, - (2 ^ 63)}"]) (simp_all add: wrap64_def)
  then show "NewPlan (- (2 ^ 63)) rn tiny_rate widgetCount secretCount = None"
    using assms t by (simp add: NewPlan_def Let_def workload_steps_churn)
qed

theorem plan_may_not_return_witness:
  "NewPlan 0 sample_random zero_period 8 3 = None \<and> NewPlan (- (2 ^ 63)) sample_random tiny_rate 8 3 = None"
  using plan_may_not_return [of 8 3 0 sample_random] plan_may_not_return [of 8 3 "- (2 ^ 63)" sample_random] by simp

end
