(* ===== verification/Host.thy ===== *)
theory Host
  imports Workload
begin

text \<open>
  The rest of the comparison host, \<open>gateway/kube/examples/comparison/host.go\<close>: its
  construction and closing, the login and the page configuration, and the administration
  endpoints that drive the workload.  The theorems say what a run of a plan writes and how it is
  accounted for, who reaches the administration endpoints, and that a host that could not be
  built leaves no namespace behind.
\<close>

section \<open>Construction\<close>

record Config =
  cg_hasCluster :: bool
  cg_NamespacePrefix :: string
  cg_Widgets :: int
  cg_Secrets :: int
  cg_ViewerToken :: string
  cg_RefusedToken :: string
  cg_ReauthorizeEvery :: int

definition config_defaults :: "Config \<Rightarrow> Config" where
  "config_defaults cfg =
     cfg\<lparr>cg_Widgets := (if cg_Widgets cfg \<le> 0 then 8 else cg_Widgets cfg),
         cg_Secrets := (if cg_Secrets cfg \<le> 0 then 3 else cg_Secrets cfg),
         cg_NamespacePrefix := (if cg_NamespacePrefix cfg = [] then ''krm-compare'' else cg_NamespacePrefix cfg),
         cg_ReauthorizeEvery := (if cg_ReauthorizeEvery cfg \<le> 0 then 5 * second else cg_ReauthorizeEvery cfg)\<rparr>"

record Host =
  hh_cfg :: Config
  hh_namespace :: string
  hh_state :: host_state

definition host_objects :: "Host \<Rightarrow> objects" where
  "host_objects h = \<lparr>oj_namespace = hh_namespace h, oj_widgets = cg_Widgets (hh_cfg h), oj_secrets = cg_Secrets (hh_cfg h)\<rparr>"

definition host_config_of :: "Config \<Rightarrow> string \<Rightarrow> host_config" where
  "host_config_of cfg ns =
     \<lparr>hg_namespace = ns, hg_ViewerToken = cg_ViewerToken cfg, hg_RefusedToken = cg_RefusedToken cfg\<rparr>"

text \<open>The namespaces of the cluster, and the answers of the client constructors and of the routes.\<close>

record 's namespaces =
  na_Create :: "string \<Rightarrow> 's \<Rightarrow> (go_error + string) \<times> 's"
  na_Delete :: "string \<Rightarrow> 's \<Rightarrow> go_error option \<times> 's"

record host_inputs =
  hi_clients :: "go_error option list"
  hi_polls :: "crd_poll list"
  hi_routes :: "go_error option"
  hi_now :: int

fun first_error :: "go_error option list \<Rightarrow> go_error option" where
  "first_error [] = None"
| "first_error (None # es) = first_error es"
| "first_error (Some err # es) = Some err"

definition Host_Close :: "'s namespaces \<Rightarrow> Host \<Rightarrow> 's \<Rightarrow> go_error option \<times> Host \<times> 's" where
  "Host_Close na h s =
     (let h = h\<lparr>hh_state := (hh_state h)\<lparr>ho_conns := snd (conn_cancel ''all'' (ho_conns (hh_state h)))\<rparr>\<rparr> in
      case na_Delete na (hh_namespace h) s of
        (Some err, s) \<Rightarrow> (Some (ErrWrap (''delete namespace '' @ hh_namespace h) err), h, s)
      | (None, s) \<Rightarrow> (None, h, s))"

definition new_host :: "Config \<Rightarrow> string \<Rightarrow> int \<Rightarrow> Host" where
  "new_host cfg ns now =
     \<lparr>hh_cfg = cfg, hh_namespace = ns,
      hh_state = \<lparr>ho_metrics = NewMetrics now, ho_pending = [], ho_conns = newConnections\<rparr>\<rparr>"

text \<open>\<open>None\<close> while the wait for the Widget definition goes on.\<close>

definition Host_New ::
    "(go_error \<Rightarrow> bool) \<Rightarrow> 's cluster \<Rightarrow> 's namespaces \<Rightarrow> host_inputs \<Rightarrow> Config \<Rightarrow> 's \<Rightarrow> (go_error + Host) option \<times> 's" where
  "Host_New isAlreadyExists cl na inp cfg0 s =
     (if \<not> cg_hasCluster cfg0 then (Some (Inl (ErrText ''comparison: a cluster configuration is required'')), s)
      else
        (let cfg = config_defaults cfg0 in
         case tokens_error (host_config_of cfg []) of
           Some err \<Rightarrow> (Some (Inl err), s)
         | None \<Rightarrow>
             (case first_error (hi_clients inp) of
                Some err \<Rightarrow> (Some (Inl err), s)
              | None \<Rightarrow>
                  (case ensureWidgetCRD isAlreadyExists cl (hi_polls inp) s of
                     (None, s) \<Rightarrow> (None, s)
                   | (Some (Some err), s) \<Rightarrow> (Some (Inl err), s)
                   | (Some None, s) \<Rightarrow>
                       (case na_Create na (cg_NamespacePrefix cfg @ ''-'') s of
                          (Inl err, s) \<Rightarrow> (Some (Inl (ErrWrap ''create the scratch namespace'' err)), s)
                        | (Inr ns, s) \<Rightarrow>
                            (let h = new_host cfg ns (hi_now inp) in
                             case create cl (host_objects h) s of
                               (Some err, s) \<Rightarrow> (case Host_Close na h s of (_, _, s) \<Rightarrow> (Some (Inl err), s))
                             | (None, s) \<Rightarrow>
                                 (case hi_routes inp of
                                    Some err \<Rightarrow> (case Host_Close na h s of (_, _, s) \<Rightarrow> (Some (Inl err), s))
                                  | None \<Rightarrow> (Some (Inr h), s))))))))"

section \<open>The command\<close>

text \<open>
  \<open>run\<close> of \<open>cmd/compare\<close>: the errors of the kubeconfig, the listener, the certificate and the
  TLS listener (unless TLS is off), and what each server returned, in the order they ended.  The
  host is closed on every path after its construction.
\<close>

record compare_inputs =
  ci_kubeconfig :: "go_error option"
  ci_host :: host_inputs
  ci_listen :: "go_error option"
  ci_tls :: "(go_error option \<times> go_error option) option"
  ci_served :: "go_error option list"

definition ErrServerClosed :: go_error where
  "ErrServerClosed = ErrSentinel ''http: Server closed''"

fun first_serve_error :: "go_error option list \<Rightarrow> go_error option" where
  "first_serve_error [] = None"
| "first_serve_error (None # rs) = first_serve_error rs"
| "first_serve_error (Some err # rs) =
     (if errors_Is err ErrServerClosed = Some True then first_serve_error rs else Some (ErrWrap ''serve'' err))"

definition compare_serve :: "compare_inputs \<Rightarrow> go_error option" where
  "compare_serve ci =
     (case ci_listen ci of
        Some err \<Rightarrow> Some (ErrWrap ''listen'' err)
      | None \<Rightarrow>
          (case ci_tls ci of
             Some (Some err, _) \<Rightarrow> Some err
           | Some (None, Some err) \<Rightarrow> Some (ErrWrap ''listen'' err)
           | _ \<Rightarrow> first_serve_error (ci_served ci)))"

definition compare_run ::
    "(go_error \<Rightarrow> bool) \<Rightarrow> 's cluster \<Rightarrow> 's namespaces \<Rightarrow> compare_inputs \<Rightarrow> Config \<Rightarrow> 's \<Rightarrow> go_error option option \<times> 's" where
  "compare_run isAlreadyExists cl na ci cfg s =
     (case ci_kubeconfig ci of
        Some err \<Rightarrow> (Some (Some (ErrWrap ''kubeconfig'' err)), s)
      | None \<Rightarrow>
          (case Host_New isAlreadyExists cl na (ci_host ci) (cfg\<lparr>cg_hasCluster := True\<rparr>) s of
             (None, s) \<Rightarrow> (None, s)
           | (Some (Inl err), s) \<Rightarrow> (Some (Some (ErrWrap ''host'' err)), s)
           | (Some (Inr h), s) \<Rightarrow>
               (case Host_Close na h s of (_, _, s) \<Rightarrow> (Some (compare_serve ci), s))))"

section \<open>Stream routes\<close>

text \<open>What a stream route does before and after the gateway's handler.\<close>

definition route_enter :: "string \<Rightarrow> host_state \<Rightarrow> nat \<times> host_state" where
  "route_enter route st =
     (let prefix = ''gateway.'' @ route in
      case conn_open ''gateway'' (ho_conns st) of
        (i, conns) \<Rightarrow>
          (i, st\<lparr>ho_metrics := Metrics_Gauge (prefix @ ''.sse_active'') 1 (Metrics_Add (prefix @ ''.http_requests'') 1 (ho_metrics st)),
                 ho_conns := conns\<rparr>))"

definition route_leave :: "string \<Rightarrow> nat \<Rightarrow> host_state \<Rightarrow> host_state" where
  "route_leave route i st =
     st\<lparr>ho_metrics := Metrics_Gauge (''gateway.'' @ route @ ''.sse_active'') (- 1) (ho_metrics st),
        ho_conns := conn_release i (ho_conns st)\<rparr>"

section \<open>The page\<close>

text \<open>
  The cookie that \<open>login\<close> sets, whether it is marked secure, and where it redirects.  \<open>Encode\<close>
  writes the parameters in the order of their names.
\<close>

definition login :: "host_config \<Rightarrow> bool \<Rightarrow> Values \<Rightarrow> string \<times> bool \<times> string" where
  "login cf tls q =
     (let params = filter (\<lambda>name. Values_Get q name \<in> set [''bundle'', ''shared'']) [''entry'', ''variant''];
          query = join_with CHR ''&'' (map (\<lambda>name. name @ ''='' @ Values_Get q name) params);
          target = ''/examples/comparison/index.html''
      in (hg_ViewerToken cf, tls, if params = [] then target else target @ ''?'' @ query))"

record PageConfig =
  pc_Namespace :: string
  pc_Group :: string
  pc_Widgets :: "string list"
  pc_Secrets :: "string list"
  pc_Routes :: "Route list"
  pc_RefusedToken :: string
  pc_Workloads :: "string list"

definition page_config :: "Host \<Rightarrow> PageConfig" where
  "page_config h =
     \<lparr>pc_Namespace = hh_namespace h, pc_Group = WidgetGroup,
      pc_Widgets = map WidgetName [0..cg_Widgets (hh_cfg h) - 1], pc_Secrets = map SecretName [0..cg_Secrets (hh_cfg h) - 1],
      pc_Routes = Routes, pc_RefusedToken = cg_RefusedToken (hh_cfg h), pc_Workloads = Workloads\<rparr>"

definition Host_config :: "Host \<Rightarrow> credentials \<Rightarrow> Metrics \<Rightarrow> ((int \<times> string) + PageConfig) \<times> Metrics" where
  "Host_config h cr m =
     (case sessionOf (host_config_of (hh_cfg h) (hh_namespace h)) ''page'' cr m of
        (None, m) \<Rightarrow> (Inl (401, ''sign in first''), m)
      | (Some s, m) \<Rightarrow>
          (if hs_refused s then (Inl (403, ''this session may not read these objects''), m) else (Inr (page_config h), m)))"

definition countingBody_Read :: "string \<Rightarrow> nat \<Rightarrow> Metrics \<Rightarrow> Metrics" where
  "countingBody_Read key n m = (if n > 0 then Metrics_Add key (word_of_nat n) m else m)"

section \<open>Administration\<close>

text \<open>
  A request to an administration endpoint, with its body decoded or not, and the replies.  The
  world is the host, whether another request holds its workload lock, and the cluster.  One call is
  one step: what other requests do to the connections during a run is not interleaved with it.
\<close>

datatype admin_call =
    GetMetrics
  | ResetMetrics
  | ForceDisconnect string
  | RunWorkload "WorkloadRequest option"
  | ResetObjects
  | CompetingWrite "(string \<times> string) option"
  | GetState

datatype admin_reply =
    AdminRefused int string
  | HttpError int go_error
  | MetricsReply Snapshot
  | ClosedReply nat
  | WorkloadReply WorkloadResult
  | ResetReply
  | WrittenReply
  | StateReply "StateObject list"

record 's host_world =
  hw_host :: Host
  hw_locked :: bool
  hw_cluster :: 's

record ('g, 's) admin_env =
  ae_cluster :: "'s cluster"
  ae_random :: "'g random"
  ae_huge :: int
  ae_clock :: clock
  ae_started :: int
  ae_elapsed :: int
  ae_now :: int

definition map_metrics :: "(Metrics \<Rightarrow> Metrics) \<Rightarrow> 's host_world \<Rightarrow> 's host_world" where
  "map_metrics f w = w\<lparr>hw_host := (hw_host w)\<lparr>hh_state := (hh_state (hw_host w))\<lparr>ho_metrics := f (ho_metrics (hh_state (hw_host w)))\<rparr>\<rparr>\<rparr>"

definition metrics_of :: "'s host_world \<Rightarrow> Metrics" where
  "metrics_of w = ho_metrics (hh_state (hw_host w))"

text \<open>A run writes to the cluster and, through its callback, closes connections of the host.\<close>

definition lift_cluster :: "'s cluster \<Rightarrow> ('s \<times> 't) cluster" where
  "lift_cluster cl =
     \<lparr>ck_Create = (\<lambda>client object (s, t). case ck_Create cl client object s of (r, s) \<Rightarrow> (r, (s, t))),
      ck_Patch = (\<lambda>client name body sub (s, t). case ck_Patch cl client name body sub s of (r, s) \<Rightarrow> (r, (s, t))),
      ck_List = (\<lambda>client (s, t). case ck_List cl client s of (r, s) \<Rightarrow> (r, (s, t)))\<rparr>"

definition host_disconnect :: "string \<Rightarrow> host_state \<Rightarrow> nat \<times> host_state" where
  "host_disconnect target st =
     (case disconnect target (ho_metrics st) (ho_conns st) of
        (n, m, c) \<Rightarrow> (n, st\<lparr>ho_metrics := m, ho_conns := c\<rparr>))"

definition runWorkload :: "('g, 's) admin_env \<Rightarrow> WorkloadRequest option \<Rightarrow> 's host_world \<Rightarrow> admin_reply option \<times> 's host_world" where
  "runWorkload ae body w =
     (case body of
        None \<Rightarrow> (Some (HttpError 400 (ErrText ''invalid workload request'')), w)
      | Some req \<Rightarrow>
          (case NewPlan (ae_huge ae) (ae_random ae) req (cg_Widgets (hh_cfg (hw_host w))) (cg_Secrets (hh_cfg (hw_host w))) of
             None \<Rightarrow> (None, w)
           | Some (Inl err) \<Rightarrow> (Some (HttpError 400 err), w)
           | Some (Inr plan) \<Rightarrow>
               (if hw_locked w then (Some (HttpError 409 (ErrText ''a workload is already running'')), w)
                else
                  (let w = map_metrics (Metrics_Add (''admin.workloads.'' @ wr_Name (pl_Request plan)) 1) w in
                   case workload_run (lift_cluster (ae_cluster ae))
                          (\<lambda>target (s, st). case host_disconnect target st of (n, st) \<Rightarrow> (int n, (s, st)))
                          (host_objects (hw_host w)) (ae_clock ae) (ae_started ae) (ae_elapsed ae) plan
                          (hw_cluster w, hh_state (hw_host w)) of
                     (result, (s, st)) \<Rightarrow>
                       (Some (WorkloadReply result), w\<lparr>hw_host := (hw_host w)\<lparr>hh_state := st\<rparr>, hw_cluster := s\<rparr>)))))"

definition competingWrite :: "('g, 's) admin_env \<Rightarrow> (string \<times> string) option \<Rightarrow> 's host_world \<Rightarrow> admin_reply \<times> 's host_world" where
  "competingWrite ae body w =
     (case body of
        None \<Rightarrow> (HttpError 400 (ErrText ''name and note are required''), w)
      | Some (name, note) \<Rightarrow>
          (if name = [] then (HttpError 400 (ErrText ''name and note are required''), w)
           else case patch (ae_cluster ae) (widgetClient (host_objects (hw_host w))) name
                       [(''spec'', JObj [(''note'', JStr note)])] [] (hw_cluster w) of
             (Some err, s) \<Rightarrow> (HttpError 502 err, w\<lparr>hw_cluster := s\<rparr>)
           | (None, s) \<Rightarrow> (WrittenReply, w\<lparr>hw_cluster := s\<rparr>)))"

definition admin_endpoint :: "('g, 's) admin_env \<Rightarrow> admin_call \<Rightarrow> 's host_world \<Rightarrow> admin_reply option \<times> 's host_world" where
  "admin_endpoint ae call w =
     (case call of
        GetMetrics \<Rightarrow> (Some (MetricsReply (Metrics_Snapshot (ae_now ae) (metrics_of w))), w)
      | ResetMetrics \<Rightarrow>
          (let w = map_metrics (Metrics_Reset (ae_now ae)) w
           in (Some (MetricsReply (Metrics_Snapshot (ae_now ae) (metrics_of w))), w))
      | ForceDisconnect target \<Rightarrow>
          (if target \<notin> set [''native'', ''gateway'', ''all''] then
             (Some (HttpError 400 (ErrText ''target must be native, gateway or all'')), w)
           else case host_disconnect target (hh_state (hw_host w)) of
             (n, st) \<Rightarrow> (Some (ClosedReply n), w\<lparr>hw_host := (hw_host w)\<lparr>hh_state := st\<rparr>\<rparr>))
      | RunWorkload body \<Rightarrow> runWorkload ae body w
      | ResetObjects \<Rightarrow>
          (case reset (ae_cluster ae) (host_objects (hw_host w)) (hw_cluster w) of
             (Some err, s) \<Rightarrow> (Some (HttpError 502 err), w\<lparr>hw_cluster := s\<rparr>)
           | (None, s) \<Rightarrow> (Some ResetReply, w\<lparr>hw_cluster := s\<rparr>))
      | CompetingWrite body \<Rightarrow> (case competingWrite ae body w of (reply, w) \<Rightarrow> (Some reply, w))
      | GetState \<Rightarrow>
          (case state (ae_cluster ae) (host_objects (hw_host w)) (hw_cluster w) of
             (Inl err, s) \<Rightarrow> (Some (HttpError 502 err), w\<lparr>hw_cluster := s\<rparr>)
           | (Inr objs, s) \<Rightarrow> (Some (StateReply objs), w\<lparr>hw_cluster := s\<rparr>)))"

definition serve_admin ::
    "('g, 's) admin_env \<Rightarrow> credentials \<Rightarrow> admin_call \<Rightarrow> 's host_world \<Rightarrow> admin_reply option \<times> 's host_world" where
  "serve_admin ae cr call w =
     (case admin (host_config_of (hh_cfg (hw_host w)) (hh_namespace (hw_host w))) cr (metrics_of w) of
        (Some (code, msg), m) \<Rightarrow> (Some (AdminRefused code msg), map_metrics (\<lambda>_. m) w)
      | (None, m) \<Rightarrow> admin_endpoint ae call (map_metrics (\<lambda>_. m) w))"

section \<open>Running a plan\<close>

text \<open>The writes of one step, and a run against a cluster that keeps them.\<close>

definition step_writes :: "objects \<Rightarrow> 64 word \<Rightarrow> Step \<Rightarrow> cluster_write list" where
  "step_writes o' seed step =
     (case sp_Kind step of
        StepSpec \<Rightarrow> [Patched (widgetClient o') (WidgetName (sp_Object step)) (json_Marshal (JObj (spec_body step))) []]
      | StepStatus \<Rightarrow>
          [Patched (widgetClient o') (WidgetName (sp_Object step)) (json_Marshal (JObj (status_body_of step))) [''status'']]
      | StepSecret \<Rightarrow> [Patched (secretClient o') (SecretName (sp_Object step)) (json_Marshal (JObj (secret_body seed step))) []]
      | StepDisconnect \<Rightarrow> [])"

definition traced_disc :: "(string \<Rightarrow> 's \<Rightarrow> int \<times> 's) \<Rightarrow> string \<Rightarrow> 's \<times> cluster_write list \<Rightarrow> int \<times> 's \<times> cluster_write list" where
  "traced_disc disc target st = (case st of (s, ws) \<Rightarrow> (case disc target s of (n, s) \<Rightarrow> (n, (s, ws))))"

definition total_of :: "tally \<Rightarrow> int" where
  "total_of t = tally_of t StepSpec + tally_of t StepStatus + tally_of t StepSecret + tally_of t StepDisconnect"

lemma tally_of_count_up: "tally_of (count_up k t) j = tally_of t j + (if j = k then 1 else 0)"
  by (simp add: tally_of_def count_up_def)

lemma total_of_count_up: "total_of (count_up k t) = total_of t + 1"
  by (cases k) (simp_all add: total_of_def tally_of_count_up)

definition of_kind :: "StepKind \<Rightarrow> Step list \<Rightarrow> int" where
  "of_kind k steps = int (length (filter (\<lambda>s. sp_Kind s = k) steps))"

lemma of_kind_simps [simp]:
  "of_kind k [] = 0" "of_kind k (s # steps) = (if sp_Kind s = k then 1 else 0) + of_kind k steps"
  by (simp_all add: of_kind_def)

lemma of_kind_nonneg: "0 \<le> of_kind k steps"
  by (simp add: of_kind_def)

lemma of_kind_take: "of_kind k (take n steps) \<le> of_kind k steps"
  by (induction steps arbitrary: n) (auto simp: take_Cons of_kind_nonneg split: nat.splits)

lemma Counts_of_kind: "tally_of (Counts plan) k = of_kind k (pl_Steps plan)"
proof -
  have "tally_of (fold (\<lambda>s. count_up (sp_Kind s)) steps t) k = tally_of t k + of_kind k steps" for steps t
    by (induction steps arbitrary: t) (auto simp: tally_of_count_up)
  then show ?thesis by (simp add: Counts_def tally_of_def)
qed

text \<open>What a step leaves of the tallies, and what it sends.\<close>

definition accounts :: "WorkloadResult \<Rightarrow> tally \<times> tally \<times> go_error list" where
  "accounts r = (rs_Plan r, rs_Done r, rs_Errors r)"

lemma accounts_late [simp]: "accounts (late wait r) = accounts r"
  by (simp add: accounts_def late_def)

lemma run_step_traced:
  assumes "run_step (traced cl) (traced_disc disc) o' req step result (s, ws) = (err, result', (s', ws'))"
  shows "ws' = ws @ step_writes o' (wr_Seed req) step \<and> accounts result' = accounts result"
  using assms
  by (cases "sp_Kind step")
    (auto simp: run_step_def patch_def patchVersion_def traced_def traced_disc_def step_writes_def accounts_def
      split: prod.splits sum.splits)

lemma accounts_after_step:
  "accounts (after_step k err r) =
     (case accounts r of (p, d, es) \<Rightarrow> (case err of None \<Rightarrow> (p, count_up k d, es) | Some e \<Rightarrow> (p, d, es @ [e])))"
  by (simp add: accounts_def after_step_def split: option.split)

text \<open>
  \<open>n\<close> steps were carried out.  Each is done or has an error; an interrupted run has one error
  more, that of the context.
\<close>

definition progress :: "objects \<Rightarrow> 64 word \<Rightarrow> Step list \<Rightarrow> tally \<times> tally \<times> go_error list \<Rightarrow> cluster_write list \<Rightarrow>
    bool \<Rightarrow> tally \<times> tally \<times> go_error list \<Rightarrow> cluster_write list \<Rightarrow> nat \<Rightarrow> bool" where
  "progress o' seed steps a ws aborted a' ws' n \<longleftrightarrow>
     ws' = ws @ concat (map (step_writes o' seed) (take n steps)) \<and>
     fst a' = fst a \<and>
     (\<forall>k. tally_of (fst (snd a')) k \<le> tally_of (fst (snd a)) k + of_kind k (take n steps)) \<and>
     total_of (fst (snd a')) + int (length (snd (snd a'))) =
       total_of (fst (snd a)) + int (length (snd (snd a))) + int n + (if aborted then 1 else 0)"

lemma progress_Cons:
  assumes "progress o' seed steps a1 (ws @ step_writes o' seed step) aborted a' ws' n"
    and "a1 = (case a of (p, d, es) \<Rightarrow> (case err of None \<Rightarrow> (p, count_up (sp_Kind step) d, es) | Some e \<Rightarrow> (p, d, es @ [e])))"
  shows "progress o' seed (step # steps) a ws aborted a' ws' (Suc n)"
proof -
  obtain p d es where a: "a = (p, d, es)" by (cases a)
  from assms show ?thesis unfolding progress_def a
    by (cases err) (auto simp: total_of_count_up tally_of_count_up add.commute add.left_commute intro: order_trans)
qed

lemma run_from_progress:
  "run_from (traced cl) (traced_disc disc) o' req clock i steps result (s, ws) = (aborted, result', (s', ws')) \<Longrightarrow>
    \<exists>n \<le> length steps. progress o' (wr_Seed req) steps (accounts result) ws aborted (accounts result') ws' n \<and>
      (aborted \<longrightarrow> n < length steps \<and> (\<exists>err. clock (i + n) = (fst (clock (i + n)), Some err) \<and> 0 < fst (clock (i + n)))) \<and>
      (\<not> aborted \<longrightarrow> n = length steps)"
proof (induction steps arbitrary: i result s ws)
  case Nil
  then show ?case by (simp add: progress_def)
next
  case (Cons step steps)
  obtain wait interrupt where c: "clock i = (wait, interrupt)" by fastforce
  define result1 where "result1 = (if wait > 0 then result else late wait result)"
  have r1: "accounts result1 = accounts result" by (simp add: result1_def)
  show ?case
  proof (cases "if wait > 0 then interrupt else None")
    case (Some err)
    then have "0 < wait" "interrupt = Some err" by (auto split: if_splits)
    with Cons.prems c show ?thesis by (intro exI [of _ 0]) (auto simp: progress_def accounts_def)
  next
    case None
    obtain err result2 s2 ws2 where r2: "run_step (traced cl) (traced_disc disc) o' req step result1 (s, ws) = (err, result2, (s2, ws2))"
      by (metis prod.exhaust)
    from run_step_traced [OF r2] have l2: "ws2 = ws @ step_writes o' (wr_Seed req) step" "accounts result2 = accounts result"
      using r1 by simp_all
    have "run_from (traced cl) (traced_disc disc) o' req clock (Suc i) steps (after_step (sp_Kind step) err result2) (s2, ws2) =
        (aborted, result', (s', ws'))"
      using Cons.prems None by (simp add: c Let_def result1_def [symmetric] r2)
    from Cons.IH [OF this] obtain n where n: "n \<le> length steps"
      "progress o' (wr_Seed req) steps (accounts (after_step (sp_Kind step) err result2)) ws2 aborted (accounts result') ws' n"
      "aborted \<longrightarrow> n < length steps \<and> (\<exists>err. clock (Suc i + n) = (fst (clock (Suc i + n)), Some err) \<and> 0 < fst (clock (Suc i + n)))"
      "\<not> aborted \<longrightarrow> n = length steps" by blast
    from progress_Cons [OF n(2) [unfolded l2(1)] accounts_after_step [of "sp_Kind step" err result2, unfolded l2(2)]]
    show ?thesis using n(1,3,4) by (intro exI [of _ "Suc n"]) simp
  qed
qed

text \<open>C37. A run sends exactly the writes of the steps it carried out, in the order of the plan, and
  accounts for each of them: done or an error.  It stops early only when the context ended a
  pause, which is one error more, and no kind is ever done more often than planned.\<close>

theorem run_accounts:
  assumes "workload_run (traced cl) (traced_disc disc) o' clock started elapsed plan (s, []) = (result, (s', ws))"
  shows "rs_Plan result = Counts plan \<and>
    (\<forall>k. tally_of (rs_Done result) k \<le> tally_of (rs_Plan result) k) \<and>
    (\<exists>n \<le> length (pl_Steps plan).
       ws = concat (map (step_writes o' (wr_Seed (pl_Request plan))) (take n (pl_Steps plan))) \<and>
       (if n = length (pl_Steps plan) then total_of (rs_Done result) + int (length (rs_Errors result)) = int n
        else total_of (rs_Done result) + int (length (rs_Errors result)) = int n + 1 \<and>
          (\<exists>err. snd (clock n) = Some err \<and> 0 < fst (clock n))))"
proof -
  define r0 where "r0 = start_result started plan"
  obtain aborted r1 s1 ws1 where f: "run_from (traced cl) (traced_disc disc) o' (pl_Request plan) clock 0 (pl_Steps plan) r0 (s, []) =
      (aborted, r1, (s1, ws1))" by (metis prod.exhaust)
  have a: "accounts result = accounts r1" "ws = ws1"
    using assms f by (auto simp: workload_run_def r0_def accounts_def split: bool.splits)
  have z: "accounts r0 = (Counts plan, (\<lambda>_. None), [])" "tally_of (\<lambda>_. None) k = 0" "total_of (\<lambda>_. None) = 0" for k
    by (simp_all add: accounts_def r0_def start_result_def tally_of_def total_of_def)
  from run_from_progress [OF f] obtain n where n: "n \<le> length (pl_Steps plan)"
    "progress o' (wr_Seed (pl_Request plan)) (pl_Steps plan) (Counts plan, (\<lambda>_. None), []) [] aborted (accounts result) ws n"
    "aborted \<longrightarrow> n < length (pl_Steps plan) \<and> (\<exists>err. clock n = (fst (clock n), Some err) \<and> 0 < fst (clock n))"
    "\<not> aborted \<longrightarrow> n = length (pl_Steps plan)" unfolding z(1) a by auto
  then have "rs_Plan result = Counts plan" "ws = concat (map (step_writes o' (wr_Seed (pl_Request plan))) (take n (pl_Steps plan)))"
    "\<And>k. tally_of (rs_Done result) k \<le> of_kind k (take n (pl_Steps plan))"
    "total_of (rs_Done result) + int (length (rs_Errors result)) = int n + (if aborted then 1 else 0)"
    by (simp_all add: progress_def accounts_def z)
  moreover from this(3) have "tally_of (rs_Done result) k \<le> of_kind k (pl_Steps plan)" for k
    by (rule order_trans [OF _ of_kind_take])
  moreover have "\<exists>err. snd (clock n) = Some err \<and> 0 < fst (clock n)" if aborted using n(3) that by (metis snd_conv)
  ultimately show ?thesis using n(1,3,4)
    by (cases aborted) (auto simp: Counts_of_kind intro!: exI [of _ n])
qed

definition sample_objects :: objects where
  "sample_objects = \<lparr>oj_namespace = ''ns'', oj_widgets = 8, oj_secrets = 3\<rparr>"

text \<open>A cluster that takes every patch of a Widget and refuses those of Secrets.\<close>

definition widgets_only :: "unit cluster" where
  "widgets_only =
     \<lparr>ck_Create = (\<lambda>client object s. (Inr object, s)),
      ck_Patch = (\<lambda>client name body sub s. (if client = widgetClient sample_objects then Inr [] else Inl (ErrText ''no''), s)),
      ck_List = (\<lambda>client s. (Inr [], s))\<rparr>"

definition sample_steps :: Plan where
  "sample_steps =
     \<lparr>pl_Request = withDefaults sample_workload,
      pl_Steps = [(step_at 1 StepSpec 0)\<lparr>sp_Seq := 1\<rparr>, (step_at 2 StepSecret 1)\<lparr>sp_Seq := 2\<rparr>,
        (step_at 3 StepDisconnect 0)\<lparr>sp_Seq := 3\<rparr>, (step_at 4 StepStatus 2)\<lparr>sp_Seq := 4\<rparr>]\<rparr>"

text \<open>The context ends the pause before the fourth step.\<close>

definition sample_clock :: clock where
  "sample_clock i = (if i = 3 then (5, Some Canceled) else (0, None))"

definition sample_run :: "WorkloadResult \<times> unit \<times> cluster_write list" where
  "sample_run =
     workload_run (traced widgets_only) (traced_disc (\<lambda>target s. (2, s))) sample_objects sample_clock 0 9 sample_steps ((), [])"

theorem run_accounts_witness:
  "total_of (rs_Done (fst sample_run)) = 2 \<and> length (rs_Errors (fst sample_run)) = 2 \<and>
   (\<exists>n \<le> 4. snd (snd sample_run) =
      concat (map (step_writes sample_objects (wr_Seed (pl_Request sample_steps))) (take n (pl_Steps sample_steps))))"
proof -
  have "widgetClient sample_objects \<noteq> secretClient sample_objects" by code_simp
  then have v: "total_of (rs_Done (fst sample_run)) = 2" "length (rs_Errors (fst sample_run)) = 2" "length (pl_Steps sample_steps) = 4"
    by (simp_all add: sample_run_def workload_run_def sample_steps_def number_steps_def step_at_def sample_clock_def start_result_def late_def
        run_step_def patch_def patchVersion_def traced_def widgets_only_def traced_disc_def after_step_def total_of_count_up
        total_of_def tally_of_count_up tally_of_def [of "\<lambda>_. None"] numeral_nat)
  obtain result s' ws where r: "sample_run = (result, (s', ws))" by (metis prod.exhaust)
  from run_accounts [OF r [unfolded sample_run_def]] v(3) have "\<exists>n \<le> 4. ws =
      concat (map (step_writes sample_objects (wr_Seed (pl_Request sample_steps))) (take n (pl_Steps sample_steps)))" by auto
  then have "\<exists>n \<le> 4. snd (snd sample_run) =
      concat (map (step_writes sample_objects (wr_Seed (pl_Request sample_steps))) (take n (pl_Steps sample_steps)))"
    by (simp only: r snd_conv)
  with v(1,2) show ?thesis by blast
qed

section \<open>Administration is guarded\<close>

text \<open>The session of a request is its header, and its cookie only when it has no header.\<close>

definition token_of :: "credentials \<Rightarrow> string" where
  "token_of cr = (if cr_Header cr = [] then (case cr_Cookie cr of None \<Rightarrow> [] | Some v \<Rightarrow> v) else cr_Header cr)"

lemma admin_cases:
  "admin cf cr m =
     (if token_of cr = hg_ViewerToken cf then (None, Metrics_Add ''sessions.admin.viewer'' 1 m)
      else if token_of cr = hg_RefusedToken cf then (Some (403, ''not an administrator''), Metrics_Add ''sessions.admin.refused'' 1 m)
      else (Some (401, ''sign in first''), Metrics_Add ''sessions.admin.missing'' 1 m))"
  by (simp add: admin_def sessionOf_def token_of_def Let_def)

text \<open>An administration request without the viewer's session does nothing: it is answered 401 or
  403, no request goes to the cluster, no connection is closed, no workload starts, and of the
  host only a session counter changes.  The viewer's requests reach the endpoint.\<close>

theorem admin_guarded:
  "serve_admin ae cr call w =
     (if token_of cr = cg_ViewerToken (hh_cfg (hw_host w)) then
        admin_endpoint ae call (map_metrics (Metrics_Add ''sessions.admin.viewer'' 1) w)
      else if token_of cr = cg_RefusedToken (hh_cfg (hw_host w)) then
        (Some (AdminRefused 403 ''not an administrator''), map_metrics (Metrics_Add ''sessions.admin.refused'' 1) w)
      else (Some (AdminRefused 401 ''sign in first''), map_metrics (Metrics_Add ''sessions.admin.missing'' 1) w))"
  by (simp add: serve_admin_def admin_cases host_config_of_def metrics_of_def map_metrics_def)

section \<open>Construction cleans up\<close>

text \<open>The scratch namespaces that were created and that were asked to be deleted.\<close>

datatype ns_op = NsCreated string | NsDeleted string

definition traced_ns :: "'s namespaces \<Rightarrow> ('s \<times> ns_op list) namespaces" where
  "traced_ns na =
     \<lparr>na_Create = (\<lambda>prefix (s, ops).
        case na_Create na prefix s of (Inl err, s) \<Rightarrow> (Inl err, (s, ops)) | (Inr ns, s) \<Rightarrow> (Inr ns, (s, ops @ [NsCreated ns]))),
      na_Delete = (\<lambda>ns (s, ops). case na_Delete na ns s of (r, s) \<Rightarrow> (r, (s, ops @ [NsDeleted ns])))\<rparr>"

text \<open>Work on the cluster leaves the namespaces alone.\<close>

definition keeps_ops :: "('s \<times> ns_op list \<Rightarrow> 'r \<times> 's \<times> ns_op list) \<Rightarrow> bool" where
  "keeps_ops p \<longleftrightarrow> (\<forall>s ops. snd (snd (p (s, ops))) = ops)"

lemma keeps_opsE:
  assumes "keeps_ops p"
  shows "\<exists>r s'. p (s, ops) = (r, (s', ops))"
proof -
  have "snd (snd (p (s, ops))) = ops" using assms by (simp add: keeps_ops_def)
  then show ?thesis by (cases "p (s, ops)") auto
qed

lemma keeps_andthen: "keeps_ops p \<Longrightarrow> keeps_ops q \<Longrightarrow> keeps_ops (andthen p q)"
  by (auto simp: keeps_ops_def andthen_def split: prod.splits option.splits) (metis snd_conv)+

lemma keeps_each: "(\<And>x. keeps_ops (f x)) \<Longrightarrow> keeps_ops (each f xs)"
  by (induction xs) (simp add: keeps_ops_def, simp add: each_Cons keeps_andthen del: each.simps)

lemma keeps_patch: "keeps_ops (patch (lift_cluster cl) client name body sub)"
  by (auto simp: keeps_ops_def patch_def patchVersion_def lift_cluster_def split: prod.splits sum.splits)

lemma keeps_create_one: "keeps_ops (create_one (lift_cluster cl) client what object)"
  by (auto simp: keeps_ops_def create_one_def lift_cluster_def split: prod.splits sum.splits)

lemma keeps_create: "keeps_ops (create (lift_cluster cl) o')"
  unfolding create_def reset_def reset_widget_def reset_secret_def
  by (intro keeps_andthen keeps_each keeps_patch keeps_create_one)

lemma keeps_wait_served: "snd (snd (wait_served (lift_cluster cl) polls (s, ops))) = ops"
  by (induction polls arbitrary: s) (auto simp: lift_cluster_def split: prod.splits sum.splits option.splits)

lemma keeps_ensureWidgetCRD: "keeps_ops (ensureWidgetCRD isAlreadyExists (lift_cluster cl) polls)"
  unfolding keeps_ops_def ensureWidgetCRD_def
  by (auto simp: lift_cluster_def [of cl, THEN arg_cong, of ck_Create] keeps_wait_served split: prod.splits sum.splits)

lemma Host_Close_traced: "snd (snd (snd (Host_Close (traced_ns na) h (s, ops)))) = ops @ [NsDeleted (hh_namespace h)]"
  by (simp add: Host_Close_def traced_ns_def Let_def split: prod.splits option.splits)

text \<open>
  A host that was built owns exactly the scratch namespace it created; when the construction
  fails at any step, every namespace it created has been asked to be deleted.
\<close>

lemma New_cleans_up:
  assumes "Host_New isAlreadyExists (lift_cluster cl) (traced_ns na) inp cfg (s, []) = (r, (s', ops))"
  shows "case r of
      None \<Rightarrow> ops = []
    | Some (Inl err) \<Rightarrow> ops = [] \<or> (\<exists>ns. ops = [NsCreated ns, NsDeleted ns])
    | Some (Inr h) \<Rightarrow> ops = [NsCreated (hh_namespace h)]"
proof -
  obtain r1 s1 where e: "ensureWidgetCRD isAlreadyExists (lift_cluster cl) (hi_polls inp) (s, [] :: ns_op list) = (r1, (s1, []))"
    using keeps_opsE [OF keeps_ensureWidgetCRD [of isAlreadyExists cl "hi_polls inp"], of s "[]"] by blast
  obtain r2 s2 where n: "na_Create na (cg_NamespacePrefix (config_defaults cfg) @ ''-'') s1 = (r2, s2)" by fastforce
  define h where "h ns = new_host (config_defaults cfg) ns (hi_now inp)" for ns
  have c: "\<exists>r3 s3. create (lift_cluster cl) (host_objects (h ns)) (s2, ops') = (r3, (s3, ops'))" for ns and ops' :: "ns_op list"
    by (rule keeps_opsE [OF keeps_create])
  have close: "snd (snd (snd (Host_Close (traced_ns na) (h ns) (s3, ops')))) = ops' @ [NsDeleted ns]" for ns s3 ops'
    by (simp add: Host_Close_traced h_def new_host_def)
  have created: "na_Create (traced_ns na) (cg_NamespacePrefix (config_defaults cfg) @ ''-'') (s1, []) =
      (case r2 of Inl err \<Rightarrow> (Inl err, (s2, [])) | Inr ns \<Rightarrow> (Inr ns, (s2, [NsCreated ns])))"
    by (simp add: traced_ns_def n split: sum.splits)
  consider (early) err where "r = Some (Inl err)" "ops = []"
    | (late) "cg_hasCluster cfg" "tokens_error (host_config_of (config_defaults cfg) []) = None" "first_error (hi_clients inp) = None"
    using assms by (cases "cg_hasCluster cfg"; cases "tokens_error (host_config_of (config_defaults cfg) [])";
        cases "first_error (hi_clients inp)") (simp_all add: Host_New_def, blast+)
  then show ?thesis
  proof cases
    case early
    then show ?thesis by simp
  next
    case late
    note run = assms [unfolded Host_New_def Let_def late(2,3) e, simplified late(1) not_True_eq_False if_False option.case prod.case]
    show ?thesis
    proof (cases "\<exists>ns. r1 = Some None \<and> r2 = Inr ns")
      case False
      then show ?thesis using run by (cases r1; cases r2; cases "the r1") (auto simp: created)
    next
      case True
      then obtain ns where r12: "r1 = Some None" "r2 = Inr ns" by blast
      obtain r3 s3 where c3: "create (lift_cluster cl) (host_objects (h ns)) (s2, [NsCreated ns]) = (r3, (s3, [NsCreated ns]))"
        using c by blast
      obtain a b s4 where c4: "Host_Close (traced_ns na) (h ns) (s3, [NsCreated ns]) = (a, b, (s4, [NsCreated ns, NsDeleted ns]))"
        using close [of ns s3 "[NsCreated ns]"] by (metis append_Cons append_Nil prod.collapse)
      have "hh_namespace (h ns) = ns" by (simp add: h_def new_host_def)
      then show ?thesis using run
        by (cases r3; cases "hi_routes inp") (auto simp: r12 created h_def [symmetric] c3 c4)
    qed
  qed
qed

definition sample_namespaces :: "unit namespaces" where
  "sample_namespaces = \<lparr>na_Create = (\<lambda>prefix s. (Inr (prefix @ ''x''), s)), na_Delete = (\<lambda>ns s. (None, s))\<rparr>"

definition sample_host_config :: Config where
  "sample_host_config =
     \<lparr>cg_hasCluster = True, cg_NamespacePrefix = ''c'', cg_Widgets = 1, cg_Secrets = 1, cg_ViewerToken = ''v'', cg_RefusedToken = ''r'',
      cg_ReauthorizeEvery = 0\<rparr>"

definition failing_cluster :: "unit cluster" where
  "failing_cluster = widgets_only\<lparr>ck_Create := (\<lambda>client object s. (Inl (ErrText ''no''), s))\<rparr>"

definition sample_inputs :: host_inputs where
  "sample_inputs = \<lparr>hi_clients = [None, None, None], hi_polls = [\<lparr>cp_late = False, cp_cancelled = None\<rparr>], hi_routes = None, hi_now = 0\<rparr>"

text \<open>C38. The command leaves no namespace behind.  Whether the construction fails at any step, a listener
  cannot be opened, the certificate cannot be made or a server stops, once it has returned every
  scratch namespace it created, at most one, has been asked to be deleted.\<close>

theorem compare_cleans_up:
  assumes "compare_run isAlreadyExists (lift_cluster cl) (traced_ns na) ci cfg (s, []) = (Some r, (s', ops))"
  shows "ops = [] \<or> (\<exists>ns. ops = [NsCreated ns, NsDeleted ns])"
proof (cases "ci_kubeconfig ci")
  case (Some err)
  then show ?thesis using assms by (simp add: compare_run_def)
next
  case None
  obtain q s1 ops1 where n: "Host_New isAlreadyExists (lift_cluster cl) (traced_ns na) (ci_host ci) (cfg\<lparr>cg_hasCluster := True\<rparr>) (s, []) =
      (q, (s1, ops1))" by (metis prod.exhaust)
  note shape = New_cleans_up [OF n]
  show ?thesis
  proof (cases q)
    case None': None
    then show ?thesis using assms None n by (simp add: compare_run_def)
  next
    case (Some x)
    show ?thesis
    proof (cases x)
      case (Inl err)
      then show ?thesis using shape assms None n Some by (simp add: compare_run_def)
    next
      case (Inr h)
      obtain a b s2 ops2 where c: "Host_Close (traced_ns na) h (s1, ops1) = (a, b, (s2, ops2))" by (metis prod.exhaust)
      then have "ops2 = ops1 @ [NsDeleted (hh_namespace h)]"
        using Host_Close_traced [of na h s1 ops1] by simp
      then show ?thesis using shape assms None n Some Inr c by (auto simp: compare_run_def)
    qed
  qed
qed

definition sample_compare :: compare_inputs where
  "sample_compare =
     \<lparr>ci_kubeconfig = None, ci_host = sample_inputs, ci_listen = None, ci_tls = None, ci_served = [Some ErrServerClosed]\<rparr>"

definition sample_compared :: "go_error option option \<times> unit \<times> ns_op list" where
  "sample_compared = compare_run (\<lambda>err. True) (lift_cluster failing_cluster) (traced_ns sample_namespaces) sample_compare sample_host_config ((), [])"

theorem compare_cleans_up_witness:
  "(\<exists>err. fst sample_compared = Some (Some err)) \<and> snd (snd sample_compared) = [NsCreated ''c-x'', NsDeleted ''c-x'']"
proof -
  have n: "sample_compared = (Some (Some (ErrWrap ''host'' (ErrWrap (''create widget '' @ WidgetName 0) (ErrText ''no'')))), (),
      [NsCreated ''c-x'', NsDeleted ''c-x''])"
    by (simp add: sample_compared_def compare_run_def sample_compare_def Host_New_def sample_host_config_def config_defaults_def
        tokens_error_def host_config_of_def sample_inputs_def ensureWidgetCRD_def lift_cluster_def failing_cluster_def widgets_only_def
        traced_ns_def sample_namespaces_def create_def andthen_def host_objects_def new_host_def create_one_def Host_Close_def Let_def)
  from compare_cleans_up [OF n [unfolded sample_compared_def]] show ?thesis unfolding n by simp
qed

text \<open>A connection that a route opened is released when the handler returns, and its gauge is back.\<close>

lemma route_balanced:
  assumes "route_enter route st = (i, st')" and "conns_ok (ho_conns st)"
  shows "i \<notin> fst ` set (cn_conns (ho_conns (route_leave route i st'))) \<and>
    read_count (mt_gauges (ho_metrics (route_leave route i st'))) (''gateway.'' @ route @ ''.sse_active'') =
    read_count (mt_gauges (ho_metrics st)) (''gateway.'' @ route @ ''.sse_active'')"
  using assms
  by (auto simp: route_enter_def route_leave_def conn_open_def conn_release_def set_delete_fst Metrics_Gauge_def Metrics_Add_def read_count_def)

end
