(* ===== verification/Facts.thy ===== *)
theory Facts
  imports Kube
begin

text \<open>
  The facts probe, \<open>gateway/kube/cmd/facts/main.go\<close>: a program that asks an API server the
  questions the gateway relies on, and reports which of its assumptions hold.  The answers of
  the server are inputs: what each call returned, and for a watch the sequence of channel events
  up to the deadline.  The theorems tie the probe's verdicts to the definitions of the gateway
  they are about, and show that the server cannot choose where the report is written.
\<close>

section \<open>Findings\<close>

record finding =
  fi_ID :: string
  fi_Question :: string
  fi_Answer :: string
  fi_Detail :: string
  fi_LoadBearing :: bool
  fi_OK :: bool

definition InitialEventsAnnotationKey :: string where
  "InitialEventsAnnotationKey = ''k8s.io/initial-events-end''"

text \<open>
  What a \<open>select\<close> over the deadline and the watch channel takes, in order.  A probe that has
  not finished when they run out is still waiting (\<open>None\<close>).
\<close>

datatype 'e probe_input = Deadline | ChanClosed | ChanEvent 'e

definition dash_text :: string where
  "dash_text = [CHR 0xE2, CHR 0x80, CHR 0x94]"

definition line_break :: string where
  "line_break = [CHR 0x0A]"

definition show_bool :: "bool \<Rightarrow> string" where
  "show_bool b = (if b then ''true'' else ''false'')"

text \<open>\<open>%v\<close> of a slice and of a map of strings, whose keys \<open>fmt\<close> sorts.\<close>

definition show_slice :: "string list \<Rightarrow> string" where
  "show_slice xs = ''['' @ join_with CHR '' '' xs @ '']''"

definition show_map :: "string gmap \<Rightarrow> string" where
  "show_map m = ''map['' @ join_with CHR '' '' (map (\<lambda>k. k @ '':'' @ (case map_of m k of None \<Rightarrow> [] | Some v \<Rightarrow> v)) (sort (map fst m))) @ '']''"

definition new_finding :: "string \<Rightarrow> string \<Rightarrow> bool \<Rightarrow> bool \<Rightarrow> finding" where
  "new_finding id' question loadBearing ok =
     \<lparr>fi_ID = id', fi_Question = question, fi_Answer = [], fi_Detail = [], fi_LoadBearing = loadBearing, fi_OK = ok\<rparr>"

definition answer :: "string \<Rightarrow> finding \<Rightarrow> finding" where
  "answer a f = f\<lparr>fi_Answer := a\<rparr>"

definition detail :: "string \<Rightarrow> finding \<Rightarrow> finding" where
  "detail d f = f\<lparr>fi_Detail := d\<rparr>"

definition settle_ok :: "bool \<Rightarrow> finding \<Rightarrow> finding" where
  "settle_ok b f = f\<lparr>fi_OK := b\<rparr>"

section \<open>F1 and F2: the bookmark that ends a streaming list\<close>

definition describeBookmark :: "KRMObject \<Rightarrow> string" where
  "describeBookmark obj =
     (let meta = (case obj_field obj ''metadata'' of None \<Rightarrow> [] | Some m \<Rightarrow> m) in
      ''the bookmark's object has root keys '' @ show_slice (sort (map fst obj)) @
      '' and metadata keys '' @ show_slice (sort (map fst meta)) @
      ''; uid='' @ go_quote (str_field meta ''uid'') @ '', name='' @ go_quote (str_field meta ''name'') @
      '', resourceVersion='' @ go_quote (str_field meta ''resourceVersion''))"

fun f1_loop :: "api \<Rightarrow> nat \<Rightarrow> finding \<Rightarrow> kube_event probe_input list \<Rightarrow> finding option" where
  "f1_loop ap n f [] = None"
| "f1_loop ap n f (Deadline # is) =
     Some (answer (''no terminating bookmark arrived within 30s (saw '' @ show_nat n @ '' ADDED)'') f)"
| "f1_loop ap n f (ChanClosed # is) = Some (answer ''the watch closed before any terminating bookmark'' f)"
| "f1_loop ap n f (ChanEvent ev # is) =
     (case ke_Type ev of
        KubeAdded \<Rightarrow> f1_loop ap (Suc n) f is
      | KubeBookmark \<Rightarrow>
          (case ke_Object ev of
             Unstructured obj \<Rightarrow>
               (let anns = ap_GetAnnotations ap obj; shape = describeBookmark obj in
                case map_of anns InitialEventsAnnotationKey of
                  Some val \<Rightarrow>
                    (if val \<noteq> ''true'' then
                       Some (detail shape (answer (''BOOKMARK arrived after '' @ show_nat n @ '' ADDED '' @ dash_text @
                         '' but WITHOUT the annotation. Annotations: '' @ show_map anns) f))
                     else
                       Some (detail shape (answer (''YES. '' @ show_nat n @ '' synthetic ADDED, then a BOOKMARK with '' @
                         InitialEventsAnnotationKey @ ''='' @ go_quote val @ ''.'') (settle_ok True f))))
                | None \<Rightarrow>
                    Some (detail shape (answer (''BOOKMARK arrived after '' @ show_nat n @ '' ADDED '' @ dash_text @
                      '' but WITHOUT the annotation. Annotations: '' @ show_map anns) f)))
           | _ \<Rightarrow> Some (answer ''a BOOKMARK arrived whose object is not unstructured'' f))
      | _ \<Rightarrow> f1_loop ap n f is)"

text \<open>The errors of the two fixtures that were created, and of the watch.\<close>

definition f1AndF2 ::
    "api \<Rightarrow> (go_error \<Rightarrow> bool) \<Rightarrow> go_error option list \<Rightarrow> go_error option \<Rightarrow> kube_event probe_input list \<Rightarrow> finding option" where
  "f1AndF2 ap isAlreadyExists fixtures watch is =
     (let f = new_finding ''F1'' ''Does a streaming list end with a BOOKMARK carrying `k8s.io/initial-events-end`?'' True False in
      case find (\<lambda>e. case e of None \<Rightarrow> False | Some err \<Rightarrow> \<not> isAlreadyExists err) fixtures of
        Some (Some err) \<Rightarrow> Some (answer (''could not create fixtures: '' @ ap_Error ap err) f)
      | _ \<Rightarrow>
          (case watch of
             Some err \<Rightarrow>
               Some (detail ''The upstream refused this streaming-list request.''
                 (answer (''the API server REFUSED the streaming-list watch: '' @ ap_Error ap err) f))
           | None \<Rightarrow> f1_loop ap 0 f is))"

section \<open>F3: an expired resource version\<close>

text \<open>\<open>reason\<close> is the reason of a status, which the adapter does not read.\<close>

fun f3_loop :: "(Status \<Rightarrow> string) \<Rightarrow> finding \<Rightarrow> kube_event probe_input list \<Rightarrow> finding option" where
  "f3_loop reason f [] = None"
| "f3_loop reason f (Deadline # is) =
     Some (answer (''nothing arrived within 30s '' @ dash_text @ '' the API server neither errored nor closed'') f)"
| "f3_loop reason f (ChanClosed # is) =
     Some (settle_ok True
       (detail (''The gateway treats a closed watch as ErrWatchClosed and resnapshots, so it recovers '' @ dash_text @
           '' but it never learns WHY.'')
         (answer ''the watch channel simply CLOSED, with no error event'' f)))"
| "f3_loop reason f (ChanEvent ev # is) =
     (if ke_Type ev = KubeError then
        (case ke_Object ev of
           StatusObject status \<Rightarrow>
             Some (detail (''message: '' @ go_quote (st_Message status) @ '' '' @ dash_text @
                 '' so the gateway must map watch.Error{Reason: Expired} to RESYNC_REQUIRED and begin a new cycle.'')
               (answer (''as a watch ERROR event: code='' @ show_int (st_Code status) @ '' reason='' @ go_quote (reason status))
                 (settle_ok (st_Code status = 410 \<or> reason status = ''Expired'' \<or> reason status = ''Gone'') f)))
         | obj \<Rightarrow> Some (answer (''a watch ERROR arrived carrying '' @ go_type obj @ '', not a *metav1.Status'') f))
      else Some (answer (''the API server did NOT error: it sent '' @ kube_type_name (ke_Type ev)) f))"

definition f3 :: "api \<Rightarrow> (Status \<Rightarrow> string) \<Rightarrow> go_error option \<Rightarrow> kube_event probe_input list \<Rightarrow> finding option" where
  "f3 ap reason watch is =
     (let f = new_finding ''F3'' ''How does an expired resourceVersion (`410 Gone`) reach an open watch?'' True False in
      case watch of
        Some err \<Rightarrow>
          Some (answer (''the watch was REFUSED at open: '' @ ap_Error ap err @ '' (IsResourceExpired='' @
              show_bool (ap_IsResourceExpired ap err) @ '')'')
            (settle_ok (ap_IsResourceExpired ap err \<or> ap_IsGone ap err) f))
      | None \<Rightarrow> f3_loop reason f is)"

section \<open>F4: resource versions\<close>

definition isDecimal :: "string \<Rightarrow> bool" where
  "isDecimal rv =
     (case rv of [] \<Rightarrow> False
      | c # _ \<Rightarrow> (if c < CHR ''1'' \<or> c > CHR ''9'' then False else find (\<lambda>r. r < CHR ''0'' \<or> r > CHR ''9'') rv = None))"

text \<open>The answers of the get and of the list: an error, or the resource version.\<close>

definition f4 :: "api \<Rightarrow> go_error + string \<Rightarrow> go_error + string \<Rightarrow> finding" where
  "f4 ap get lst =
     (let f = new_finding ''F4'' ''Are real resourceVersions orderable decimals, and how large?'' True True in
      case get of
        Inl err \<Rightarrow> answer (''get: '' @ ap_Error ap err) (settle_ok False f)
      | Inr objRV \<Rightarrow>
          (case lst of
             Inl err \<Rightarrow> answer (''list: '' @ ap_Error ap err) (settle_ok False f)
           | Inr listRV \<Rightarrow>
               (let decimal = (isDecimal objRV \<and> isDecimal listRV);
                    f = (if \<not> decimal then settle_ok False f else f)
                in detail (''The gateway compares these as arbitrary-precision decimals (longer-is-greater, then lexicographic), '' @
                     ''which is what the docs prescribe. An int64 parse would work HERE '' @ dash_text @
                     '' and that is exactly the trap: it works until a backing store with wider revisions does not.'')
                   (answer (''object rv='' @ go_quote objRV @ '' ('' @ show_nat (length objRV) @ '' digits, decimal='' @
                     show_bool decimal @ ''); collection rv='' @ go_quote listRV @ ''. int64 holds 19 digits.'') f))))"

section \<open>F5: a controller and the status\<close>

text \<open>An event of the typed watch: its type, and a Deployment with the JSON of its spec.\<close>

record deployment =
  dp_Spec :: string
  dp_Replicas :: int
  dp_ReadyReplicas :: int

record dep_event =
  de_Type :: kube_type
  de_Object :: "deployment option"

fun f5_loop :: "string \<Rightarrow> nat \<Rightarrow> nat \<Rightarrow> nat \<Rightarrow> finding \<Rightarrow> dep_event probe_input list \<Rightarrow> finding option" where
  "f5_loop firstSpec statusOnly specChanged n f [] = None"
| "f5_loop firstSpec statusOnly specChanged n f (Deadline # is) =
     Some (settle_ok (n > 0 \<and> specChanged = 0)
       (answer (''saw '' @ show_nat n @ '' MODIFIED events ('' @ show_nat statusOnly @ '' status-only, '' @
          show_nat specChanged @ '' touched spec) before the deadline'') f))"
| "f5_loop firstSpec statusOnly specChanged n f (ChanClosed # is) = Some (answer ''the watch closed'' f)"
| "f5_loop firstSpec statusOnly specChanged n f (ChanEvent ev # is) =
     (case de_Object ev of
        None \<Rightarrow> f5_loop firstSpec statusOnly specChanged n f is
      | Some d \<Rightarrow>
          (if de_Type ev \<noteq> KubeModified then f5_loop firstSpec statusOnly specChanged n f is
           else
             (let n = Suc n;
                  same = (dp_Spec d = firstSpec);
                  statusOnly = (if same then Suc statusOnly else statusOnly);
                  specChanged = (if same then specChanged else Suc specChanged)
              in if dp_ReadyReplicas d \<ge> 2 then
                   Some (detail (''So `status-only-churn` describes real traffic: a controller reconciling a Deployment rewrites '' @
                       ''status repeatedly, watching readyReplicas climb to the requested count, and never touches spec. '' @
                       ''That is the demo, and it is real.'')
                     (answer (''YES: '' @ show_nat n @ '' MODIFIED events, '' @ show_nat statusOnly @ '' of them status-only, '' @
                         show_nat specChanged @ '' touched spec. The rollout completed: replicas='' @ show_int (dp_Replicas d) @
                         '' readyReplicas='' @ show_int (dp_ReadyReplicas d))
                       (settle_ok (specChanged = 0) f)))
                 else f5_loop firstSpec statusOnly specChanged n f is)))"

definition f5 :: "api \<Rightarrow> go_error + string \<Rightarrow> go_error option \<Rightarrow> dep_event probe_input list \<Rightarrow> finding option" where
  "f5 ap created watch is =
     (let f = new_finding ''F5'' ''Does a real controller rewrite `status` while leaving `spec` byte-identical?'' False False in
      case created of
        Inl err \<Rightarrow> Some (answer (''create deployment: '' @ ap_Error ap err) f)
      | Inr firstSpec \<Rightarrow>
          (case watch of
             Some err \<Rightarrow> Some (answer (''watch: '' @ ap_Error ap err) f)
           | None \<Rightarrow> f5_loop firstSpec 0 0 0 f is))"

section \<open>F6: an aggregated API\<close>

text \<open>
  The loop ends with what it says of the streaming list and of the bookmark.  A bookmark whose
  object is not unstructured is a nil pointer there, and reading its annotations panics.
\<close>

datatype 'a probe = Waiting | Panicked | Answered 'a

fun f6_loop ::
    "api \<Rightarrow> (Status option \<Rightarrow> string) \<Rightarrow> string \<Rightarrow> kube_event probe_input list \<Rightarrow> (string \<times> string) probe" where
  "f6_loop ap show_status streaming [] = Waiting"
| "f6_loop ap show_status streaming (Deadline # is) = Answered (streaming, ''no terminating bookmark within 20s'')"
| "f6_loop ap show_status streaming (ChanClosed # is) = Answered (streaming, ''the watch closed before any bookmark'')"
| "f6_loop ap show_status streaming (ChanEvent ev # is) =
     (case ke_Type ev of
        KubeError \<Rightarrow>
          Answered (''REJECTED mid-stream: '' @
            show_status (case ke_Object ev of StatusObject status \<Rightarrow> Some status | _ \<Rightarrow> None), ''none'')
      | KubeBookmark \<Rightarrow>
          (case ke_Object ev of
             Unstructured obj \<Rightarrow>
               (case map_of (ap_GetAnnotations ap obj) InitialEventsAnnotationKey of
                  Some _ \<Rightarrow> Answered (streaming, ''YES '' @ dash_text @ '' carries '' @ InitialEventsAnnotationKey)
                | None \<Rightarrow>
                    Answered (streaming, ''a bookmark WITHOUT the annotation (annotations: '' @ show_map (ap_GetAnnotations ap obj) @ '')''))
           | _ \<Rightarrow> Panicked)
      | _ \<Rightarrow> f6_loop ap show_status streaming is)"

definition f6_report :: "string \<Rightarrow> bool \<Rightarrow> string \<Rightarrow> string \<Rightarrow> finding \<Rightarrow> finding" where
  "f6_report rv rejected streaming bookmark f =
     (let orderable = isDecimal rv;
          yes = (take 3 bookmark = ''YES'');
          lines = [''**Observed aggregated API behavior.**'', [],
            ''The created Flunder had resourceVersion '' @ go_quote rv @ '' (decimal/orderable='' @ show_bool orderable @ '').'',
            (if rejected then ''The aggregated API rejected the streaming-list request, so the backend must use list-then-watch for this resource.''
             else ''The aggregated API accepted the streaming-list request.''),
            (if yes then ''The stream delivered an initial-events-end bookmark.''
             else ''No qualifying initial-events-end bookmark was observed: '' @ bookmark),
            ''This is an observation of one aggregated API implementation, not a guarantee about aggregated APIs in general.'']
      in detail (concat (map (\<lambda>(i, l). (if i = 0 then [] else line_break @ line_break) @ l) (List.enumerate 0 lines)))
         (answer (''resourceVersion='' @ go_quote rv @ '' (decimal/orderable='' @ show_bool orderable @ ''); streaming list '' @
             streaming @ ''; initial-events-end bookmark: '' @ bookmark)
           (settle_ok (orderable \<and> yes) f)))"

definition f6 ::
    "api \<Rightarrow> (Status option \<Rightarrow> string) \<Rightarrow> bool \<Rightarrow> go_error + string \<Rightarrow> go_error option \<Rightarrow> kube_event probe_input list \<Rightarrow> finding probe" where
  "f6 ap show_status installed created watch is =
     (let f = new_finding ''F6'' ''An AGGREGATED API (wardle `Flunder`): orderable resourceVersion? streaming list?'' False False in
      if \<not> installed then
        Answered (answer ''SKIPPED: no aggregated API installed (run `task cluster-aggregated-api`)'' (settle_ok True f))
      else case created of
        Inl err \<Rightarrow> Answered (answer (''could not create a Flunder: '' @ ap_Error ap err) f)
      | Inr rv \<Rightarrow>
          (case watch of
             Some err \<Rightarrow> Answered (f6_report rv True (''REJECTED: '' @ ap_Error ap err) ''none'' f)
           | None \<Rightarrow>
               (case f6_loop ap show_status ''accepted'' is of
                  Waiting \<Rightarrow> Waiting
                | Panicked \<Rightarrow> Panicked
                | Answered (streaming, bookmark) \<Rightarrow> Answered (f6_report rv False streaming bookmark f))))"

section \<open>F7: a deleted object\<close>

text \<open>\<open>show_data\<close> is \<open>%v\<close> of the data of the object, if it has any.\<close>

fun f7_loop :: "(KRMObject option \<Rightarrow> string) \<Rightarrow> finding \<Rightarrow> kube_event probe_input list \<Rightarrow> finding option" where
  "f7_loop show_data f [] = None"
| "f7_loop show_data f (Deadline # is) = Some (answer ''no DELETED event arrived within 30s'' f)"
| "f7_loop show_data f (ChanClosed # is) = Some (answer ''the watch closed before the DELETED arrived'' f)"
| "f7_loop show_data f (ChanEvent ev # is) =
     (if ke_Type ev \<noteq> KubeDeleted then f7_loop show_data f is
      else case ke_Object ev of
        Unstructured obj \<Rightarrow>
          (let meta = (case obj_field obj ''metadata'' of None \<Rightarrow> [] | Some m \<Rightarrow> m) in
           Some (detail (''So a kube-apiserver DELETED is complete and trustworthy. The degenerate tombstone the gateway guards against '' @
               ''(tombstone-without-uid) comes from client-go's INFORMER cache (DeletedFinalStateUnknown), not from the API server '' @
               dash_text @ '' which is why that fixture can only ever be a fake-watch one.'')
             (answer (''YES: uid='' @ go_quote (UID obj) @ '', name='' @ go_quote (str_field meta ''name'') @
                 '', and the final state is present (data='' @ show_data (obj_field obj ''data'') @ '', present='' @
                 show_bool (obj_field obj ''data'' \<noteq> None) @ '')'')
               (settle_ok (UID obj \<noteq> []) f))))
      | obj \<Rightarrow> Some (answer (''DELETED carried '' @ go_type obj @ '', not an object'') f))"

definition f7 ::
    "api \<Rightarrow> (KRMObject option \<Rightarrow> string) \<Rightarrow> go_error option \<Rightarrow> go_error option \<Rightarrow> go_error option \<Rightarrow>
       kube_event probe_input list \<Rightarrow> finding option" where
  "f7 ap show_data created watch deleted is =
     (let f = new_finding ''F7'' ''Does a real DELETED event carry a complete object, with a uid?'' False False in
      case created of
        Some err \<Rightarrow> Some (answer (''create: '' @ ap_Error ap err) f)
      | None \<Rightarrow>
          (case watch of
             Some err \<Rightarrow> Some (answer (''watch: '' @ ap_Error ap err) f)
           | None \<Rightarrow>
               (case deleted of
                  Some err \<Rightarrow> Some (answer (''delete: '' @ ap_Error ap err) f)
                | None \<Rightarrow> f7_loop show_data f is)))"

section \<open>The report\<close>

text \<open>A version as the code points that \<open>strings.Map\<close> sees, an invalid byte being U+FFFD.\<close>

definition slug_rune :: "nat \<Rightarrow> char" where
  "slug_rune r =
     (if 97 \<le> r \<and> r \<le> 122 \<or> 65 \<le> r \<and> r \<le> 90 \<or> 48 \<le> r \<and> r \<le> 57 then char_of r
      else if r = 46 \<or> r = 45 \<or> r = 95 \<or> r = 43 then char_of r
      else CHR ''-'')"

definition versionSlug :: "nat list \<Rightarrow> string" where
  "versionSlug version =
     (let slug = map slug_rune version
      in if dropWhile (\<lambda>c. c = CHR ''.'') slug = [] then ''unknown'' else slug)"

definition report_name :: "nat list \<Rightarrow> string" where
  "report_name version = ''observed-'' @ versionSlug version @ ''.md''"

definition escape_pipes :: "string \<Rightarrow> string" where
  "escape_pipes s = concat (map (\<lambda>c. if c = CHR ''|'' then [backslash, CHR ''|''] else [c]) s)"

definition mark_of :: "finding \<Rightarrow> string" where
  "mark_of f = (if fi_OK f then [CHR 0xE2, CHR 0x9C, CHR 0x85] else [CHR 0xE2, CHR 0x9D, CHR 0x8C])"

definition table_row :: "finding \<Rightarrow> string" where
  "table_row f =
     ''| '' @ mark_of f @ '' '' @ fi_ID f @ '' | '' @ fi_Question f @ '' | '' @
     (if fi_LoadBearing f then ''**yes**'' else dash_text) @ '' | '' @ escape_pipes (fi_Answer f) @ '' |'' @ line_break"

definition detail_section :: "finding \<Rightarrow> string" where
  "detail_section f =
     ''### '' @ fi_ID f @ '' '' @ dash_text @ '' '' @ fi_Question f @ line_break @ line_break @ fi_Answer f @ line_break @ line_break @
     (if fi_Detail f \<noteq> [] then fi_Detail f @ line_break @ line_break else [])"

definition markdown :: "string \<Rightarrow> finding list \<Rightarrow> string" where
  "markdown version findings =
     ''# Observed: what `'' @ version @ ''` actually did'' @ line_break @ line_break @
     ''> **Generated by `task cluster-facts`** '' @ dash_text @ '' do not hand-edit. This file is a WITNESS: it is what a'' @ line_break @
     ''> real API server did when asked, as opposed to [what the documentation says it should](kubernetes-api-concepts.md).'' @ line_break @
     ''>'' @ line_break @
     ''> The distinction matters most where the docs are SILENT. The gateway's snapshot boundary rests on an'' @ line_break @
     ''> annotation that appears nowhere in the API reference; until this file existed, that was faith.'' @ line_break @ line_break @
     ''| | question | load-bearing | answer |'' @ line_break @ ''|---|---|---|---|'' @ line_break @
     concat (map table_row findings) @
     line_break @ ''## Detail'' @ line_break @ line_break @ concat (map detail_section findings)"

definition failed :: "finding list \<Rightarrow> nat" where
  "failed findings = length (filter (\<lambda>f. \<not> fi_OK f \<and> fi_LoadBearing f) findings)"

text \<open>
  The end of \<open>main\<close>: the report it writes when a directory was given, with the error of that
  write, and the status it exits with.
\<close>

definition conclude :: "string \<Rightarrow> string \<Rightarrow> nat list \<Rightarrow> go_error option \<Rightarrow> finding list \<Rightarrow> (string \<times> string) option \<times> int" where
  "conclude out version runes write_err findings =
     (let report = (if out = [] then None else Some (report_name runes, markdown version findings))
      in if report \<noteq> None \<and> write_err \<noteq> None then (report, 2)
         else (report, if failed findings > 0 then 1 else 0))"

section \<open>Lemmas\<close>

lemma isDecimal_correct: "isDecimal rv = isDecimalResourceVersion rv"
  by (auto simp: isDecimal_def isDecimalResourceVersion_def is_digit_def list_all_iff find_None_iff not_less
      split: list.splits)

text \<open>The characters of a slug.\<close>

definition slug_char :: "char \<Rightarrow> bool" where
  "slug_char c \<longleftrightarrow>
     (let n = of_char c :: nat in 97 \<le> n \<and> n \<le> 122 \<or> 65 \<le> n \<and> n \<le> 90 \<or> 48 \<le> n \<and> n \<le> 57) \<or> c \<in> set ''.-_+''"

lemma slug_char_slug_rune: "slug_char (slug_rune r)"
proof -
  have "(of_char (char_of r) :: nat) = r" if "r \<le> 122" using that by (simp add: of_char_of)
  moreover have "char_of (46 :: nat) = CHR ''.''" "char_of (45 :: nat) = CHR ''-''" "char_of (95 :: nat) = CHR ''_''"
    "char_of (43 :: nat) = CHR ''+''" by code_simp+
  ultimately show ?thesis by (auto simp: slug_rune_def slug_char_def Let_def)
qed

lemma versionSlug_cases:
  "versionSlug v = ''unknown'' \<or> versionSlug v = map slug_rune v \<and> (\<exists>c \<in> set (map slug_rune v). c \<noteq> CHR ''.'')"
  by (auto simp: versionSlug_def Let_def dropWhile_eq_Nil_conv)

lemma conclude_status: "snd (conclude out version runes None findings) = (if list_all (\<lambda>f. fi_LoadBearing f \<longrightarrow> fi_OK f) findings then 0 else 1)"
  by (auto simp: conclude_def Let_def failed_def list_all_iff filter_empty_conv)

subsection \<open>The verdict on the boundary\<close>

definition no_bookmark :: "kube_event list \<Rightarrow> bool" where
  "no_bookmark evs \<longleftrightarrow> list_all (\<lambda>ev. ke_Type ev \<noteq> KubeBookmark) evs"

lemma fi_OK_simps [simp]:
  "fi_OK (answer a f) = fi_OK f" "fi_OK (detail d f) = fi_OK f" "fi_OK (settle_ok b f) = b"
  by (simp_all add: answer_def detail_def settle_ok_def)

lemma f1_loop_OK:
  assumes "\<not> fi_OK f" and "ap_InitialEventsAnnotationKey ap = InitialEventsAnnotationKey"
  shows "(\<exists>g. f1_loop ap n f is = Some g \<and> fi_OK g) \<longleftrightarrow>
    (\<exists>evs ev rest. is = map ChanEvent evs @ ChanEvent ev # rest \<and> no_bookmark evs \<and> boundary ap ev)"
proof (induction "is" arbitrary: n)
  case Nil
  then show ?case by simp
next
  case (Cons i "is")
  show ?case
  proof (cases i)
    case Deadline
    then show ?thesis using assms by (auto simp: Cons_eq_append_conv)
  next
    case ChanClosed
    then show ?thesis using assms by (auto simp: Cons_eq_append_conv)
  next
    case (ChanEvent e)
    have split: "(\<exists>evs ev rest. i # is = map ChanEvent evs @ ChanEvent ev # rest \<and> no_bookmark evs \<and> boundary ap ev) \<longleftrightarrow>
        boundary ap e \<or> ke_Type e \<noteq> KubeBookmark \<and>
          (\<exists>evs ev rest. is = map ChanEvent evs @ ChanEvent ev # rest \<and> no_bookmark evs \<and> boundary ap ev)" (is "?L \<longleftrightarrow> ?R")
    proof
      assume ?L
      then obtain evs ev rest where e: "i # is = map ChanEvent evs @ ChanEvent ev # rest" "no_bookmark evs" "boundary ap ev" by blast
      then show ?R using ChanEvent by (cases evs) (auto simp: no_bookmark_def)
    next
      assume ?R
      then show ?L
      proof
        assume "boundary ap e"
        then show ?thesis using ChanEvent by (intro exI [of _ "[]"]) (simp add: no_bookmark_def)
      next
        assume "ke_Type e \<noteq> KubeBookmark \<and>
          (\<exists>evs ev rest. is = map ChanEvent evs @ ChanEvent ev # rest \<and> no_bookmark evs \<and> boundary ap ev)"
        then obtain evs ev rest where "ke_Type e \<noteq> KubeBookmark" "is = map ChanEvent evs @ ChanEvent ev # rest" "no_bookmark evs" "boundary ap ev"
          by blast
        then show ?thesis using ChanEvent by (intro exI [of _ "e # evs"]) (simp add: no_bookmark_def)
      qed
    qed
    show ?thesis
    proof (cases "ke_Type e = KubeBookmark")
      case True
      have "(\<exists>g. f1_loop ap n f (ChanEvent e # is) = Some g \<and> fi_OK g) \<longleftrightarrow> boundary ap e"
        using True assms by (auto simp: boundary_def Let_def split: kube_object.splits option.splits if_splits)
      then show ?thesis using split True ChanEvent by simp
    next
      case False
      then have "\<exists>m. f1_loop ap n f (ChanEvent e # is) = f1_loop ap m f is" by (cases "ke_Type e") auto
      moreover have "\<not> boundary ap e" using False by (simp add: boundary_def)
      ultimately show ?thesis using split False ChanEvent Cons.IH by (metis (no_types, lifting))
    qed
  qed
qed

section \<open>Properties\<close>

text \<open>The server chooses the version, not the path of the report: whatever it answers, the file name
  has no slash and no other character outside the short list, and it is neither empty nor a
  directory of its own (\<open>.\<close> or \<open>..\<close>).\<close>

theorem report_name_confined:
  "list_all slug_char (versionSlug version) \<and> CHR ''/'' \<notin> set (report_name version) \<and>
   versionSlug version \<notin> {[], ''.'', ''..''} \<and> report_name version \<notin> {[], ''.'', ''..''}"
proof -
  have u: "list_all slug_char ''unknown''" by code_simp
  have all: "list_all slug_char (versionSlug version)"
    using versionSlug_cases [of version] u slug_char_slug_rune by (auto simp: list_all_iff)
  have s: "\<not> slug_char CHR ''/''" by code_simp
  then have "CHR ''/'' \<notin> set (versionSlug version)" using all by (auto simp: list_all_iff)
  moreover have "versionSlug version \<notin> {[], ''.'', ''..''}"
    using versionSlug_cases [of version] by (elim disjE conjE) auto
  ultimately show ?thesis using all by (simp add: report_name_def)
qed

text \<open>C35. The probe's first question asks what the gateway relies on: F1 is answered with yes exactly when
  the first bookmark on the channel, with no deadline or close before it, is the boundary that the
  Kubernetes backend translates to the end of the snapshot.\<close>

theorem F1_is_boundary:
  assumes "ap_InitialEventsAnnotationKey ap = InitialEventsAnnotationKey" and "\<forall>err \<in> set fixtures. err = None"
  shows "(\<exists>f. f1AndF2 ap isAlreadyExists fixtures None is = Some f \<and> fi_OK f) \<longleftrightarrow>
    (\<exists>evs ev rest. is = map ChanEvent evs @ ChanEvent ev # rest \<and> no_bookmark evs \<and>
       (\<exists>we. translate ap ev = NextEvent we \<and> we_Type we = WatchBookmark \<and> we_InitialEventsEnd we))"
proof -
  have n: "find (\<lambda>e. case e of None \<Rightarrow> False | Some err \<Rightarrow> \<not> isAlreadyExists err) fixtures = None"
    using assms(2) by (auto simp: find_None_iff)
  have b: "boundary ap ev \<longleftrightarrow> (\<exists>we. translate ap ev = NextEvent we \<and> we_Type we = WatchBookmark \<and> we_InitialEventsEnd we)" for ev
    by (auto simp: boundary_def translate_def watch_event_def split: kube_object.splits kube_type.splits)
  define f where "f = new_finding ''F1'' ''Does a streaming list end with a BOOKMARK carrying `k8s.io/initial-events-end`?'' True False"
  have "\<not> fi_OK f" by (simp add: f_def new_finding_def)
  from f1_loop_OK [OF this assms(1), of 0 "is"] show ?thesis
    unfolding f1AndF2_def Let_def n f_def [symmetric] option.case b .
qed

theorem F1_is_boundary_witness:
  "\<exists>f. f1AndF2 sample_api (\<lambda>err. True) [None, None] None [ChanEvent (added sample_item), ChanEvent sample_boundary] = Some f \<and> fi_OK f"
proof -
  have k: "ap_InitialEventsAnnotationKey sample_api = InitialEventsAnnotationKey"
    by (simp add: sample_api_def InitialEventsAnnotationKey_def Let_def)
  have t: "translate sample_api sample_boundary =
      NextEvent ((watch_event WatchBookmark [(''end'', JStr ''true'')])\<lparr>we_InitialEventsEnd := True\<rparr>)"
    by (simp add: translate_def sample_boundary_def sample_api_def Let_def str_field_def)
  have n: "no_bookmark [added sample_item]" by (simp add: no_bookmark_def added_def)
  have "\<exists>evs ev rest. [ChanEvent (added sample_item), ChanEvent sample_boundary] = map ChanEvent evs @ ChanEvent ev # rest \<and>
      no_bookmark evs \<and> (\<exists>we. translate sample_api ev = NextEvent we \<and> we_Type we = WatchBookmark \<and> we_InitialEventsEnd we)"
    by (intro exI [of _ "[added sample_item]"] exI [of _ sample_boundary] exI [of _ "[]"]) (simp add: n t watch_event_def)
  moreover have "\<forall>err \<in> set [None, None :: go_error option]. err = None" by simp
  ultimately show ?thesis using F1_is_boundary [OF k] by blast
qed

text \<open>F6 is looser than F1: it accepts a bookmark whose annotation has any value, and so answers yes for
  one that the backend does not take as the end of the snapshot.\<close>

theorem F6_accepts_no_boundary:
  "\<exists>ap obj. ap_InitialEventsAnnotationKey ap = InitialEventsAnnotationKey \<and>
    (\<exists>f. f6 ap show_status True (Inr ''7'') None [ChanEvent \<lparr>ke_Type = KubeBookmark, ke_Object = Unstructured obj\<rparr>] = Answered f \<and> fi_OK f) \<and>
    \<not> boundary ap \<lparr>ke_Type = KubeBookmark, ke_Object = Unstructured obj\<rparr>"
proof (intro exI conjI)
  show "ap_InitialEventsAnnotationKey sample_api = InitialEventsAnnotationKey"
    by (simp add: sample_api_def InitialEventsAnnotationKey_def Let_def)
  have d: "isDecimal ''7''" by code_simp
  show "f6 sample_api show_status True (Inr ''7'') None [ChanEvent \<lparr>ke_Type = KubeBookmark, ke_Object = Unstructured [(''end'', JStr ''false'')]\<rparr>] =
      Answered (f6_report ''7'' False ''accepted'' (''YES '' @ dash_text @ '' carries '' @ InitialEventsAnnotationKey)
        (new_finding ''F6'' ''An AGGREGATED API (wardle `Flunder`): orderable resourceVersion? streaming list?'' False False))"
    by (simp add: f6_def Let_def sample_api_def InitialEventsAnnotationKey_def)
  show "fi_OK (f6_report ''7'' False ''accepted'' (''YES '' @ dash_text @ '' carries '' @ InitialEventsAnnotationKey)
        (new_finding ''F6'' ''An AGGREGATED API (wardle `Flunder`): orderable resourceVersion? streaming list?'' False False))"
    by (simp add: f6_report_def Let_def d)
  show "\<not> boundary sample_api \<lparr>ke_Type = KubeBookmark, ke_Object = Unstructured [(''end'', JStr ''false'')]\<rparr>"
    by (simp add: boundary_def sample_api_def Let_def str_field_def)
qed

lemma F6_panics:
  "f6 ap show_status True (Inr rv) None [ChanEvent \<lparr>ke_Type = KubeBookmark, ke_Object = OtherObject t\<rparr>] = Panicked"
  by (simp add: f6_def Let_def)

end
