(* ===== verification/Spec2Isabelle.thy ===== *)
theory Spec2Isabelle
  imports Progress Shared_Views Conformance Sharedstream Host Facts
begin

text \<open>
  A verification library for the krm-stream gateway (\<open>src/gateway/\<close>, Go).

  \<^bold>\<open>The program.\<close>  The gateway turns a Kubernetes watch into a resource stream that a browser
  can follow over server-sent events.  A request reaches \<open>Handler\<close> (\<open>handler.go\<close>), which
  asks the host who is calling, parses a scope from the query and checks it against the host's
  allowlist (\<open>scope.go\<close>), and hands over to \<open>ServeStream\<close> (\<open>sse.go\<close>).  That installs a
  sink on the response and runs \<open>Stream\<close> (\<open>stream.go\<close>): one snapshot cycle after another,
  each authorized anew, each opening an upstream watch.  A cycle sends reset, the objects of the
  snapshot, synced, and then live changes; it drops stale replays, suppresses updates that show
  nothing new, projects every object (\<open>project.go\<close>) and numbers what it withheld.  A second
  goroutine rechecks authorization on a timer (\<open>reauthorize.go\<close>).  The upstream is a
  Kubernetes API server (\<open>kube/backend.go\<close>), possibly shared between streams
  (\<open>shared.go\<close>), with subject access reviews as the authorizer (\<open>kube/authz.go\<close>).  A host
  that writes objects back checks merge patches with \<open>patch.go\<close>.

  \<^bold>\<open>The theories.\<close>
  \<^item> \<open>Prelude\<close>: Go maps as the locale \<open>kv_map\<close> and its interpretation on association lists;
    transition systems with invariants (\<open>invariant_system\<close>) and simulations
    (\<open>simulation\<close>); shared list lemmas.
  \<^item> \<open>Values\<close>, \<open>Encoding\<close>: decoded JSON values, and the bytes \<open>encoding/json\<close> writes for
    them.  The text determines the value and holds no control character.
  \<^item> \<open>Wire\<close>: \<open>event.go\<close>, \<open>seams.go\<close>, \<open>observe.go\<close>.  Events, their JSON and SSE forms,
    \<open>StreamError\<close> with Go's error chains (a nil \<open>*StreamError\<close> inside a non-nil error
    included), and the \<open>Sink\<close> interface as the locales \<open>sink\<close> and \<open>wire_sink\<close>.
  \<^item> \<open>Projection\<close>, \<open>Patch\<close>: \<open>project.go\<close>, \<open>projection_policy.go\<close>, \<open>patch.go\<close>.  What a
    projection withholds and keeps, and which merge patches the guard lets through.
  \<^item> \<open>Ordering\<close>, \<open>Cycle\<close>, \<open>Convergence\<close>, \<open>Progress\<close>: resource versions and the snapshot
    cycle of \<open>stream.go\<close>.  \<open>Cycle\<close> splits each turn into a decision and its effect; \<open>Convergence\<close>
    interprets \<open>simulation\<close> to show that the consumer's store is the projection of the
    upstream's view, and \<open>Progress\<close> that the cycle goes on as long as the upstream can be
    followed.
  \<^item> \<open>Reauthorize\<close>, \<open>Stream_Loop\<close>: the two goroutines of \<open>reauthorize.go\<close> as
    interleaved inputs, and the loop \<open>Stream\<close> over the answers of the host and the upstream.
  \<^item> \<open>Shared\<close>, \<open>Shared_Safety\<close>, \<open>Shared_Views\<close>: \<open>shared.go\<close>.  Every critical section
    is one action on an explicit store of openings, scopes, subscribers and callers; the
    invariant of all interleavings is an interpretation of \<open>invariant_system\<close>.
  \<^item> \<open>Scopes\<close>: \<open>scope.go\<close>, with the query encoding of the TypeScript client
    (\<open>packages/krm-stream/src/url.ts\<close>) that it has to read back.
  \<^item> \<open>Transport\<close>: \<open>sse.go\<close> and \<open>handler.go\<close>.  The SSE sink interprets \<open>wire_sink\<close>, with
    and without the heartbeat beside it, so what is proved of \<open>Stream\<close> over any sink holds of
    the bytes on a connection.
  \<^item> \<open>Kube\<close>, \<open>Authz\<close>: \<open>kube/backend.go\<close> and \<open>kube/authz.go\<close>, over parameters for
    client-go and apimachinery.
  \<^item> \<open>Sharedstream\<close>: \<open>kube/examples/sharedstream\<close>, the host that puts the handler, the
    reviews, sessions and the redirect-refusing client together.
  \<^item> \<open>Save\<close>, \<open>Comparison\<close>: the hosts that write objects back.  \<open>Save\<close> is
    \<open>kube/examples/conditionalsave\<close>; \<open>Comparison\<close> is the proxy, the sessions, the
    connections, the counters and the save endpoint of \<open>kube/examples/comparison\<close>, with the
    gauge of its upstream watches as an interpretation of \<open>invariant_system\<close>.
  \<^item> \<open>Objects\<close>, \<open>Workload\<close>, \<open>Host\<close>: the rest of that host.  \<open>Objects\<close> is \<open>objects.go\<close> over a
    cluster that is a parameter, with the writes each procedure sends; \<open>Workload\<close> is
    \<open>workload.go\<close>, the schedule of a request and its run; \<open>Host\<close> is the construction, the
    administration endpoints and the login of \<open>host.go\<close> and the command \<open>cmd/compare\<close>.
  \<^item> \<open>Facts\<close>: \<open>kube/cmd/facts\<close>, the probe that asks an API server what the gateway relies
    on, with its verdicts tied to the definitions of \<open>Kube\<close> and \<open>Ordering\<close>.
  \<^item> \<open>Conformance\<close>: the scripted upstream of \<open>internal/conformance\<close> and the endpoint of
    \<open>cmd/replay\<close> that serves it.

  \<^bold>\<open>How the code appears.\<close>  Definitions keep the names of the Go functions; a method
  \<open>T.F\<close> is \<open>T_F\<close> where the bare name is taken.  Structs are records, Go string types with a
  few known values are datatypes with one constructor for every other string, errors are values
  of \<open>go_error\<close>, a nil error is \<open>None\<close>, and a panic is a result of its own.  Sequence numbers
  and redaction revisions are 64-bit words; the durations of the shared backend and of the workload wrap as
  \<open>int64\<close>; strings are byte strings.  A Go map is an association list in any order, so a
  theorem holds for every iteration order.  Host callbacks, the network, the clock and the
  upstream are inputs: a run is a function of the answers it gets, and the theorems quantify
  over all of them.  Concurrency is explicit: two goroutines are the sequence of steps in which
  they pass the lock or channel they share.

  \<^bold>\<open>What is shown.\<close>
  \<^item> Disclosure: only authorized cycles emit, objects leave only as projections of whole
    objects, a failed timed check is the end of delivery, no value at a withheld path survives,
    and what a browser reads off the wire is those events and nothing else.
  \<^item> Convergence: the consumer's store refines the upstream's view; under strict ordering
    the versions of an object never go back within a cycle, except past a deletion of it; redaction revisions follow the values; a cycle stops at the first result
    it cannot follow and at no other.
  \<^item> Lifecycle: the numbers of the events strictly increase, every watch is stopped, no hot loop of reconnects, one upstream per shared scope,
    no leak when every subscriber has gone, backoff gates and bounds, slow
    subscribers isolated; a shared subscriber sees the cache, object by object, but for the
    objects of live events that overtook its snapshot.
  \<^item> Edges: scopes round-trip between client and gateway, the parser and the allowlist accept
    exactly what they should, the handler serves nothing else, writes are bounded by the timeout,
    the capability search terminates, the two ways of opening a Kubernetes watch cannot be told
    apart, failures map to codes without leaking addresses, and Kubernetes decides in the
    subject access reviews.
  \<^item> Hosts: the composed shared-stream host shows one ConfigMap to subjects that Kubernetes
    permits, never past the end of their session; a save is conditional on what the editor saw
    and guarded; the proxy forwards nothing but the requests it is for; the replayed scripts
    that list once and hold whole objects are watches the stream can follow and recover from; a workload request is answered with a sorted, numbered plan
    over existing objects, a run accounts for every write it sends, the comparison command deletes
    the namespace it created, and the probe's first verdict is the backend's snapshot boundary.
  \<^item> Where the code departs from its comments there is a theorem that shows it
    (\<open>cycle_older_after_deletion\<close>, \<open>empty_object_accepted\<close>, \<open>typed_nil_panics\<close>, \<open>shared_snapshot_overtaken\<close>,
    \<open>isDNSName_accepts_empty_label\<close>, \<open>resolve_self\<close>, \<open>plan_may_not_return\<close>,
    \<open>reconnect_hits_burst\<close>, \<open>F6_accepts_no_boundary\<close>).

  \<^bold>\<open>Bounds and fuel.\<close>  A connection calls \<open>Emit\<close> at most once per answer it reads and twice per
  cycle besides (\<open>stream_emits\<close>), so its 64-bit numbers are ordered while that is below
  \<open>2^64\<close>.  No operation needs fuel.  The loops that wait for input are recursions
  over the inputs that have come, and say so with a result of their own when they are still
  waiting.  The search along the \<open>Unwrap\<close> methods of response writers and the counting loops of
  a workload may never end; they are \<open>partial_function\<close>s in the option monad.  Termination is
  proved for every well-founded chain of writers, and for every workload request whose numbers do
  not wrap; for two requests whose numbers do, non-termination is proved.

  \<^bold>\<open>Parameters.\<close>  SHA-256, JSON decoding in the patch guard, the Unicode tables behind
  \<open>strings.ToLower\<close>, the client-go and apimachinery functions, the cluster and its namespaces,
  and the random generator of the workload, of which the theorems use that it draws in range.  The
  theorems that need more of a parameter than being a function say so in their hypotheses.  A
  \<open>float64\<close> is its exact value, with the rounding of a division written out; what a conversion
  to \<open>int64\<close> gives beyond its range is a parameter, as the language leaves it to the platform.

  \<^bold>\<open>Not modelled.\<close>  Flags, files, sockets and certificates of the commands, the route tables and
  static files that \<open>net/http\<close> serves, the counting transports and the counters of the save
  endpoint of the comparison host: input and output around the modelled handlers.  Of the
  TypeScript client only the query it writes.  Inside the modelled files: the text that
  \<open>Error()\<close> renders for a \<open>StreamError\<close>, and scheduling fairness.
\<close>

end
